(* ===== verification/Fp_Prelude.thy ===== *)
theory Fp_Prelude
  imports Main "HOL-Library.Word"
begin

unbundle bit_operations_syntax

text \<open>
  What the components share: the C integer types as words, the outcome of a C function
  that may spin or fault, byte order and little-endian memory access, and the generic
  lemmas on words, lists and rings of slots that the component proofs use.
\<close>

section \<open>C integers\<close>

type_synonym u8 = "8 word"
type_synonym u16 = "16 word"
type_synonym u32 = "32 word"
type_synonym u64 = "64 word"

text \<open>
  \<open>fp_arith\<close> collects the facts that read a word expression as a natural number,
  \<open>fp_mem\<close> the ones about loads and stores in a byte buffer.
\<close>

named_theorems fp_arith
named_theorems fp_mem

section \<open>Outcomes\<close>

text \<open>
  A call returns a value, or spins (\<^verbatim>\<open>while (f(...) != 0) continue;\<close> in a state
  in which \<open>f\<close> keeps failing until another thread acts), or faults (a NULL pointer
  is followed, a buffer is overrun, a division by zero, a signed overflow), or ends the
  process with a status (\<^verbatim>\<open>exit(status)\<close>).
\<close>

datatype 'a run = Ret 'a | Spin | Fault | Exits int

fun run_bind :: "'a run \<Rightarrow> ('a \<Rightarrow> 'b run) \<Rightarrow> 'b run" where
  "run_bind (Ret x) f = f x"
| "run_bind Spin f = Spin"
| "run_bind Fault f = Fault"
| "run_bind (Exits status) f = Exits status"

lemma run_bind_Ret [simp]: "run_bind r f = Ret y \<longleftrightarrow> (\<exists>x. r = Ret x \<and> f x = Ret y)"
  by (cases r) auto

lemma run_bind_Ret_right [simp]: "run_bind r Ret = r"
  by (cases r) auto

lemma run_bind_assoc: "run_bind (run_bind r f) g = run_bind r (\<lambda>x. run_bind (f x) g)"
  by (cases r) auto

text \<open>A spin loop around an operation that fails with \<open>None\<close>.\<close>

definition spin_until :: "'a option \<Rightarrow> 'a run" where
  "spin_until r = (case r of None \<Rightarrow> Spin | Some x \<Rightarrow> Ret x)"

lemma spin_until_simps [simp]:
  "spin_until None = Spin"
  "spin_until (Some x) = Ret x"
  by (simp_all add: spin_until_def)

lemma spin_until_Ret [simp]: "spin_until r = Ret x \<longleftrightarrow> r = Some x"
  by (cases r) auto

text \<open>
  \<^verbatim>\<open>int\<close> arithmetic and sizes. A result that an \<^verbatim>\<open>int\<close> cannot hold is undefined behaviour, a fault here; a
  wider value converted to \<^verbatim>\<open>int\<close> keeps its low 32 bits. \<^verbatim>\<open>malloc\<close> takes an unsigned size, so a negative
  \<^verbatim>\<open>int\<close> asks for more than half of the address space: it returns NULL, and \<^verbatim>\<open>exit_if_ptr_is_null\<close> ends the
  process. Other requests succeed.
\<close>

definition int_range :: "int \<Rightarrow> bool" where
  "int_range i \<longleftrightarrow> - (2 ^ 31) \<le> i \<and> i < 2 ^ 31"

definition c_int :: "int \<Rightarrow> int run" where
  "c_int i = (if int_range i then Ret i else Fault)"

definition malloc_or_exit :: "int \<Rightarrow> unit run" where
  "malloc_or_exit bytes = (if bytes < 0 then Exits (- 1) else Ret ())"

lemma c_int_Ret [simp]: "c_int i = Ret j \<longleftrightarrow> int_range i \<and> j = i"
  by (auto simp: c_int_def)

lemma malloc_or_exit_Ret [simp]: "malloc_or_exit bytes = Ret u \<longleftrightarrow> 0 \<le> bytes"
  by (simp add: malloc_or_exit_def)

section \<open>Words as numbers\<close>

lemma unat_two_power [fp_arith]:
  "k < LENGTH('a::len) \<Longrightarrow> unat (2 ^ k :: 'a word) = 2 ^ k"
proof -
  assume "k < LENGTH('a)"
  moreover have "unat (push_bit k 1 :: 'a word) = take_bit LENGTH('a) (push_bit k (unat (1 :: 'a word)))"
    by (rule unsigned_push_bit_eq)
  ultimately show ?thesis by (simp add: take_bit_eq_mod)
qed

lemma unat_mask_and [fp_arith]:
  fixes w :: "'a::len word"
  shows "unat (w AND (2 ^ k - 1)) = unat w mod 2 ^ k"
proof -
  have "w AND (2 ^ k - 1) = take_bit k w"
    by (simp add: take_bit_eq_mask mask_eq_exp_minus_1)
  then show ?thesis
    by (simp only: unsigned_take_bit_eq) (simp only: take_bit_eq_mod)
qed

lemma unat_mod_power_add [fp_arith]:
  fixes a b :: "'a::len word"
  assumes "k \<le> LENGTH('a)"
  shows "unat (a + b) mod 2 ^ k = (unat a + unat b) mod 2 ^ k"
proof -
  have "(2::nat) ^ k dvd 2 ^ LENGTH('a)"
    using assms by (rule le_imp_power_dvd)
  then show ?thesis
    by (simp add: unat_word_ariths mod_mod_cancel)
qed

lemma unat_add_small [fp_arith]:
  fixes a b :: "'a::len word"
  shows "unat a + unat b < 2 ^ LENGTH('a) \<Longrightarrow> unat (a + b) = unat a + unat b"
  by (simp add: unat_word_ariths)

lemma unat_ucast_mod [fp_arith]:
  fixes w :: "'a::len word"
  shows "unat (ucast w :: 'b::len word) = unat w mod 2 ^ LENGTH('b)"
  by (simp only: unsigned_ucast_eq) (simp only: take_bit_eq_mod)

lemma unat_ucast_small [fp_arith]:
  fixes w :: "'a::len word"
  shows "unat w < 2 ^ LENGTH('b) \<Longrightarrow> unat (ucast w :: 'b::len word) = unat w"
  by (simp add: unat_ucast_mod)

lemma unat_ucast_up [fp_arith]:
  fixes w :: "'a::len word"
  assumes "LENGTH('a) \<le> LENGTH('b)"
  shows "unat (ucast w :: 'b::len word) = unat w"
proof (rule unat_ucast_small)
  have "unat w < 2 ^ LENGTH('a)" by (rule unsigned_less)
  also have "(2::nat) ^ LENGTH('a) \<le> 2 ^ LENGTH('b)" using assms by (rule power_increasing) simp
  finally show "unat w < 2 ^ LENGTH('b)" .
qed

lemma ucast_up_down:
  fixes w :: "'a::len word"
  assumes "LENGTH('a) \<le> LENGTH('b::len)"
  shows "(ucast (ucast w :: 'b word) :: 'a word) = w"
proof (rule unsigned_word_eqI)
  show "unat (ucast (ucast w :: 'b word) :: 'a word) = unat w"
    using assms by (simp add: unat_ucast_mod [of "ucast w"] unat_ucast_up)
qed

lemma ucast_add_down:
  fixes a b :: "'a::len word"
  assumes "LENGTH('b) \<le> LENGTH('a)"
  shows "(ucast (a + b) :: 'b::len word) = ucast a + ucast b"
proof (rule unsigned_word_eqI)
  show "unat (ucast (a + b) :: 'b word) = unat (ucast a + ucast b :: 'b word)"
    using unat_mod_power_add [OF assms, of a b]
    by (simp add: unat_ucast_mod unat_word_ariths mod_simps)
qed

lemma unat_of_nat_small [fp_arith]:
  "n < 2 ^ LENGTH('a::len) \<Longrightarrow> unat (of_nat n :: 'a word) = n"
  by (simp add: unat_of_nat)

lemma ucast_of_nat_down:
  assumes "LENGTH('b::len) \<le> LENGTH('a::len)"
  shows "(ucast (of_nat n :: 'a word) :: 'b word) = of_nat n"
proof (rule unsigned_word_eqI)
  have "(2::nat) ^ LENGTH('b) dvd 2 ^ LENGTH('a)"
    using assms by (rule le_imp_power_dvd)
  then show "unat (ucast (of_nat n :: 'a word) :: 'b word) = unat (of_nat n :: 'b word)"
    by (simp add: unat_ucast_mod unat_of_nat mod_mod_cancel)
qed

section \<open>Rings of slots\<close>

text \<open>
  \<open>n\<close> consecutive slots of an array used as a ring, from slot \<open>d mod length ns\<close> on.
\<close>

definition ring_slice :: "'a list \<Rightarrow> nat \<Rightarrow> nat \<Rightarrow> 'a list" where
  "ring_slice ns d n = map (\<lambda>i. ns ! ((d + i) mod length ns)) [0..<n]"

lemma length_ring_slice [simp]: "length (ring_slice ns d n) = n"
  by (simp add: ring_slice_def)

lemma ring_slice_0 [simp]: "ring_slice ns d 0 = []"
  by (simp add: ring_slice_def)

lemma ring_slice_mod [simp]: "ring_slice ns (d mod length ns) n = ring_slice ns d n"
  by (simp add: ring_slice_def mod_simps)

lemma ring_slice_Suc:
  "ring_slice ns d (Suc n) = ns ! (d mod length ns) # ring_slice ns (Suc d) n"
proof -
  have "[0..<Suc n] = 0 # map Suc [0..<n]"
    by (simp add: map_Suc_upt upt_conv_Cons)
  then show ?thesis
    by (simp only: ring_slice_def) (simp add: comp_def)
qed

lemma ring_slice_add:
  "ring_slice ns d (m + n) = ring_slice ns d m @ ring_slice ns (d + m) n"
  by (induction m arbitrary: d) (simp_all add: ring_slice_Suc)

lemma take_ring_slice: "n \<le> l \<Longrightarrow> take n (ring_slice ns d l) = ring_slice ns d n"
  using ring_slice_add [of ns d n "l - n"] by simp

lemma drop_ring_slice: "n \<le> l \<Longrightarrow> drop n (ring_slice ns d l) = ring_slice ns (d + n) (l - n)"
  using ring_slice_add [of ns d n "l - n"] by simp

lemma ring_slots_distinct:
  fixes d i n N :: nat
  assumes "i < n" "n < N"
  shows "(d + i) mod N \<noteq> (d + n) mod N"
proof
  assume "(d + i) mod N = (d + n) mod N"
  then have "N dvd n - i"
    using assms mod_eq_dvd_iff_nat [of "d + i" "d + n" N] by simp
  with assms show False
    by (auto dest: dvd_imp_le)
qed

lemma ring_slice_put:
  assumes "n < length ns"
  shows "ring_slice (ns[(d + n) mod length ns := x]) d (Suc n) = ring_slice ns d n @ [x]"
proof -
  have "0 < length ns" using assms by linarith
  then have "(d + n) mod length ns < length ns" by simp
  moreover have "(d + n) mod length ns \<noteq> (d + i) mod length ns" if "i < n" for i
    using ring_slots_distinct [OF that assms] by (rule not_sym)
  ultimately show ?thesis
    by (auto simp: ring_slice_def)
qed

lemma ring_slice_put_beyond:
  assumes "n < length ns"
  shows "ring_slice (ns[(d + n) mod length ns := x]) d n = ring_slice ns d n"
  using ring_slice_put [OF assms, of d x]
    take_ring_slice [of n "Suc n" "ns[(d + n) mod length ns := x]" d] by simp

lemma ring_slice_snoc: "ring_slice ns d (Suc n) = ring_slice ns d n @ [ns ! ((d + n) mod length ns)]"
  using ring_slice_add [of ns d n 1] by (simp add: ring_slice_Suc [of ns "d + n" 0])

lemma ring_slice_cong_mod:
  "d mod length ns = d' mod length ns \<Longrightarrow> ring_slice ns d n = ring_slice ns d' n"
  by (metis ring_slice_mod)

section \<open>Copying bytes\<close>

text \<open>\<^verbatim>\<open>memcpy(dst + d, src + s, n)\<close> inside two areas; \<open>None\<close> is a copy that leaves one of them.\<close>

definition memcpy :: "'a list \<Rightarrow> nat \<Rightarrow> 'a list \<Rightarrow> nat \<Rightarrow> nat \<Rightarrow> 'a list option" where
  "memcpy dst d src s n =
     (if d + n \<le> length dst \<and> s + n \<le> length src
      then Some (take d dst @ take n (drop s src) @ drop (d + n) dst) else None)"

lemma memcpy_Some:
  "memcpy dst d src s n = Some dst' \<longleftrightarrow> d + n \<le> length dst \<and> s + n \<le> length src
     \<and> dst' = take d dst @ take n (drop s src) @ drop (d + n) dst"
  by (auto simp: memcpy_def)

lemma memcpy_None: "memcpy dst d src s n = None \<longleftrightarrow> length dst < d + n \<or> length src < s + n"
  by (auto simp: memcpy_def)

lemma memcpy_length [fp_mem]: "memcpy dst d src s n = Some dst' \<Longrightarrow> length dst' = length dst"
  by (auto simp: memcpy_Some)

lemma memcpy_prefix [fp_mem]:
  "memcpy dst d src s n = Some dst' \<Longrightarrow> take (d + n) dst' = take d dst @ take n (drop s src)"
  by (auto simp: memcpy_Some)

end
