(* ===== verification/Fifo_Interface.thy ===== *)
theory Fifo_Interface
  imports Fp_Prelude "HOL-Library.Multiset"
begin

text \<open>
  The contract that every queue and pool of the program relies on: a bounded FIFO, read
  through the list of the objects it holds. Two programs implement it,
  \<^verbatim>\<open>INTEL_QUEUE\<close> and \<^verbatim>\<open>TMC_QUEUE\<close>; the clients' lemmas are proved once here.
\<close>

section \<open>A bounded FIFO\<close>

locale bounded_fifo =
  fixes enq :: "'q \<Rightarrow> 'a \<Rightarrow> 'q option"
    and deq :: "'q \<Rightarrow> ('a \<times> 'q) option"
    and contents :: "'q \<Rightarrow> 'a list"
    and invar :: "'q \<Rightarrow> bool"
    and capacity :: nat
  assumes enq_None: "invar q \<Longrightarrow> enq q x = None \<longleftrightarrow> capacity \<le> length (contents q)"
    and enq_Some: "invar q \<Longrightarrow> enq q x = Some q' \<Longrightarrow>
          invar q' \<and> contents q' = contents q @ [x]"
    and deq_None: "invar q \<Longrightarrow> deq q = None \<longleftrightarrow> contents q = []"
    and deq_Some: "invar q \<Longrightarrow> deq q = Some (x, q') \<Longrightarrow>
          invar q' \<and> contents q = x # contents q'"
    and bounded: "invar q \<Longrightarrow> length (contents q) \<le> capacity"
begin

lemma enq_room:
  assumes "invar q" "length (contents q) < capacity"
  obtains q' where "enq q x = Some q'" "invar q'" "contents q' = contents q @ [x]"
proof -
  from assms have "enq q x \<noteq> None" by (simp add: enq_None)
  then obtain q' where q': "enq q x = Some q'" by auto
  with enq_Some [OF assms(1) q'] that show thesis by blast
qed

lemma deq_nonempty:
  assumes "invar q" "contents q = x # xs"
  obtains q' where "deq q = Some (x, q')" "invar q'" "contents q' = xs"
proof -
  from assms have "deq q \<noteq> None" by (simp add: deq_None)
  then obtain y q' where q': "deq q = Some (y, q')" by auto
  with deq_Some [OF assms(1) q'] assms(2) have "y = x" "invar q'" "contents q' = xs"
    by auto
  with q' that show thesis by blast
qed

text \<open>Sending a whole list, stopping at the first refusal; receiving \<open>n\<close> objects.\<close>

fun enq_list :: "'q \<Rightarrow> 'a list \<Rightarrow> 'q option" where
  "enq_list q [] = Some q"
| "enq_list q (x # xs) = Option.bind (enq q x) (\<lambda>q'. enq_list q' xs)"

fun deq_list :: "nat \<Rightarrow> 'q \<Rightarrow> ('a list \<times> 'q) option" where
  "deq_list 0 q = Some ([], q)"
| "deq_list (Suc n) q =
     Option.bind (deq q) (\<lambda>(x, q'). map_option (\<lambda>(xs, q''). (x # xs, q'')) (deq_list n q'))"

lemma enq_list_room:
  assumes "invar q" "length (contents q) + length xs \<le> capacity"
  shows "\<exists>q'. enq_list q xs = Some q' \<and> invar q' \<and> contents q' = contents q @ xs"
  using assms
proof (induction xs arbitrary: q)
  case Nil
  then show ?case by simp
next
  case (Cons x xs)
  then obtain q1 where "enq q x = Some q1" "invar q1" "contents q1 = contents q @ [x]"
    using enq_room [of q x] by auto
  with Cons.IH [of q1] Cons.prems(2) show ?case by simp
qed

lemma deq_list_prefix:
  assumes "invar q" "n \<le> length (contents q)"
  shows "\<exists>q'. deq_list n q = Some (take n (contents q), q') \<and> invar q'
           \<and> contents q' = drop n (contents q)"
  using assms
proof (induction n arbitrary: q)
  case 0
  then show ?case by simp
next
  case (Suc n)
  then obtain x xs where xs: "contents q = x # xs"
    by (cases "contents q") auto
  with Suc.prems obtain q1 where "deq q = Some (x, q1)" "invar q1" "contents q1 = xs"
    using deq_nonempty by metis
  with Suc.IH [of q1] Suc.prems xs show ?case by auto
qed

lemma fifo_order:
  assumes "invar q" "contents q = []" "length xs \<le> capacity"
  shows "\<exists>q1 q2. enq_list q xs = Some q1 \<and> deq_list (length xs) q1 = Some (xs, q2)
           \<and> invar q2 \<and> contents q2 = []"
proof -
  from enq_list_room [of q xs] assms
  obtain q1 where q1: "enq_list q xs = Some q1" "invar q1" "contents q1 = xs" by auto
  with deq_list_prefix [of q1 "length xs"] show ?thesis by auto
qed

lemma enq_mset:
  "invar q \<Longrightarrow> enq q x = Some q' \<Longrightarrow> mset (contents q') = add_mset x (mset (contents q))"
  by (auto dest: enq_Some)

lemma deq_mset:
  "invar q \<Longrightarrow> deq q = Some (x, q') \<Longrightarrow> mset (contents q) = add_mset x (mset (contents q'))"
  by (auto dest: deq_Some)

end

end
