(* ===== verification/Ring_Queue.thy ===== *)
theory Ring_Queue
  imports Fifo_Interface
begin

unbundle bit_operations_syntax

text \<open>
  The queue that \<^verbatim>\<open>INTEL_QUEUE(NAME, OBJ_TYPE, LOG2_ENTRIES, FLAGS)\<close> of
  \<^verbatim>\<open>src/queue_intel.h\<close> generates: a ring of \<open>2 ^ LOG2_ENTRIES\<close> object pointers
  with two free-running 64-bit counters. \<open>swsr_queue\<close>, \<open>mwsr_queue\<close> and
  \<open>mwsr_pool\<close> are its instances at 10, \<open>mwsr_mpool\<close> at 16. Each operation here is the
  effect of a whole call; the mutexes and the interleaving of one sender with one
  receiver are in the theory \<open>Ring_Concurrent\<close>.
\<close>

section \<open>State\<close>

record 'a intel_queue =
  enqueue_count :: u64
  dequeue_count :: u64
  node :: "'a list"
  item_size :: int
  total :: u32
  qlength :: u32

definition LG2_CAPACITY :: nat where "LG2_CAPACITY = 10"
definition MANAGER_POOL :: nat where "MANAGER_POOL = 16"

section \<open>Operations\<close>

text \<open>
  \<open>junk\<close> is what \<^verbatim>\<open>malloc\<close> returned (\<open>2 ^ k\<close> slots), \<open>null\<close> the NULL pointer.
  \<^verbatim>\<open>bzero(queue->node, numbers)\<close> clears \<open>numbers\<close> bytes, that is one slot in eight.
\<close>

definition intel_init :: "nat \<Rightarrow> 'a \<Rightarrow> 'a list \<Rightarrow> 'a intel_queue" where
  "intel_init k null junk =
     (let numbers = push_bit k (1::u32);
          cleared = unat numbers div 8
      in \<lparr>enqueue_count = 0, dequeue_count = 0,
          node = replicate cleared null @ drop cleared junk,
          item_size = 8, total = numbers, qlength = 0\<rparr>)"

text \<open>\<open>None\<close> is the return value -1, which leaves the queue unchanged.\<close>

definition intel_enqueue :: "nat \<Rightarrow> 'a intel_queue \<Rightarrow> 'a \<Rightarrow> 'a intel_queue option" where
  "intel_enqueue k queue data =
     (if enqueue_count queue - dequeue_count queue \<ge> push_bit k 1 then None
      else let i = ucast (enqueue_count queue AND (push_bit k 1 - 1)) :: u32
           in Some (queue\<lparr>node := (node queue)[unat i := data],
                          enqueue_count := enqueue_count queue + 1,
                          qlength := qlength queue + 1\<rparr>))"

text \<open>
  The copy loops keep the counter in an \<^verbatim>\<open>unsigned int\<close>; the pair (array, cnt) is
  the list of the objects it holds.
\<close>

fun intel_enqueue_loop ::
    "nat \<Rightarrow> 'a list \<Rightarrow> u32 \<Rightarrow> 'a list \<Rightarrow> u32 \<Rightarrow> 'a list \<times> u32 \<times> u32" where
  "intel_enqueue_loop k [] cnt ns len = (ns, cnt, len)"
| "intel_enqueue_loop k (x # data) cnt ns len =
     (let i = cnt AND (push_bit k 1 - 1)
      in intel_enqueue_loop k data (cnt + 1) (ns[unat i := x]) (len + 1))"

definition intel_enqueue_multiple ::
    "nat \<Rightarrow> 'a intel_queue \<Rightarrow> 'a list \<Rightarrow> 'a intel_queue option" where
  "intel_enqueue_multiple k queue data =
     (let enqueue_num = of_nat (length data) :: u32
      in if enqueue_count queue + ucast enqueue_num - dequeue_count queue > push_bit k 1
         then None
         else let (ns, cnt, len) =
                    intel_enqueue_loop k data (ucast (enqueue_count queue))
                      (node queue) (qlength queue)
              in Some (queue\<lparr>node := ns, enqueue_count := ucast cnt, qlength := len\<rparr>))"

definition intel_dequeue :: "nat \<Rightarrow> 'a intel_queue \<Rightarrow> ('a \<times> 'a intel_queue) option" where
  "intel_dequeue k queue =
     (if enqueue_count queue = dequeue_count queue then None
      else let i = ucast (dequeue_count queue AND (push_bit k 1 - 1)) :: u32
           in Some (node queue ! unat i,
                    queue\<lparr>dequeue_count := dequeue_count queue + 1,
                          qlength := qlength queue - 1\<rparr>))"

fun intel_dequeue_loop :: "nat \<Rightarrow> nat \<Rightarrow> u32 \<Rightarrow> 'a list \<Rightarrow> u32 \<Rightarrow> 'a list \<times> u32 \<times> u32" where
  "intel_dequeue_loop k 0 cnt ns len = ([], cnt, len)"
| "intel_dequeue_loop k (Suc n) cnt ns len =
     (let i = cnt AND (push_bit k 1 - 1);
          (xs, cnt', len') = intel_dequeue_loop k n (cnt + 1) ns (len - 1)
      in (ns ! unat i # xs, cnt', len'))"

definition intel_dequeue_multiple ::
    "nat \<Rightarrow> 'a intel_queue \<Rightarrow> u32 \<Rightarrow> ('a list \<times> 'a intel_queue) option" where
  "intel_dequeue_multiple k queue dequeue_num =
     (if dequeue_count queue + ucast dequeue_num > enqueue_count queue then None
      else let (xs, cnt, len) =
                 intel_dequeue_loop k (unat dequeue_num) (ucast (dequeue_count queue))
                   (node queue) (qlength queue)
           in Some (xs, queue\<lparr>dequeue_count := ucast cnt, qlength := len\<rparr>))"

section \<open>Invariant and contents\<close>

definition intel_inv :: "nat \<Rightarrow> 'a intel_queue \<Rightarrow> bool" where
  "intel_inv k q \<longleftrightarrow>
     length (node q) = 2 ^ k \<and> total q = push_bit k 1 \<and>
     unat (enqueue_count q - dequeue_count q) \<le> 2 ^ k \<and>
     qlength q = ucast (enqueue_count q - dequeue_count q)"

definition intel_list :: "nat \<Rightarrow> 'a intel_queue \<Rightarrow> 'a list" where
  "intel_list k q =
     ring_slice (node q) (unat (dequeue_count q)) (unat (enqueue_count q - dequeue_count q))"

section \<open>Single operations\<close>

text \<open>
  The slot of the next enqueue is the slot after the last object held, also where a
  counter has wrapped around: \<open>2 ^ k\<close> divides \<open>2 ^ 64\<close>.
\<close>

lemma intel_slot:
  fixes c :: u64
  assumes "k < 32"
  shows "unat (ucast (c AND (2 ^ k - 1)) :: u32) = unat c mod 2 ^ k"
proof -
  have "unat c mod 2 ^ k < 2 ^ k" by simp
  also have "(2::nat) ^ k < 2 ^ 32" using assms by (intro power_strict_increasing) auto
  finally show ?thesis by (simp add: unat_mask_and unat_ucast_small)
qed

lemma counter_split:
  fixes e d :: u64
  assumes "k < 32"
  shows "unat e mod 2 ^ k = (unat d + unat (e - d)) mod 2 ^ k"
  using unat_mod_power_add [of k d "e - d"] assms by simp

lemma length_intel_list [simp]:
  "length (intel_list k q) = unat (enqueue_count q - dequeue_count q)"
  by (simp add: intel_list_def)

lemma intel_enqueue_None:
  assumes "k < 32"
  shows "intel_enqueue k q x = None \<longleftrightarrow> 2 ^ k \<le> length (intel_list k q)"
  using assms by (simp add: intel_enqueue_def Let_def word_le_nat_alt unat_two_power)

lemma intel_count_Suc:
  fixes e d :: u64
  assumes "k < 32" "unat (e - d) < 2 ^ k"
  shows "unat (e + 1 - d) = Suc (unat (e - d))"
proof -
  have "(2::nat) ^ k < 2 ^ 32" using assms(1) by (intro power_strict_increasing) auto
  with assms(2) have "unat (e - d) + unat (1::u64) < 2 ^ LENGTH(64)" by simp
  then have "unat ((e - d) + 1) = unat (e - d) + unat (1::u64)"
    by (rule unat_add_small)
  then show ?thesis by (simp add: algebra_simps)
qed

lemma intel_enqueue_dequeue_count: "intel_enqueue k q x = Some q' \<Longrightarrow> dequeue_count q' = dequeue_count q"
  by (auto simp: intel_enqueue_def Let_def split: if_splits)

lemma intel_enqueue_Some:
  assumes "k < 32" "intel_inv k q" "intel_enqueue k q x = Some q'"
  shows "intel_inv k q' \<and> intel_list k q' = intel_list k q @ [x]"
proof -
  let ?n = "unat (enqueue_count q - dequeue_count q)"
  from assms(3) have room: "?n < 2 ^ k"
    and q': "q' = q\<lparr>node := (node q)[unat (enqueue_count q) mod 2 ^ k := x],
                  enqueue_count := enqueue_count q + 1, qlength := qlength q + 1\<rparr>"
    using assms(1)
    by (auto simp: intel_enqueue_def Let_def intel_slot word_le_nat_alt unat_two_power
        split: if_splits)
  have len: "length (node q) = 2 ^ k" using assms(2) by (simp add: intel_inv_def)
  have slot: "unat (enqueue_count q) mod 2 ^ k = (unat (dequeue_count q) + ?n) mod length (node q)"
    using counter_split [OF assms(1)] len by simp
  have "intel_list k q' = ring_slice ((node q)[(unat (dequeue_count q) + ?n) mod length (node q) := x])
          (unat (dequeue_count q)) (Suc ?n)"
    by (simp add: intel_list_def q' slot intel_count_Suc [OF assms(1) room])
  also have "\<dots> = intel_list k q @ [x]"
    using ring_slice_put [of ?n "node q" "unat (dequeue_count q)" x] room len
    by (simp add: intel_list_def)
  finally have "intel_list k q' = intel_list k q @ [x]" .
  moreover have "intel_inv k q'"
  proof -
    have "ucast (enqueue_count q + 1 - dequeue_count q) =
            (ucast (enqueue_count q - dequeue_count q) + 1 :: u32)"
      using ucast_add_down [of "enqueue_count q - dequeue_count q" 1, where 'b = 32]
      by (simp add: add_diff_eq add.commute)
    then show ?thesis
      using assms(2) room intel_count_Suc [OF assms(1) room] by (simp add: intel_inv_def q')
  qed
  ultimately show ?thesis by blast
qed

lemma intel_dequeue_None: "intel_dequeue k q = None \<longleftrightarrow> intel_list k q = []"
  by (simp add: intel_dequeue_def Let_def unat_gt_0 flip: length_0_conv)

lemma intel_dequeue_Some:
  assumes "k < 32" "intel_inv k q" "intel_dequeue k q = Some (x, q')"
  shows "intel_inv k q' \<and> intel_list k q = x # intel_list k q'"
proof -
  let ?e = "enqueue_count q" and ?d = "dequeue_count q"
  from assms(1,3) have ne: "?e \<noteq> ?d" and x: "x = node q ! (unat ?d mod 2 ^ k)"
    and q': "q' = q\<lparr>dequeue_count := ?d + 1, qlength := qlength q - 1\<rparr>"
    by (auto simp: intel_dequeue_def Let_def intel_slot split: if_splits)
  have len: "length (node q) = 2 ^ k" using assms(2) by (simp add: intel_inv_def)
  have n: "unat (?e - ?d) = Suc (unat (?e - (?d + 1)))"
  proof -
    have "unat (?e - (?d + 1)) = unat (?e - ?d) - 1"
      using unat_minus_one [of "?e - ?d"] ne by (simp add: diff_diff_eq)
    moreover have "0 < unat (?e - ?d)" using ne by (simp add: unat_gt_0)
    ultimately show ?thesis by simp
  qed
  have next_slot: "unat (?d + 1) mod 2 ^ k = Suc (unat ?d) mod 2 ^ k"
    using unat_mod_power_add [of k ?d 1] assms(1) by simp
  have "intel_list k q = x # ring_slice (node q) (Suc (unat ?d)) (unat (?e - (?d + 1)))"
    by (simp add: intel_list_def n ring_slice_Suc x len)
  also have "ring_slice (node q) (Suc (unat ?d)) (unat (?e - (?d + 1))) = intel_list k q'"
    using next_slot len ring_slice_cong_mod [of "Suc (unat ?d)" "node q" "unat (?d + 1)"]
    by (simp add: intel_list_def q')
  finally have "intel_list k q = x # intel_list k q'" .
  moreover have "intel_inv k q'"
  proof -
    have "ucast (?e - ?d) = (ucast (?e - (?d + 1)) + 1 :: u32)"
      using ucast_add_down [of "?e - (?d + 1)" 1, where 'b = 32] by simp
    then show ?thesis using assms(2) n by (simp add: intel_inv_def q')
  qed
  ultimately show ?thesis by blast
qed

lemma intel_init_inv:
  assumes "k < 32" "3 \<le> k" "length junk = 2 ^ k"
  shows "intel_inv k (intel_init k null junk) \<and> intel_list k (intel_init k null junk) = []"
  using assms by (simp add: intel_inv_def intel_init_def intel_list_def Let_def unat_two_power)

section \<open>Multiple operations\<close>

lemma intel_enqueue_loop_result:
  assumes "k < 32" "length ns = 2 ^ k" "n + length data \<le> 2 ^ k"
    and "unat cnt mod 2 ^ k = (d + n) mod 2 ^ k"
  shows "\<exists>ns'. intel_enqueue_loop k data cnt ns len
             = (ns', cnt + of_nat (length data), len + of_nat (length data))
           \<and> length ns' = length ns \<and> ring_slice ns' d (n + length data) = ring_slice ns d n @ data"
  using assms
proof (induction data arbitrary: n cnt ns len)
  case Nil
  then show ?case by simp
next
  case (Cons x data)
  let ?ns = "ns[(d + n) mod length ns := x]"
  have slot: "unat (cnt AND (2 ^ k - 1)) = (d + n) mod length ns"
    using Cons.prems by (simp add: unat_mask_and)
  have "unat (cnt + 1) mod 2 ^ k = (unat cnt mod 2 ^ k + 1) mod 2 ^ k"
    using unat_mod_power_add [of k cnt 1] Cons.prems(1) by (simp add: mod_simps)
  also have "\<dots> = (d + Suc n) mod 2 ^ k"
    using Cons.prems(4) by (simp add: mod_simps)
  finally have "unat (cnt + 1) mod 2 ^ k = (d + Suc n) mod 2 ^ k" .
  then obtain ns' where "intel_enqueue_loop k data (cnt + 1) ?ns (len + 1)
        = (ns', cnt + 1 + of_nat (length data), len + 1 + of_nat (length data))"
      "length ns' = length ns"
      "ring_slice ns' d (Suc n + length data) = ring_slice ?ns d (Suc n) @ data"
    using Cons.IH [of ?ns "Suc n" "cnt + 1" "len + 1"] Cons.prems by auto
  moreover have "ring_slice ?ns d (Suc n) = ring_slice ns d n @ [x]"
    using Cons.prems by (intro ring_slice_put) simp
  ultimately show ?case
    by (simp add: slot algebra_simps)
qed

lemma intel_dequeue_loop_result:
  assumes "k < 32" "length ns = 2 ^ k"
  shows "intel_dequeue_loop k n cnt ns len =
           (ring_slice ns (unat cnt) n, cnt + of_nat n, len - of_nat n)"
proof (induction n arbitrary: cnt len)
  case 0
  then show ?case by simp
next
  case (Suc n)
  have "unat (cnt + 1) mod length ns = Suc (unat cnt) mod length ns"
    using unat_mod_power_add [of k cnt 1] assms by simp
  then have "ring_slice ns (unat (cnt + 1)) n = ring_slice ns (Suc (unat cnt)) n"
    by (rule ring_slice_cong_mod)
  with Suc.IH [of "cnt + 1" "len - 1"] show ?case
    by (simp add: ring_slice_Suc unat_mask_and assms(2) algebra_simps)
qed

lemma two_power_less_32: "k < 32 \<Longrightarrow> (2::nat) ^ k < 2 ^ 32"
  by (rule power_strict_increasing) auto

text \<open>Where the counter stays below \<open>2 ^ 32\<close>, its 32-bit copy loses nothing.\<close>

lemma narrow_counter:
  fixes c :: u64
  assumes "unat c + n < 2 ^ 32"
  shows "(ucast (ucast c + of_nat n :: u32) :: u64) = c + of_nat n"
proof (rule unsigned_word_eqI)
  show "unat (ucast (ucast c + of_nat n :: u32) :: u64) = unat (c + of_nat n)"
    using assms by (simp add: unat_ucast_mod unat_word_ariths unat_of_nat)
qed

lemma intel_count_add:
  fixes e d :: u64
  assumes "unat (e - d) + n < 2 ^ 64"
  shows "unat (e + of_nat n - d) = unat (e - d) + n"
proof -
  have "e + of_nat n - d = (e - d) + of_nat n" by simp
  moreover have "unat ((e - d) + of_nat n) = unat (e - d) + unat (of_nat n :: u64)"
    by (rule unat_add_small) (use assms in \<open>simp add: unat_of_nat\<close>)
  moreover have "unat (of_nat n :: u64) = n"
    using assms by (simp add: unat_of_nat)
  ultimately show ?thesis by (simp only:)
qed

lemma intel_enqueue_multiple_None:
  assumes "k < 32" "intel_inv k q" "unat (enqueue_count q) + length data < 2 ^ 32"
  shows "intel_enqueue_multiple k q data = None \<longleftrightarrow> 2 ^ k < length (intel_list k q) + length data"
proof -
  let ?n = "unat (enqueue_count q - dequeue_count q)"
  have "?n \<le> 2 ^ k" using assms(2) by (simp add: intel_inv_def)
  then have "?n + length data < 2 ^ 64"
    using two_power_less_32 [OF assms(1)] assms(3) by simp
  then have "unat (enqueue_count q + of_nat (length data) - dequeue_count q) = ?n + length data"
    by (rule intel_count_add)
  moreover have "(ucast (of_nat (length data) :: u32) :: u64) = of_nat (length data)"
    using narrow_counter [of 0 "length data"] assms(3) by simp
  ultimately show ?thesis
    using assms(1)
    by (simp add: intel_enqueue_multiple_def Let_def word_less_nat_alt unat_two_power
        split: prod.splits)
qed

lemma intel_enqueue_multiple_Some:
  assumes "k < 32" "intel_inv k q" "unat (enqueue_count q) + length data < 2 ^ 32"
    and "intel_enqueue_multiple k q data = Some q'"
  shows "intel_inv k q' \<and> intel_list k q' = intel_list k q @ data
         \<and> unat (enqueue_count q') = unat (enqueue_count q) + length data"
proof -
  let ?e = "enqueue_count q" and ?d = "dequeue_count q" and ?l = "length data"
  let ?n = "unat (?e - ?d)"
  have len: "length (node q) = 2 ^ k" and ql: "qlength q = ucast (?e - ?d)"
    using assms(2) by (simp_all add: intel_inv_def)
  have fits: "?n + ?l \<le> 2 ^ k"
    using intel_enqueue_multiple_None [OF assms(1-3)] assms(4) by simp
  have "unat (ucast ?e :: u32) mod 2 ^ k = (unat ?d + ?n) mod 2 ^ k"
    using counter_split [OF assms(1), of ?e ?d] assms(3) by (simp add: unat_ucast_small)
  from intel_enqueue_loop_result [OF assms(1) len fits this]
  obtain ns' where loop: "intel_enqueue_loop k data (ucast ?e) (node q) (qlength q)
        = (ns', ucast ?e + of_nat ?l, qlength q + of_nat ?l)"
      and ns': "length ns' = length (node q)"
        "ring_slice ns' (unat ?d) (?n + ?l) = ring_slice (node q) (unat ?d) ?n @ data"
    by blast
  have q': "q' = q\<lparr>node := ns', enqueue_count := ?e + of_nat ?l, qlength := qlength q + of_nat ?l\<rparr>"
    using assms(4) narrow_counter [OF assms(3)] loop
    by (auto simp: intel_enqueue_multiple_def Let_def split: if_splits)
  have "?n + ?l < 2 ^ 64" using fits two_power_less_32 [OF assms(1)] by simp
  note sum = intel_count_add [OF this]
  have "ucast (?e + of_nat ?l - ?d) = (ucast (?e - ?d) + of_nat ?l :: u32)"
    using ucast_add_down [of "?e - ?d" "of_nat ?l", where 'b = 32]
    by (simp add: add_diff_eq add.commute ucast_of_nat_down)
  with sum fits ns' ql assms(2) have "intel_inv k q'"
    by (simp add: intel_inv_def q')
  moreover have "intel_list k q' = intel_list k q @ data"
    using sum ns'(2) by (simp add: intel_list_def q')
  moreover have "unat (enqueue_count q') = unat ?e + ?l"
    using assms(3) by (simp add: q' unat_add_small unat_of_nat)
  ultimately show ?thesis by blast
qed

lemma intel_counters_ordered:
  assumes "k < 32" "intel_inv k q" "unat (dequeue_count q) < 2 ^ 32"
  shows "unat (enqueue_count q) = unat (dequeue_count q) + length (intel_list k q)"
proof -
  let ?e = "enqueue_count q" and ?d = "dequeue_count q"
  have "unat (?e - ?d) \<le> 2 ^ k" using assms(2) by (simp add: intel_inv_def)
  then have "unat ?d + unat (?e - ?d) < 2 ^ LENGTH(64)"
    using two_power_less_32 [OF assms(1)] assms(3) by simp
  then have "unat (?d + (?e - ?d)) = unat ?d + unat (?e - ?d)" by (rule unat_add_small)
  then show ?thesis by simp
qed

lemma intel_dequeue_multiple_None:
  assumes "k < 32" "intel_inv k q" "unat (dequeue_count q) < 2 ^ 32"
  shows "intel_dequeue_multiple k q n = None \<longleftrightarrow> length (intel_list k q) < unat n"
proof -
  have "unat n < 2 ^ 32" by (rule order_less_le_trans [OF unsigned_less]) simp
  then have "unat (dequeue_count q + ucast n) = unat (dequeue_count q) + unat n"
    using assms(3) by (simp add: unat_add_small unat_ucast_small)
  then show ?thesis
    using intel_counters_ordered [OF assms]
    by (simp add: intel_dequeue_multiple_def word_less_nat_alt split: prod.splits)
qed

lemma intel_dequeue_multiple_eq:
  assumes "k < 32" "intel_inv k q" "unat (dequeue_count q) < 2 ^ 32"
    and "unat n \<le> length (intel_list k q)"
  shows "intel_dequeue_multiple k q n =
           Some (take (unat n) (intel_list k q),
                 q\<lparr>dequeue_count := ucast (ucast (dequeue_count q) + n :: u32),
                   qlength := qlength q - n\<rparr>)"
proof -
  let ?d = "dequeue_count q" and ?l = "length (intel_list k q)"
  have len: "length (node q) = 2 ^ k" using assms(2) by (simp add: intel_inv_def)
  have "take (unat n) (intel_list k q) = ring_slice (node q) (unat ?d) (unat n)"
    using assms(4) by (simp add: intel_list_def take_ring_slice)
  moreover have "unat (ucast ?d :: u32) = unat ?d"
    using assms(3) by (simp add: unat_ucast_small)
  moreover have "intel_dequeue_multiple k q n \<noteq> None"
    using intel_dequeue_multiple_None [OF assms(1-3)] assms(4) by simp
  ultimately show ?thesis
    by (auto simp: intel_dequeue_multiple_def intel_dequeue_loop_result [OF assms(1) len])
qed

lemma intel_dequeue_multiple_Some:
  assumes "k < 32" "intel_inv k q" "unat (dequeue_count q) + unat n < 2 ^ 32"
    and "intel_dequeue_multiple k q n = Some (xs, q')"
  shows "intel_inv k q' \<and> intel_list k q = xs @ intel_list k q' \<and> length xs = unat n
         \<and> unat (dequeue_count q') = unat (dequeue_count q) + unat n"
proof -
  let ?e = "enqueue_count q" and ?d = "dequeue_count q" and ?l = "length (intel_list k q)"
  have d32: "unat ?d < 2 ^ 32" using assms(3) by linarith
  have le: "unat n \<le> ?l"
    using intel_dequeue_multiple_None [OF assms(1,2) d32, of n] assms(4) by simp
  have "(ucast (ucast ?d + n :: u32) :: u64) = ?d + ucast n"
    using narrow_counter [of ?d "unat n"] assms(3) by simp
  then have xs: "xs = take (unat n) (intel_list k q)"
    and q': "q' = q\<lparr>dequeue_count := ?d + ucast n, qlength := qlength q - n\<rparr>"
    using intel_dequeue_multiple_eq [OF assms(1,2) d32 le] assms(4) by auto
  have d': "unat (?d + ucast n) = unat ?d + unat n"
    using assms(3) by (simp add: unat_add_small unat_ucast_small)
  have rest: "unat (?e - (?d + ucast n)) = ?l - unat n"
    using le unat_sub [of "ucast n" "?e - ?d"]
    by (simp add: word_le_nat_alt unat_ucast_up diff_diff_eq)
  have "intel_list k q' = drop (unat n) (intel_list k q)"
    using le by (simp add: intel_list_def q' d' rest drop_ring_slice)
  moreover have "intel_inv k q'"
  proof -
    have "ucast (?e - ?d) = (ucast (?e - (?d + ucast n)) + n :: u32)"
      using ucast_add_down [of "?e - (?d + ucast n)" "ucast n", where 'b = 32]
      by (simp add: ucast_up_down)
    then show ?thesis using assms(2) rest by (auto simp: intel_inv_def q')
  qed
  ultimately show ?thesis using le xs d' q' by simp
qed

section \<open>The 32-bit copy of the counter\<close>

text \<open>
  \<open>NAME_dequeue_multiple\<close> keeps \<open>dequeue_count\<close> in an \<^verbatim>\<open>unsigned int\<close> and
  stores it back. Once the 64-bit counter passes \<open>2 ^ 32\<close> the two counters are more than
  \<open>2 ^ 32\<close> apart, and every later enqueue is refused.
\<close>

lemma intel_dequeue_multiple_wraps:
  assumes "k < 32" "intel_inv k q" "unat (dequeue_count q) < 2 ^ 32"
    and "unat n \<le> length (intel_list k q)" "2 ^ 32 \<le> unat (dequeue_count q) + unat n"
  shows "\<exists>q'. intel_dequeue_multiple k q n = Some (take (unat n) (intel_list k q), q')
             \<and> (\<forall>x. intel_enqueue k q' x = None)"
proof -
  let ?e = "enqueue_count q" and ?d = "dequeue_count q"
  let ?d' = "ucast (ucast ?d + n :: u32) :: u64"
  have n32: "unat n < 2 ^ 32" by (rule order_less_le_trans [OF unsigned_less]) simp
  have d': "unat ?d' = unat ?d + unat n - 2 ^ 32"
    using assms(3,5) n32 by (simp add: unat_ucast_mod unat_word_ariths mod_if)
  have e: "unat ?e = unat ?d + length (intel_list k q)"
    using intel_counters_ordered [OF assms(1-3)] .
  have le: "unat ?d' \<le> unat ?e" using d' e assms(4) by simp
  then have "unat (?e - ?d') = unat ?e - unat ?d'"
    by (simp add: unat_sub word_le_nat_alt)
  also have "2 ^ 32 \<le> \<dots>" using d' e assms(4,5) by simp
  finally have "2 ^ k \<le> unat (?e - ?d')" using two_power_less_32 [OF assms(1)] by simp
  then show ?thesis
    using intel_dequeue_multiple_eq [OF assms(1-4)] assms(1)
    by (simp add: intel_enqueue_None)
qed

section \<open>The queue is a bounded FIFO\<close>

lemma LG2_CAPACITY_less [simp]: "LG2_CAPACITY < 32"
  by (simp add: LG2_CAPACITY_def)

lemma MANAGER_POOL_less [simp]: "MANAGER_POOL < 32"
  by (simp add: MANAGER_POOL_def)

lemma intel_bounded_fifo:
  assumes "k < 32"
  shows "bounded_fifo (intel_enqueue k) (intel_dequeue k) (intel_list k) (intel_inv k) (2 ^ k)"
proof unfold_locales
  fix q :: "'a intel_queue" and x q'
  assume q: "intel_inv k q"
  show "intel_enqueue k q x = None \<longleftrightarrow> 2 ^ k \<le> length (intel_list k q)"
    using assms by (rule intel_enqueue_None)
  show "intel_dequeue k q = None \<longleftrightarrow> intel_list k q = []"
    by (rule intel_dequeue_None)
  show "length (intel_list k q) \<le> 2 ^ k"
    using q by (simp add: intel_inv_def)
  show "intel_inv k q' \<and> intel_list k q' = intel_list k q @ [x]" if "intel_enqueue k q x = Some q'"
    using assms q that by (rule intel_enqueue_Some)
  show "intel_inv k q' \<and> intel_list k q = x # intel_list k q'" if "intel_dequeue k q = Some (x, q')"
    using assms q that by (rule intel_dequeue_Some)
qed

interpretation iq: bounded_fifo "intel_enqueue LG2_CAPACITY" "intel_dequeue LG2_CAPACITY"
    "intel_list LG2_CAPACITY" "intel_inv LG2_CAPACITY" "2 ^ LG2_CAPACITY"
  by (rule intel_bounded_fifo) simp

interpretation ip: bounded_fifo "intel_enqueue MANAGER_POOL" "intel_dequeue MANAGER_POOL"
    "intel_list MANAGER_POOL" "intel_inv MANAGER_POOL" "2 ^ MANAGER_POOL"
  by (rule intel_bounded_fifo) simp

section \<open>Properties\<close>

text \<open>C15. On every state that satisfies the invariant, whatever the 64-bit counters are (they may
  have wrapped), \<open>enqueue\<close> fails exactly when \<open>2 ^ k\<close> objects are queued and otherwise appends, and
  \<open>dequeue\<close> fails exactly when nothing is queued and otherwise removes the oldest object; both keep
  the invariant, so the ring implements a FIFO bounded by its capacity.\<close>

theorem intel_refines_fifo:
  assumes "k < 32" "intel_inv k q"
  shows "(case intel_enqueue k q x of
            None \<Rightarrow> length (intel_list k q) = 2 ^ k
          | Some q' \<Rightarrow> length (intel_list k q) < 2 ^ k \<and> intel_inv k q'
                       \<and> intel_list k q' = intel_list k q @ [x])
       \<and> (case intel_dequeue k q of
            None \<Rightarrow> intel_list k q = []
          | Some (y, q') \<Rightarrow> intel_inv k q' \<and> intel_list k q = y # intel_list k q')"
proof -
  have "length (intel_list k q) \<le> 2 ^ k" using assms(2) by (simp add: intel_inv_def)
  then show ?thesis
    using intel_enqueue_None [OF assms(1), of q x] intel_enqueue_Some [OF assms, of x]
      intel_dequeue_None [of k q] intel_dequeue_Some [OF assms]
    by (auto simp del: length_intel_list split: option.split)
qed

theorem intel_refines_fifo_witness:
  "(case intel_dequeue 3 \<lparr>enqueue_count = 2, dequeue_count = - 1,
       node = [11, 12, 0, 0, 0, 0, 0, 10 :: nat], item_size = 8, total = 8, qlength = 3\<rparr> of
      None \<Rightarrow> False | Some (y, q') \<Rightarrow> y = 10 \<and> intel_list 3 q' = [11, 12])"
  using intel_refines_fifo [of 3 "\<lparr>enqueue_count = 2, dequeue_count = - 1,
       node = [11, 12, 0, 0, 0, 0, 0, 10 :: nat], item_size = 8, total = 8, qlength = 3\<rparr>" 5]
  by (simp add: intel_inv_def intel_dequeue_def intel_list_def ring_slice_def upt_rec
      unsigned_minus_1_eq_mask mask_eq_exp_minus_1)

text \<open>C16. Below \<open>2 ^ 32\<close> objects in total the batch operations move whole batches: \<open>enqueue_multiple\<close>
  appends all of its objects when they fit, and the next \<open>dequeue_multiple\<close> of everything queued
  returns the earlier contents followed by that batch, in order, and leaves the queue empty.\<close>

theorem intel_batches_in_order:
  assumes "k < 32" "intel_inv k q"
    and "unat (enqueue_count q) + length data < 2 ^ 32"
    and "length (intel_list k q) + length data \<le> 2 ^ k"
    and "unat (dequeue_count q) \<le> unat (enqueue_count q)"
  shows "\<exists>q1 q2. intel_enqueue_multiple k q data = Some q1
         \<and> intel_dequeue_multiple k q1 (of_nat (length (intel_list k q) + length data))
             = Some (intel_list k q @ data, q2)
         \<and> intel_inv k q1 \<and> intel_inv k q2 \<and> intel_list k q2 = []"
proof -
  let ?n = "length (intel_list k q) + length data"
  obtain q1 where q1: "intel_enqueue_multiple k q data = Some q1"
    using intel_enqueue_multiple_None [OF assms(1-3)] assms(4) by (cases "intel_enqueue_multiple k q data") auto
  note E = intel_enqueue_multiple_Some [OF assms(1-3) q1]
  have d: "dequeue_count q1 = dequeue_count q"
    using q1 by (auto simp: intel_enqueue_multiple_def Let_def split: if_splits prod.splits)
  have n: "unat (of_nat ?n :: u32) = ?n"
    using assms(4) two_power_less_32 [OF assms(1)] by (intro unat_of_nat_small) simp
  have d32: "unat (dequeue_count q1) < 2 ^ 32" using assms(3,5) unfolding d by simp
  have "unat (enqueue_count q1) = unat (dequeue_count q1) + ?n"
    using intel_counters_ordered [OF assms(1) _ d32] E by simp
  then have dn: "unat (dequeue_count q1) + unat (of_nat ?n :: u32) < 2 ^ 32"
    unfolding n using E assms(3) by linarith
  obtain xs q2 where q2: "intel_dequeue_multiple k q1 (of_nat ?n) = Some (xs, q2)"
    using intel_dequeue_multiple_None [OF assms(1) _ d32, of "of_nat ?n"] E n
    by (cases "intel_dequeue_multiple k q1 (of_nat ?n)") auto
  have D: "intel_inv k q2 \<and> intel_list k q1 = xs @ intel_list k q2 \<and> length xs = ?n"
    using intel_dequeue_multiple_Some [OF assms(1) _ dn q2] E n by simp
  then have "length (intel_list k q2) = 0" using E by (metis add_diff_cancel_left' diff_self_eq_0 length_append)
  then have "intel_list k q2 = []" by (rule length_0_conv [THEN iffD1])
  then show ?thesis using q1 q2 D E by auto
qed

theorem intel_batches_in_order_witness:
  "\<exists>q1 q2. intel_enqueue_multiple 3 (intel_init 3 0 (replicate 8 0)) [5, 6, 7 :: nat] = Some q1
     \<and> intel_dequeue_multiple 3 q1 3 = Some ([5, 6, 7], q2) \<and> intel_list 3 q2 = []"
proof -
  let ?q = "intel_init 3 0 (replicate 8 0) :: nat intel_queue"
  have I: "intel_inv 3 ?q" "intel_list 3 ?q = []" using intel_init_inv [of 3 "replicate 8 0" 0] by auto
  have c: "enqueue_count ?q = 0" "dequeue_count ?q = 0" by (simp_all add: intel_init_def Let_def)
  show ?thesis using intel_batches_in_order [of 3 ?q "[5, 6, 7]"] I c by auto
qed

text \<open>\<open>dequeue_multiple\<close> keeps its position in a 32-bit copy of the 64-bit counter. When a batch
  passes object number \<open>2 ^ 32\<close> the batch itself is still right, but the counter that is written
  back is too small by \<open>2 ^ 32\<close>: the queue looks full for ever and refuses every \<open>enqueue\<close>.\<close>

theorem intel_dequeue_multiple_wedges:
  assumes "k < 32" "intel_inv k q" "unat (dequeue_count q) < 2 ^ 32"
    and "unat n \<le> length (intel_list k q)" "2 ^ 32 \<le> unat (dequeue_count q) + unat n"
  shows "\<exists>q'. intel_dequeue_multiple k q n = Some (take (unat n) (intel_list k q), q')
             \<and> (\<forall>x. intel_enqueue k q' x = None)"
  using assms by (rule intel_dequeue_multiple_wraps)

theorem intel_dequeue_multiple_wedges_witness:
  "\<exists>q'. intel_dequeue_multiple 3 \<lparr>enqueue_count = 0x100000001, dequeue_count = 0xFFFFFFFF,
       node = [11, 0, 0, 0, 0, 0, 0, 10 :: nat], item_size = 8, total = 8, qlength = 2\<rparr> 2
     = Some ([10, 11], q') \<and> intel_enqueue 3 q' 12 = None"
  using intel_dequeue_multiple_wedges [of 3 "\<lparr>enqueue_count = 0x100000001,
       dequeue_count = 0xFFFFFFFF, node = [11, 0, 0, 0, 0, 0, 0, 10 :: nat], item_size = 8,
       total = 8, qlength = 2\<rparr>" 2]
  by (auto simp: intel_inv_def intel_list_def ring_slice_def upt_rec)

end
