(* ===== verification/Ring_Concurrent.thy ===== *)
theory Ring_Concurrent
  imports Ring_Queue "HOL-Library.Sublist"
begin

unbundle bit_operations_syntax

text \<open>
  One sender and one receiver inside the same \<^verbatim>\<open>INTEL_QUEUE\<close> at the same time.
  \<open>NAME_enqueue\<close> runs under \<open>enqueue_mutex\<close> and \<open>NAME_dequeue\<close> under
  \<open>dequeue_mutex\<close>, so at most one thread is in each; nothing keeps the two apart. A step
  is one access to the shared queue: memory is sequentially consistent, and the
  increments of \<open>enqueue_count\<close> and \<open>dequeue_count\<close> are one step each because only the
  holder of the mutex writes them. \<open>length\<close> is written by both sides, so its update is
  a load and a store. The other senders and receivers wait for a mutex and take no step.
\<close>

section \<open>Steps\<close>

datatype 'a enq_pc =
    E_Idle            \<comment> \<open>\<open>enqueue_mutex\<close> is free\<close>
  | E_Locked 'a       \<comment> \<open>the mutex is held, the capacity test comes next\<close>
  | E_Checked 'a      \<comment> \<open>there is room\<close>
  | E_Stored 'a       \<comment> \<open>\<open>node[i]\<close> is written\<close>
  | E_Counted         \<comment> \<open>\<open>enqueue_count\<close> is incremented\<close>
  | E_LenRead u32     \<comment> \<open>\<open>length\<close> is loaded\<close>

datatype 'a deq_pc =
    D_Idle
  | D_Locked
  | D_Checked
  | D_Loaded 'a
  | D_Counted
  | D_LenRead u32

record 'a conc =
  cq :: "'a intel_queue"
  epc :: "'a enq_pc"
  dpc :: "'a deq_pc"
  sent :: "'a list"        \<comment> \<open>every object whose enqueue has been counted, in order\<close>
  received :: "'a list"    \<comment> \<open>every object whose dequeue has been counted, in order\<close>

definition conc_init :: "nat \<Rightarrow> 'a \<Rightarrow> 'a list \<Rightarrow> 'a conc" where
  "conc_init k null junk =
     \<lparr>cq = intel_init k null junk, epc = E_Idle, dpc = D_Idle, sent = [], received = []\<rparr>"

definition e_slot :: "nat \<Rightarrow> 'a intel_queue \<Rightarrow> nat" where
  "e_slot k q = unat (ucast (enqueue_count q AND (push_bit k 1 - 1)) :: u32)"

definition d_slot :: "nat \<Rightarrow> 'a intel_queue \<Rightarrow> nat" where
  "d_slot k q = unat (ucast (dequeue_count q AND (push_bit k 1 - 1)) :: u32)"

inductive enq_step :: "nat \<Rightarrow> 'a conc \<Rightarrow> 'a conc \<Rightarrow> bool" for k where
  e_lock: "epc s = E_Idle \<Longrightarrow> enq_step k s (s\<lparr>epc := E_Locked x\<rparr>)"
| e_full: "epc s = E_Locked x \<Longrightarrow>
    enqueue_count (cq s) - dequeue_count (cq s) \<ge> push_bit k 1 \<Longrightarrow>
    enq_step k s (s\<lparr>epc := E_Idle\<rparr>)"
| e_check: "epc s = E_Locked x \<Longrightarrow>
    \<not> enqueue_count (cq s) - dequeue_count (cq s) \<ge> push_bit k 1 \<Longrightarrow>
    enq_step k s (s\<lparr>epc := E_Checked x\<rparr>)"
| e_store: "epc s = E_Checked x \<Longrightarrow>
    enq_step k s (s\<lparr>cq := (cq s)\<lparr>node := (node (cq s))[e_slot k (cq s) := x]\<rparr>,
                    epc := E_Stored x\<rparr>)"
| e_count: "epc s = E_Stored x \<Longrightarrow>
    enq_step k s (s\<lparr>cq := (cq s)\<lparr>enqueue_count := enqueue_count (cq s) + 1\<rparr>,
                    epc := E_Counted, sent := sent s @ [x]\<rparr>)"
| e_len_load: "epc s = E_Counted \<Longrightarrow>
    enq_step k s (s\<lparr>epc := E_LenRead (qlength (cq s))\<rparr>)"
| e_len_store: "epc s = E_LenRead l \<Longrightarrow>
    enq_step k s (s\<lparr>cq := (cq s)\<lparr>qlength := l + 1\<rparr>, epc := E_Idle\<rparr>)"

inductive deq_step :: "nat \<Rightarrow> 'a conc \<Rightarrow> 'a conc \<Rightarrow> bool" for k where
  d_lock: "dpc s = D_Idle \<Longrightarrow> deq_step k s (s\<lparr>dpc := D_Locked\<rparr>)"
| d_empty: "dpc s = D_Locked \<Longrightarrow> enqueue_count (cq s) = dequeue_count (cq s) \<Longrightarrow>
    deq_step k s (s\<lparr>dpc := D_Idle\<rparr>)"
| d_check: "dpc s = D_Locked \<Longrightarrow> enqueue_count (cq s) \<noteq> dequeue_count (cq s) \<Longrightarrow>
    deq_step k s (s\<lparr>dpc := D_Checked\<rparr>)"
| d_load: "dpc s = D_Checked \<Longrightarrow>
    deq_step k s (s\<lparr>dpc := D_Loaded (node (cq s) ! d_slot k (cq s))\<rparr>)"
| d_count: "dpc s = D_Loaded x \<Longrightarrow>
    deq_step k s (s\<lparr>cq := (cq s)\<lparr>dequeue_count := dequeue_count (cq s) + 1\<rparr>,
                    dpc := D_Counted, received := received s @ [x]\<rparr>)"
| d_len_load: "dpc s = D_Counted \<Longrightarrow>
    deq_step k s (s\<lparr>dpc := D_LenRead (qlength (cq s))\<rparr>)"
| d_len_store: "dpc s = D_LenRead l \<Longrightarrow>
    deq_step k s (s\<lparr>cq := (cq s)\<lparr>qlength := l - 1\<rparr>, dpc := D_Idle\<rparr>)"

definition conc_step :: "nat \<Rightarrow> 'a conc \<Rightarrow> 'a conc \<Rightarrow> bool" where
  "conc_step k s t \<longleftrightarrow> enq_step k s t \<or> deq_step k s t"

inductive conc_reach :: "nat \<Rightarrow> 'a conc \<Rightarrow> 'a conc \<Rightarrow> bool" for k s0 where
  start: "conc_reach k s0 s0"
| step: "conc_reach k s0 s \<Longrightarrow> conc_step k s t \<Longrightarrow> conc_reach k s0 t"

section \<open>Invariant\<close>

text \<open>
  What has been sent is what has been received followed by what the ring holds; a sender
  past its test still has room, and the object a receiver has loaded is the oldest one.
\<close>

definition in_flight :: "'a conc \<Rightarrow> nat" where
  "in_flight s = unat (enqueue_count (cq s) - dequeue_count (cq s))"

definition enq_pc_ok :: "nat \<Rightarrow> 'a conc \<Rightarrow> bool" where
  "enq_pc_ok k s =
     (case epc s of
        E_Checked x \<Rightarrow> in_flight s < 2 ^ k
      | E_Stored x \<Rightarrow> in_flight s < 2 ^ k \<and> node (cq s) ! e_slot k (cq s) = x
      | _ \<Rightarrow> True)"

definition deq_pc_ok :: "nat \<Rightarrow> 'a conc \<Rightarrow> bool" where
  "deq_pc_ok k s =
     (case dpc s of
        D_Checked \<Rightarrow> 0 < in_flight s
      | D_Loaded x \<Rightarrow> 0 < in_flight s \<and> x = node (cq s) ! d_slot k (cq s)
      | _ \<Rightarrow> True)"

definition conc_inv :: "nat \<Rightarrow> 'a conc \<Rightarrow> bool" where
  "conc_inv k s \<longleftrightarrow>
     length (node (cq s)) = 2 ^ k \<and> in_flight s \<le> 2 ^ k \<and>
     sent s = received s @ intel_list k (cq s) \<and> enq_pc_ok k s \<and> deq_pc_ok k s"

lemma e_slot_eq:
  "k < 32 \<Longrightarrow> e_slot k (cq s) = (unat (dequeue_count (cq s)) + in_flight s) mod 2 ^ k"
  by (simp add: e_slot_def in_flight_def intel_slot flip: counter_split)

lemma d_slot_eq: "k < 32 \<Longrightarrow> d_slot k q = unat (dequeue_count q) mod 2 ^ k"
  by (simp add: d_slot_def intel_slot)

lemma not_full_in_flight:
  "k < 32 \<Longrightarrow> (push_bit k 1 \<le> enqueue_count (cq s) - dequeue_count (cq s)) = (2 ^ k \<le> in_flight s)"
  by (simp add: in_flight_def word_le_nat_alt unat_two_power)

lemma conc_init_inv:
  assumes "k < 32" "3 \<le> k" "length junk = 2 ^ k"
  shows "conc_inv k (conc_init k null junk)"
proof -
  have "intel_inv k (intel_init k null junk)" "intel_list k (intel_init k null junk) = []"
    using intel_init_inv [OF assms] by auto
  then show ?thesis
    by (simp add: conc_inv_def conc_init_def in_flight_def intel_inv_def enq_pc_ok_def
        deq_pc_ok_def)
qed

lemma intel_list_frame [simp]:
  "intel_list k (q\<lparr>qlength := l\<rparr>) = intel_list k q"
  by (simp add: intel_list_def)

text \<open>The sender's store hits a slot that neither the ring's contents nor the receiver uses.\<close>

lemma store_frame:
  fixes s :: "'a conc" and x :: 'a
  assumes "k < 32" "length (node (cq s)) = 2 ^ k" "in_flight s < 2 ^ k"
  defines "q' \<equiv> (cq s)\<lparr>node := (node (cq s))[e_slot k (cq s) := x]\<rparr>"
  shows "intel_list k q' = intel_list k (cq s)"
    and "0 < in_flight s \<Longrightarrow> node q' ! d_slot k q' = node (cq s) ! d_slot k (cq s)"
    and "node q' ! e_slot k q' = x"
proof -
  let ?d = "unat (dequeue_count (cq s))"
  have slot: "e_slot k (cq s) = (?d + in_flight s) mod length (node (cq s))"
    using assms(1,2) by (simp add: e_slot_eq)
  show "intel_list k q' = intel_list k (cq s)"
    using ring_slice_put_beyond [of "in_flight s" "node (cq s)" ?d x] assms(2,3)
    by (simp add: intel_list_def q'_def slot in_flight_def)
  show "node q' ! d_slot k q' = node (cq s) ! d_slot k (cq s)" if "0 < in_flight s"
    using ring_slots_distinct [OF that, of "2 ^ k" ?d] assms(1-3)
    by (simp add: q'_def d_slot_eq slot)
  have "e_slot k q' = e_slot k (cq s)" by (simp add: e_slot_def q'_def)
  then show "node q' ! e_slot k q' = x"
    using assms(1,2) by (simp add: q'_def slot)
qed

lemma conc_count_enq:
  assumes "k < 32" "in_flight s < 2 ^ k"
  shows "unat (enqueue_count (cq s) + 1 - dequeue_count (cq s)) = Suc (in_flight s)"
  using intel_count_Suc [OF assms(1)] assms(2) by (simp add: in_flight_def)

lemma conc_count_deq:
  fixes s :: "'a conc"
  assumes "0 < in_flight s"
  shows "in_flight s = Suc (unat (enqueue_count (cq s) - (dequeue_count (cq s) + 1)))"
proof -
  have "enqueue_count (cq s) - dequeue_count (cq s) \<noteq> 0"
    using assms by (auto simp: in_flight_def)
  then show ?thesis
    using unat_minus_one [of "enqueue_count (cq s) - dequeue_count (cq s)"] assms
    by (simp add: in_flight_def diff_diff_eq)
qed

lemma enq_step_inv:
  assumes "k < 32" "enq_step k s t" "conc_inv k s"
  shows "conc_inv k t"
  using assms(2)
proof cases
  case (e_store x)
  have room: "in_flight s < 2 ^ k" and len: "length (node (cq s)) = 2 ^ k"
    using assms(3) e_store by (simp_all add: conc_inv_def enq_pc_ok_def)
  note store = store_frame [OF assms(1) len room, of x]
  show ?thesis
    using assms(3) e_store room store
    by (auto simp: conc_inv_def enq_pc_ok_def deq_pc_ok_def in_flight_def split: deq_pc.splits)
next
  case (e_count x)
  let ?q = "cq s" and ?q' = "(cq s)\<lparr>enqueue_count := enqueue_count (cq s) + 1\<rparr>"
  have room: "in_flight s < 2 ^ k" and len: "length (node ?q) = 2 ^ k"
    and x: "node ?q ! ((unat (dequeue_count ?q) + in_flight s) mod 2 ^ k) = x"
    using assms(1,3) e_count by (simp_all add: conc_inv_def enq_pc_ok_def e_slot_eq)
  have "intel_list k ?q' = intel_list k ?q @ [x]"
    using conc_count_enq [OF assms(1) room] ring_slice_snoc [of "node ?q"] x len
    by (simp add: intel_list_def in_flight_def)
  moreover have "in_flight t = Suc (in_flight s)"
    using conc_count_enq [OF assms(1) room] e_count by (simp add: in_flight_def)
  moreover have "d_slot k ?q' = d_slot k ?q" by (simp add: d_slot_def)
  ultimately show ?thesis
    using assms(3) e_count room
    by (auto simp: conc_inv_def enq_pc_ok_def deq_pc_ok_def split: deq_pc.splits)
qed (use assms(1,3) in \<open>auto simp: conc_inv_def enq_pc_ok_def deq_pc_ok_def in_flight_def d_slot_def
      word_le_nat_alt unat_two_power split: deq_pc.splits\<close>)

lemma deq_step_inv:
  assumes "k < 32" "deq_step k s t" "conc_inv k s"
  shows "conc_inv k t"
  using assms(2)
proof cases
  case (d_count x)
  let ?q = "cq s" and ?q' = "(cq s)\<lparr>dequeue_count := dequeue_count (cq s) + 1\<rparr>"
  have some: "0 < in_flight s" and len: "length (node ?q) = 2 ^ k"
    and x: "x = node ?q ! (unat (dequeue_count ?q) mod 2 ^ k)"
    using assms(1,3) d_count by (simp_all add: conc_inv_def deq_pc_ok_def d_slot_eq)
  have "unat (dequeue_count ?q + 1) mod length (node ?q) = Suc (unat (dequeue_count ?q)) mod length (node ?q)"
    using unat_mod_power_add [of k "dequeue_count ?q" 1] assms(1) len by simp
  from ring_slice_cong_mod [OF this] have "intel_list k ?q = x # intel_list k ?q'"
    using conc_count_deq [OF some] x len by (simp add: intel_list_def in_flight_def ring_slice_Suc)
  moreover have "in_flight s = Suc (in_flight t)"
    using conc_count_deq [OF some] d_count by (simp add: in_flight_def)
  moreover have "e_slot k ?q' = e_slot k ?q" by (simp add: e_slot_def)
  ultimately show ?thesis
    using assms(3) d_count
    by (auto simp: conc_inv_def enq_pc_ok_def deq_pc_ok_def split: enq_pc.splits)
qed (use assms(1,3) in \<open>auto simp: conc_inv_def enq_pc_ok_def deq_pc_ok_def in_flight_def e_slot_def
      d_slot_def unat_gt_0 split: enq_pc.splits\<close>)

lemma conc_reach_inv:
  assumes "k < 32" "conc_reach k s0 s" "conc_inv k s0"
  shows "conc_inv k s"
  using assms(2,3)
  by (induction rule: conc_reach.induct)
    (auto simp: conc_step_def intro: enq_step_inv [OF assms(1)] deq_step_inv [OF assms(1)])

section \<open>Schedules\<close>

text \<open>A run as a list of turns: the sender (with the object it offers next) or the receiver.\<close>

datatype 'a turn = Snd 'a | Rcv

fun turn_step :: "nat \<Rightarrow> 'a turn \<Rightarrow> 'a conc \<Rightarrow> 'a conc" where
  "turn_step k (Snd x) s =
     (case epc s of
        E_Idle \<Rightarrow> s\<lparr>epc := E_Locked x\<rparr>
      | E_Locked y \<Rightarrow>
          (if enqueue_count (cq s) - dequeue_count (cq s) \<ge> push_bit k 1
           then s\<lparr>epc := E_Idle\<rparr> else s\<lparr>epc := E_Checked y\<rparr>)
      | E_Checked y \<Rightarrow> s\<lparr>cq := (cq s)\<lparr>node := (node (cq s))[e_slot k (cq s) := y]\<rparr>,
                         epc := E_Stored y\<rparr>
      | E_Stored y \<Rightarrow> s\<lparr>cq := (cq s)\<lparr>enqueue_count := enqueue_count (cq s) + 1\<rparr>,
                        epc := E_Counted, sent := sent s @ [y]\<rparr>
      | E_Counted \<Rightarrow> s\<lparr>epc := E_LenRead (qlength (cq s))\<rparr>
      | E_LenRead l \<Rightarrow> s\<lparr>cq := (cq s)\<lparr>qlength := l + 1\<rparr>, epc := E_Idle\<rparr>)"
| "turn_step k Rcv s =
     (case dpc s of
        D_Idle \<Rightarrow> s\<lparr>dpc := D_Locked\<rparr>
      | D_Locked \<Rightarrow>
          (if enqueue_count (cq s) = dequeue_count (cq s)
           then s\<lparr>dpc := D_Idle\<rparr> else s\<lparr>dpc := D_Checked\<rparr>)
      | D_Checked \<Rightarrow> s\<lparr>dpc := D_Loaded (node (cq s) ! d_slot k (cq s))\<rparr>
      | D_Loaded y \<Rightarrow> s\<lparr>cq := (cq s)\<lparr>dequeue_count := dequeue_count (cq s) + 1\<rparr>,
                        dpc := D_Counted, received := received s @ [y]\<rparr>
      | D_Counted \<Rightarrow> s\<lparr>dpc := D_LenRead (qlength (cq s))\<rparr>
      | D_LenRead l \<Rightarrow> s\<lparr>cq := (cq s)\<lparr>qlength := l - 1\<rparr>, dpc := D_Idle\<rparr>)"

lemma turn_step_is_step: "conc_step k s (turn_step k t s)"
  unfolding conc_step_def
proof (cases t)
  case (Snd x)
  then have "enq_step k s (turn_step k t s)"
    by (auto intro: enq_step.intros split: enq_pc.splits)
  then show "enq_step k s (turn_step k t s) \<or> deq_step k s (turn_step k t s)" ..
next
  case Rcv
  then have "deq_step k s (turn_step k t s)"
    by (auto intro: deq_step.intros split: deq_pc.splits)
  then show "enq_step k s (turn_step k t s) \<or> deq_step k s (turn_step k t s)" ..
qed

definition run_turns :: "nat \<Rightarrow> 'a turn list \<Rightarrow> 'a conc \<Rightarrow> 'a conc" where
  "run_turns k ts s = fold (turn_step k) ts s"

lemma run_turns_reach: "conc_reach k s0 s \<Longrightarrow> conc_reach k s0 (run_turns k ts s)"
  unfolding run_turns_def
  by (induction ts arbitrary: s) (auto intro: conc_reach.step [OF _ turn_step_is_step])

lemma run_turns_simps [simp]:
  "run_turns k [] s = s"
  "run_turns k (t # ts) s = run_turns k ts (turn_step k t s)"
  by (simp_all add: run_turns_def)

lemma replicate_turns: "replicate 6 t = [t, t, t, t, t, t]" "replicate 5 t = [t, t, t, t, t]"
  by (simp_all add: numeral_eq_Suc)

text \<open>The sender alone for six turns is a whole call of \<open>NAME_enqueue\<close>.\<close>

lemma enqueue_run_alone:
  assumes "epc s = E_Idle" "intel_enqueue k (cq s) x = Some q'"
  shows "run_turns k (replicate 6 (Snd x)) s = s\<lparr>cq := q', sent := sent s @ [x]\<rparr>"
proof -
  have room: "\<not> push_bit k 1 \<le> enqueue_count (cq s) - dequeue_count (cq s)"
    and q': "q' = (cq s)\<lparr>node := (node (cq s))[e_slot k (cq s) := x],
                  enqueue_count := enqueue_count (cq s) + 1, qlength := qlength (cq s) + 1\<rparr>"
    using assms(2) by (auto simp: intel_enqueue_def e_slot_def Let_def split: if_splits)
  show ?thesis
    unfolding replicate_turns q' using room assms(1) by (simp del: push_bit_of_1)
qed

lemma dequeue_run_alone:
  assumes "dpc s = D_Idle" "intel_dequeue k (cq s) = Some (x, q')"
  shows "run_turns k (replicate 6 Rcv) s = s\<lparr>cq := q', received := received s @ [x]\<rparr>"
proof -
  have some: "enqueue_count (cq s) \<noteq> dequeue_count (cq s)"
    and x: "node (cq s) ! d_slot k (cq s) = x"
    and q': "q' = (cq s)\<lparr>dequeue_count := dequeue_count (cq s) + 1, qlength := qlength (cq s) - 1\<rparr>"
    using assms(2) by (auto simp: intel_dequeue_def d_slot_def Let_def split: if_splits)
  show ?thesis
    unfolding replicate_turns q' using some x assms(1) by simp
qed

text \<open>After five turns only the store to \<open>length\<close> is left.\<close>

lemma enqueue_run_but_length:
  assumes "epc s = E_Idle" "intel_enqueue k (cq s) x = Some q'"
  shows "run_turns k (replicate 5 (Snd x)) s =
           s\<lparr>cq := q'\<lparr>qlength := qlength (cq s)\<rparr>, epc := E_LenRead (qlength (cq s)),
             sent := sent s @ [x]\<rparr>"
proof -
  have room: "\<not> push_bit k 1 \<le> enqueue_count (cq s) - dequeue_count (cq s)"
    and q': "q' = (cq s)\<lparr>node := (node (cq s))[e_slot k (cq s) := x],
                  enqueue_count := enqueue_count (cq s) + 1, qlength := qlength (cq s) + 1\<rparr>"
    using assms(2) by (auto simp: intel_enqueue_def e_slot_def Let_def split: if_splits)
  show ?thesis
    unfolding replicate_turns q' using room assms(1) by (simp del: push_bit_of_1)
qed

lemma run_turns_append: "run_turns k (ts @ us) s = run_turns k us (run_turns k ts s)"
  by (simp add: run_turns_def)

lemma intel_enqueue_fields:
  "intel_enqueue k q x = Some q' \<Longrightarrow>
     enqueue_count q' = enqueue_count q + 1 \<and> dequeue_count q' = dequeue_count q
     \<and> qlength q' = qlength q + 1"
  by (auto simp: intel_enqueue_def Let_def split: if_splits)

lemma intel_dequeue_fields:
  "intel_dequeue k q = Some (x, q') \<Longrightarrow>
     enqueue_count q' = enqueue_count q \<and> dequeue_count q' = dequeue_count q + 1
     \<and> qlength q' = qlength q - 1"
  by (auto simp: intel_dequeue_def Let_def split: if_splits)

text \<open>
  The schedule of a lost update of \<open>length\<close>: one object is sent; the sender of the next
  loads \<open>length\<close> before the receiver of the first stores it back.
\<close>

definition race_turns :: "'a \<Rightarrow> 'a \<Rightarrow> 'a turn list" where
  "race_turns x y = replicate 6 (Snd x) @ replicate 5 (Snd y) @ replicate 6 Rcv @ [Snd y]"

lemma race_result:
  fixes s0 :: "'a conc" and x y :: 'a
  assumes "k < 32" "3 \<le> k" "epc s0 = E_Idle" "dpc s0 = D_Idle" "sent s0 = []"
    and "enqueue_count (cq s0) = 0" "dequeue_count (cq s0) = 0" "qlength (cq s0) = 0"
  defines "s \<equiv> run_turns k (race_turns x y) s0"
  shows "epc s = E_Idle \<and> dpc s = D_Idle \<and> qlength (cq s) = 2
         \<and> enqueue_count (cq s) = 2 \<and> dequeue_count (cq s) = 1 \<and> sent s = [x, y]"
proof -
  have "(2::nat) ^ 3 \<le> 2 ^ k" using assms(2) by (rule power_increasing) simp
  then have big: "unat (2 ^ k :: u64) = 2 ^ k" "(8::nat) \<le> 2 ^ k"
    using assms(1) by (simp_all add: unat_two_power)
  have "intel_enqueue k (cq s0) x \<noteq> None"
    using assms(1,6,7) big by (simp add: intel_enqueue_None)
  then obtain q1 where q1: "intel_enqueue k (cq s0) x = Some q1" by blast
  note f1 = intel_enqueue_fields [OF q1]
  have "intel_enqueue k q1 y \<noteq> None"
    using assms(1,6,7) big f1 by (simp add: intel_enqueue_None)
  then obtain q2 where q2: "intel_enqueue k q1 y = Some q2" by blast
  note f2 = intel_enqueue_fields [OF q2]
  let ?q3 = "q2\<lparr>qlength := qlength q1\<rparr>"
  have "intel_dequeue k ?q3 \<noteq> None"
    using f1 f2 assms(6,7) by (simp add: intel_dequeue_def Let_def)
  then obtain z q4 where q4: "intel_dequeue k ?q3 = Some (z, q4)" by auto
  note f4 = intel_dequeue_fields [OF q4]
  let ?s1 = "s0\<lparr>cq := q1, sent := sent s0 @ [x]\<rparr>"
  let ?s3 = "?s1\<lparr>cq := ?q3, epc := E_LenRead (qlength q1), sent := sent ?s1 @ [y]\<rparr>"
  let ?s4 = "?s3\<lparr>cq := q4, received := received ?s3 @ [z]\<rparr>"
  have "s = run_turns k [Snd y] ?s4"
    using enqueue_run_alone [OF assms(3) q1] enqueue_run_but_length [of ?s1 k y q2]
      dequeue_run_alone [of ?s3 k z q4] assms(3,4) q2 q4
    by (simp add: s_def race_turns_def run_turns_append)
  then show ?thesis using assms(4-8) f1 f2 f4 by simp
qed

section \<open>Properties\<close>

text \<open>C4. A sender and a receiver that hold different mutexes run concurrently, and every statement
  of \<open>enqueue\<close> and \<open>dequeue\<close> may be interleaved with the other's. In every state they can reach
  from a fresh queue, what has been received followed by what is queued is exactly what has been
  sent, in order, and no more than the capacity is queued: nothing is lost, duplicated, reordered or
  overwritten.\<close>

theorem concurrent_fifo:
  assumes "k < 32" "3 \<le> k" "length junk = 2 ^ k"
    and "conc_reach k (conc_init k null junk) s"
  shows "sent s = received s @ intel_list k (cq s) \<and> length (intel_list k (cq s)) \<le> 2 ^ k"
  using conc_reach_inv [OF assms(1,4) conc_init_inv [OF assms(1-3)]]
  by (simp add: conc_inv_def in_flight_def)

theorem concurrent_fifo_witness:
  "length (intel_list 3 (cq (run_turns 3 (race_turns 7 (9::nat)) (conc_init 3 0 (replicate 8 0))))) \<le> 8"
  using concurrent_fifo [of 3 "replicate 8 0" 0, OF _ _ _ run_turns_reach [OF conc_reach.start],
      of "race_turns 7 (9::nat)"]
  by simp

text \<open>The \<open>length\<close> field is not protected: both sides update it under different mutexes. From
  a fresh queue there is an interleaving after which both sides are idle and \<open>length\<close> is 2 although
  one object is queued.\<close>

theorem length_field_lost_update:
  assumes "k < 32" "3 \<le> k" "length junk = 2 ^ k"
  shows "\<exists>s. conc_reach k (conc_init k null junk) s \<and> epc s = E_Idle \<and> dpc s = D_Idle
             \<and> length (intel_list k (cq s)) = 1 \<and> qlength (cq s) = 2"
proof -
  let ?start = "conc_init k null junk"
  let ?s = "run_turns k (race_turns null null) ?start"
  have "conc_reach k ?start ?s" by (rule run_turns_reach [OF conc_reach.start])
  moreover have "epc ?s = E_Idle \<and> dpc ?s = D_Idle \<and> qlength (cq ?s) = 2
      \<and> enqueue_count (cq ?s) = 2 \<and> dequeue_count (cq ?s) = 1 \<and> sent ?s = [null, null]"
    using assms by (intro race_result) (simp_all add: conc_init_def intel_init_def Let_def)
  ultimately show ?thesis by (intro exI [of _ ?s]) simp
qed

theorem length_field_lost_update_witness:
  "\<exists>s. conc_reach LG2_CAPACITY (conc_init LG2_CAPACITY (0::nat) (replicate 1024 0)) s
     \<and> length (intel_list LG2_CAPACITY (cq s)) = 1 \<and> qlength (cq s) = 2"
  using length_field_lost_update [of LG2_CAPACITY "replicate 1024 0" 0]
  by (auto simp: LG2_CAPACITY_def)

end
