(* ===== verification/Tile_Queue.thy ===== *)
theory Tile_Queue
  imports Ring_Queue
begin

unbundle bit_operations_syntax

text \<open>
  The queue that \<^verbatim>\<open>TMC_QUEUE\<close> of \<^verbatim>\<open>src/queue_tilegx.h\<close> generates for the
  TILE-Gx build. It keeps the same ring and counters as the Intel queue, without the
  derived \<open>length\<close> field; its lemmas are read off the Intel ones through \<open>erase\<close>, which
  forgets that field. The two builds differ in \<open>dequeue_multiple\<close> only.
\<close>

section \<open>State and operations\<close>

record 'a tile_queue =
  t_enqueue_count :: u64
  t_dequeue_count :: u64
  array :: "'a list"

definition tile_init :: "'a list \<Rightarrow> 'a tile_queue" where
  "tile_init junk = \<lparr>t_enqueue_count = 0, t_dequeue_count = 0, array = junk\<rparr>"

definition tile_enqueue :: "nat \<Rightarrow> 'a tile_queue \<Rightarrow> 'a \<Rightarrow> 'a tile_queue option" where
  "tile_enqueue k queue x =
     (if t_enqueue_count queue - t_dequeue_count queue \<ge> push_bit k 1 then None
      else let i = ucast (t_enqueue_count queue AND (push_bit k 1 - 1)) :: u32
           in Some (queue\<lparr>array := (array queue)[unat i := x],
                          t_enqueue_count := t_enqueue_count queue + 1\<rparr>))"

fun tile_enqueue_loop :: "nat \<Rightarrow> 'a list \<Rightarrow> u32 \<Rightarrow> 'a list \<Rightarrow> 'a list \<times> u32" where
  "tile_enqueue_loop k [] cnt arr = (arr, cnt)"
| "tile_enqueue_loop k (x # objects) cnt arr =
     (let i = cnt AND (push_bit k 1 - 1)
      in tile_enqueue_loop k objects (cnt + 1) (arr[unat i := x]))"

definition tile_enqueue_multiple ::
    "nat \<Rightarrow> 'a tile_queue \<Rightarrow> 'a list \<Rightarrow> 'a tile_queue option" where
  "tile_enqueue_multiple k queue objects =
     (let enqueue_num = of_nat (length objects) :: u32
      in if t_enqueue_count queue + ucast enqueue_num - t_dequeue_count queue > push_bit k 1
         then None
         else let (arr, cnt) = tile_enqueue_loop k objects (ucast (t_enqueue_count queue))
                                 (array queue)
              in Some (queue\<lparr>array := arr, t_enqueue_count := ucast cnt\<rparr>))"

definition tile_dequeue :: "nat \<Rightarrow> 'a tile_queue \<Rightarrow> ('a \<times> 'a tile_queue) option" where
  "tile_dequeue k queue =
     (if t_enqueue_count queue = t_dequeue_count queue then None
      else let i = ucast (t_dequeue_count queue AND (push_bit k 1 - 1)) :: u32
           in Some (array queue ! unat i,
                    queue\<lparr>t_dequeue_count := t_dequeue_count queue + 1\<rparr>))"

fun tile_dequeue_loop :: "nat \<Rightarrow> nat \<Rightarrow> u32 \<Rightarrow> 'a list \<Rightarrow> 'a list \<times> u32" where
  "tile_dequeue_loop k 0 cnt arr = ([], cnt)"
| "tile_dequeue_loop k (Suc n) cnt arr =
     (let i = cnt AND (push_bit k 1 - 1);
          (xs, cnt') = tile_dequeue_loop k n (cnt + 1) arr
      in (arr ! unat i # xs, cnt'))"

definition tile_dequeue_multiple ::
    "nat \<Rightarrow> 'a tile_queue \<Rightarrow> u32 \<Rightarrow> ('a list \<times> 'a tile_queue) option" where
  "tile_dequeue_multiple k queue dequeue_num =
     (if t_enqueue_count queue \<le> t_dequeue_count queue + ucast dequeue_num then None
      else let (xs, cnt) = tile_dequeue_loop k (unat dequeue_num)
                             (ucast (t_dequeue_count queue)) (array queue)
           in Some (xs, queue\<lparr>t_dequeue_count := ucast cnt\<rparr>))"

section \<open>Invariant and contents\<close>

definition tile_inv :: "nat \<Rightarrow> 'a tile_queue \<Rightarrow> bool" where
  "tile_inv k q \<longleftrightarrow>
     length (array q) = 2 ^ k \<and> unat (t_enqueue_count q - t_dequeue_count q) \<le> 2 ^ k"

definition tile_list :: "nat \<Rightarrow> 'a tile_queue \<Rightarrow> 'a list" where
  "tile_list k q =
     ring_slice (array q) (unat (t_dequeue_count q))
       (unat (t_enqueue_count q - t_dequeue_count q))"

section \<open>Forgetting the length field\<close>

definition erase :: "'a intel_queue \<Rightarrow> 'a tile_queue" where
  "erase q = \<lparr>t_enqueue_count = enqueue_count q, t_dequeue_count = dequeue_count q,
              array = node q\<rparr>"

definition restore :: "nat \<Rightarrow> 'a tile_queue \<Rightarrow> 'a intel_queue" where
  "restore k q = \<lparr>enqueue_count = t_enqueue_count q, dequeue_count = t_dequeue_count q,
                  node = array q, item_size = 8, total = push_bit k 1,
                  qlength = ucast (t_enqueue_count q - t_dequeue_count q)\<rparr>"

lemma erase_restore [simp]: "erase (restore k q) = q"
  by (simp add: erase_def restore_def)

lemma restore_inv [simp]: "intel_inv k (restore k q) = tile_inv k q"
  by (simp add: intel_inv_def restore_def tile_inv_def)

lemma restore_counts [simp]:
  "enqueue_count (restore k q) = t_enqueue_count q"
  "dequeue_count (restore k q) = t_dequeue_count q"
  by (simp_all add: restore_def)

lemma erase_inv: "intel_inv k q \<Longrightarrow> tile_inv k (erase q)"
  by (simp add: intel_inv_def erase_def tile_inv_def)

lemma erase_list [simp]: "tile_list k (erase q) = intel_list k q"
  by (simp add: intel_list_def erase_def tile_list_def)

lemma restore_list [simp]: "intel_list k (restore k q) = tile_list k q"
  by (simp add: intel_list_def restore_def tile_list_def)

text \<open>The builds agree on every single operation and on \<open>enqueue_multiple\<close>.\<close>

lemma tile_enqueue_erase: "tile_enqueue k (erase q) x = map_option erase (intel_enqueue k q x)"
  by (simp add: tile_enqueue_def intel_enqueue_def erase_def Let_def)

lemma tile_dequeue_erase:
  "tile_dequeue k (erase q) = map_option (\<lambda>(x, q'). (x, erase q')) (intel_dequeue k q)"
  by (simp add: tile_dequeue_def intel_dequeue_def erase_def Let_def)

lemma tile_enqueue_loop_erase:
  "tile_enqueue_loop k data cnt ns =
     (let (ns', cnt', len') = intel_enqueue_loop k data cnt ns len in (ns', cnt'))"
  by (induction data arbitrary: cnt ns len) (simp_all add: Let_def)

lemma tile_dequeue_loop_erase:
  "tile_dequeue_loop k n cnt ns =
     (let (xs, cnt', len') = intel_dequeue_loop k n cnt ns len in (xs, cnt'))"
proof (induction n arbitrary: cnt len)
  case 0
  then show ?case by simp
next
  case (Suc n)
  from Suc.IH [of "cnt + 1" "len - 1"] show ?case
    by (simp add: Let_def split: prod.splits)
qed

lemma tile_enqueue_multiple_erase:
  "tile_enqueue_multiple k (erase q) data = map_option erase (intel_enqueue_multiple k q data)"
  using tile_enqueue_loop_erase [of k data "ucast (enqueue_count q)" "node q" "qlength q"]
  by (simp add: tile_enqueue_multiple_def intel_enqueue_multiple_def erase_def Let_def
      split: prod.splits)

lemma tile_dequeue_multiple_erase:
  assumes "enqueue_count q \<noteq> dequeue_count q + ucast n"
  shows "tile_dequeue_multiple k (erase q) n =
           map_option (\<lambda>(xs, q'). (xs, erase q')) (intel_dequeue_multiple k q n)"
  using assms
    tile_dequeue_loop_erase [of k "unat n" "ucast (dequeue_count q)" "node q" "qlength q"]
  by (auto simp: tile_dequeue_multiple_def intel_dequeue_multiple_def erase_def Let_def
      split: prod.splits)

section \<open>The queue is a bounded FIFO\<close>

lemma tile_bounded_fifo:
  assumes "k < 32"
  shows "bounded_fifo (tile_enqueue k) (tile_dequeue k) (tile_list k) (tile_inv k) (2 ^ k)"
proof -
  from assms have iq: "bounded_fifo (intel_enqueue k) (intel_dequeue k) (intel_list k)
      (intel_inv k) (2 ^ k)"
    by (rule intel_bounded_fifo)
  show ?thesis
  proof unfold_locales
    fix q :: "'a tile_queue" and x q'
    assume q: "tile_inv k q"
    then have r: "intel_inv k (restore k q)" by simp
    show "tile_enqueue k q x = None \<longleftrightarrow> 2 ^ k \<le> length (tile_list k q)"
      using bounded_fifo.enq_None [OF iq r, of x] tile_enqueue_erase [of k "restore k q" x]
      by simp
    show "tile_dequeue k q = None \<longleftrightarrow> tile_list k q = []"
      using bounded_fifo.deq_None [OF iq r] tile_dequeue_erase [of k "restore k q"] by simp
    show "length (tile_list k q) \<le> 2 ^ k"
      using bounded_fifo.bounded [OF iq r] by simp
    show "tile_inv k q' \<and> tile_list k q' = tile_list k q @ [x]" if "tile_enqueue k q x = Some q'"
      using that bounded_fifo.enq_Some [OF iq r, of x] tile_enqueue_erase [of k "restore k q" x]
      by (cases "intel_enqueue k (restore k q) x") (auto simp: erase_inv)
    show "tile_inv k q' \<and> tile_list k q = x # tile_list k q'" if "tile_dequeue k q = Some (x, q')"
      using that bounded_fifo.deq_Some [OF iq r] tile_dequeue_erase [of k "restore k q"]
      by (cases "intel_dequeue k (restore k q)") (auto simp: erase_inv)
  qed
qed

interpretation tq: bounded_fifo "tile_enqueue LG2_CAPACITY" "tile_dequeue LG2_CAPACITY"
    "tile_list LG2_CAPACITY" "tile_inv LG2_CAPACITY" "2 ^ LG2_CAPACITY"
  by (rule tile_bounded_fifo) simp

interpretation tp: bounded_fifo "tile_enqueue MANAGER_POOL" "tile_dequeue MANAGER_POOL"
    "tile_list MANAGER_POOL" "tile_inv MANAGER_POOL" "2 ^ MANAGER_POOL"
  by (rule tile_bounded_fifo) simp

section \<open>Where the builds differ\<close>

text \<open>
  The TILE-Gx \<open>dequeue_multiple\<close> compares with \<open>\<le>\<close>: a batch that would empty the queue
  is refused, although the objects are there.
\<close>

lemma tile_dequeue_multiple_None:
  assumes "k < 32" "tile_inv k q" "unat (t_dequeue_count q) < 2 ^ 32"
  shows "tile_dequeue_multiple k q n = None \<longleftrightarrow> length (tile_list k q) \<le> unat n"
proof -
  have n: "unat n < 2 ^ 32" by (rule order_less_le_trans [OF unsigned_less]) simp
  then have "unat (t_dequeue_count q + ucast n) = unat (t_dequeue_count q) + unat n"
    using assms(3) by (simp add: unat_add_small unat_ucast_up)
  moreover have "unat (t_enqueue_count q) = unat (t_dequeue_count q) + length (tile_list k q)"
    using intel_counters_ordered [of k "restore k q"] assms by simp
  ultimately show ?thesis
    by (simp add: tile_dequeue_multiple_def word_le_nat_alt split: prod.splits)
qed

section \<open>Properties\<close>

text \<open>C33. The TILE-Gx ring and the Intel ring are the same queue: once the \<open>length\<close> field, which
  only the Intel ring has, is forgotten, \<open>enqueue\<close>, \<open>enqueue_multiple\<close> and \<open>dequeue\<close> give the same
  result and reach the same state on every state at all.\<close>

theorem builds_agree:
  "tile_enqueue k (erase q) x = map_option erase (intel_enqueue k q x)
   \<and> tile_enqueue_multiple k (erase q) data = map_option erase (intel_enqueue_multiple k q data)
   \<and> tile_dequeue k (erase q) = map_option (\<lambda>(y, q'). (y, erase q')) (intel_dequeue k q)"
  by (simp add: tile_enqueue_erase tile_enqueue_multiple_erase tile_dequeue_erase)

text \<open>The two builds disagree on \<open>dequeue_multiple\<close>: asked for exactly as many objects as are
  queued, the Intel ring hands them over, and the TILE-Gx ring, which compares with \<open><=\<close>, refuses.\<close>

theorem tile_refuses_exact_batch:
  assumes "k < 32" "intel_inv k q" "unat (dequeue_count q) < 2 ^ 32"
    and "unat n = length (intel_list k q)"
  shows "(\<exists>q'. intel_dequeue_multiple k q n = Some (intel_list k q, q'))
         \<and> tile_dequeue_multiple k (erase q) n = None"
proof -
  have "t_dequeue_count (erase q) = dequeue_count q" by (simp add: erase_def)
  then have "tile_dequeue_multiple k (erase q) n = None"
    using tile_dequeue_multiple_None [OF assms(1) erase_inv [OF assms(2)], of n] assms(3,4) by simp
  then show ?thesis using intel_dequeue_multiple_eq [OF assms(1-3), of n] assms(4) by simp
qed

theorem tile_refuses_exact_batch_witness:
  "\<exists>q'. intel_dequeue_multiple 3 \<lparr>enqueue_count = 2, dequeue_count = 0,
       node = [10, 11, 0, 0, 0, 0, 0, 0 :: nat], item_size = 8, total = 8, qlength = 2\<rparr> 2
     = Some ([10, 11], q')"
  using tile_refuses_exact_batch [of 3 "\<lparr>enqueue_count = 2, dequeue_count = 0,
       node = [10, 11, 0, 0, 0, 0, 0, 0 :: nat], item_size = 8, total = 8, qlength = 2\<rparr>" 2]
  by (auto simp: intel_inv_def intel_list_def ring_slice_def upt_rec)

end
