(* ===== verification/Flow_Key.thy ===== *)
theory Flow_Key
  imports Fp_Prelude
begin

unbundle bit_operations_syntax

text \<open>
  The data that travels through the pipeline, \<^verbatim>\<open>packet_t\<close>, \<^verbatim>\<open>flow_item_t\<close> and
  \<^verbatim>\<open>session_item_t\<close> of \<^verbatim>\<open>src/includes.h\<close>, the five fields that identify a session, and the
  hash that spreads flows over managers and buckets. Objects are named by numbers: a pointer
  to a packet or to a pool is the number of that packet or pool, a pointer into the bytes of a
  packet is the packet's number with an offset.
\<close>

section \<open>Packets, flows, sessions\<close>

record packet =
  data :: "u8 list"
  plength :: u32
  ppool :: nat

record flow_item =
  upper_ip :: u32
  lower_ip :: u32
  upper_port :: u32
  lower_port :: u32
  protocol :: u8
  fpacket :: nat
  payload :: "nat \<times> nat"
  payload_len :: u32
  fpool :: nat

record session_item =
  s_upper_ip :: u32
  s_lower_ip :: u32
  s_upper_port :: u32
  s_lower_port :: u32
  s_protocol :: u8
  buffer :: "u8 list"
  last_time :: u64
  slength :: u32
  cur_len :: u32
  spool :: "nat option"

section \<open>The key of a session\<close>

type_synonym key = "u32 \<times> u32 \<times> u32 \<times> u32 \<times> u8"

definition flow_key :: "flow_item \<Rightarrow> key" where
  "flow_key f = (upper_ip f, lower_ip f, upper_port f, lower_port f, protocol f)"

definition session_key :: "session_item \<Rightarrow> key" where
  "session_key s = (s_upper_ip s, s_lower_ip s, s_upper_port s, s_lower_port s, s_protocol s)"

definition compare_session :: "session_item \<Rightarrow> flow_item \<Rightarrow> int" where
  "compare_session session flow =
     (if s_protocol session = protocol flow \<and> s_upper_ip session = upper_ip flow
         \<and> s_lower_ip session = lower_ip flow \<and> s_upper_port session = upper_port flow
         \<and> s_lower_port session = lower_port flow
      then 0 else 1)"

lemma compare_session_key: "compare_session s f = 0 \<longleftrightarrow> session_key s = flow_key f"
  by (auto simp: compare_session_def session_key_def flow_key_def)

section \<open>Hashing\<close>

text \<open>
  \<^verbatim>\<open>MAKE_HASH\<close> as the two files define it, and the function \<^verbatim>\<open>make_hash\<close>. The code divides by
  \<open>SIZE\<close>; the callers' models fault when it is 0.
\<close>

definition MAKE_HASH :: "u32 \<Rightarrow> u32 \<Rightarrow> u32 \<Rightarrow> u32 \<Rightarrow> u32 \<Rightarrow> u32" where
  "MAKE_HASH f1 f2 f3 f4 SIZE =
     (let v1 = f1 XOR f2;
          v2 = f3 XOR f4;
          h1 = push_bit 8 v1;
          h1 = h1 XOR drop_bit 4 v1;
          h1 = h1 XOR drop_bit 12 v1;
          h1 = h1 XOR drop_bit 16 v1;
          h1 = h1 XOR push_bit 6 v2;
          h1 = h1 XOR push_bit 10 v2;
          h1 = h1 XOR push_bit 14 v2;
          h1 = h1 XOR drop_bit 7 v2
      in h1 mod SIZE)"

definition make_hash :: "u32 \<Rightarrow> u32 \<Rightarrow> u32 \<Rightarrow> u32 \<Rightarrow> u32 \<Rightarrow> u32" where
  "make_hash f1 f2 f3 f4 SIZE =
     (let v1 = f1 XOR f2;
          v2 = f3 XOR f4;
          h1 = push_bit 8 v1;
          h1 = h1 XOR drop_bit 4 v1;
          h1 = h1 XOR drop_bit 12 v1;
          h1 = h1 XOR drop_bit 16 v1;
          h1 = h1 XOR push_bit 6 v2;
          h1 = h1 XOR push_bit 10 v2;
          h1 = h1 XOR push_bit 14 v2;
          h1 = h1 XOR drop_bit 7 v2
      in h1 mod SIZE)"

lemma MAKE_HASH_less: "SIZE \<noteq> 0 \<Longrightarrow> unat (MAKE_HASH f1 f2 f3 f4 SIZE) < unat SIZE"
  by (simp add: MAKE_HASH_def Let_def unat_mod unat_gt_0)

lemma MAKE_HASH_swap: "MAKE_HASH f2 f1 f4 f3 SIZE = MAKE_HASH f1 f2 f3 f4 SIZE"
  by (simp add: MAKE_HASH_def xor.commute [of f2 f1] xor.commute [of f4 f3])

text \<open>The manager's bucket and the parser's manager, as functions of the key.\<close>

definition bucket_index :: "u32 \<Rightarrow> key \<Rightarrow> u32" where
  "bucket_index SIZE k =
     (case k of (uip, lip, uport, lport, pr) \<Rightarrow> MAKE_HASH lport uip uport lip SIZE)"

definition hash_index :: "flow_item \<Rightarrow> u32 \<Rightarrow> u32" where
  "hash_index flow numbers =
     MAKE_HASH (lower_ip flow) (upper_ip flow) (lower_port flow) (upper_port flow) numbers"

lemma hash_index_cong: "flow_key f = flow_key g \<Longrightarrow> hash_index f n = hash_index g n"
  by (simp add: flow_key_def hash_index_def)

lemma bucket_index_less: "SIZE \<noteq> 0 \<Longrightarrow> unat (bucket_index SIZE k) < unat SIZE"
  by (cases k) (simp add: bucket_index_def MAKE_HASH_less)

end
