(* ===== verification/Sim_Config.thy ===== *)
theory Sim_Config
  imports Fp_Prelude
begin

text \<open>
  The configuration record \<^verbatim>\<open>sim_config_t\<close> of \<^verbatim>\<open>src/config.h\<close>, in its Intel form: the
  component models take it as an argument where the code reads \<^verbatim>\<open>global_config\<close>. A C \<open>int\<close>
  is an \<open>int\<close>, a string pointer an optional list of bytes (without the final zero byte).
\<close>

record sim_config =
  cfg_protocol :: int
  srcmac :: "u8 list"
  dstmac :: "u8 list"
  saddr_min :: u32
  daddr_min :: u32
  saddr_cur :: u32
  daddr_cur :: u32
  saddr_max :: u32
  daddr_max :: u32
  sport_min :: u32
  dport_min :: u32
  sport_cur :: u32
  dport_cur :: u32
  sport_max :: u32
  dport_max :: u32
  speed :: u32
  pkt_data :: "u8 list option"
  pktlen :: int
  period :: u32
  link_name :: "u8 list option"
  packet_generator_mode :: int
  generator_nums :: int
  parser_nums :: int
  manager_nums :: int
  generator_pool_size :: int
  parser_queue_length :: int
  parser_pool_size :: int
  manager_queue_length :: int
  manager_pool_size :: int
  manager_hash_length :: int
  manager_buffer_size :: int
  pipe_depth :: int
  screen_display :: int
  speed_mode :: int
  mhz :: int
  destory_time :: int

text \<open>A small configuration, for evaluating the properties of the components.\<close>

definition demo_cfg :: sim_config where
  "demo_cfg = \<lparr>cfg_protocol = 6, srcmac = [], dstmac = [], saddr_min = 0, daddr_min = 0, saddr_cur = 0,
     daddr_cur = 0, saddr_max = 0, daddr_max = 0, sport_min = 0, dport_min = 0, sport_cur = 0,
     dport_cur = 0, sport_max = 0, dport_max = 0, speed = 0, pkt_data = None, pktlen = 64, period = 0,
     link_name = None, packet_generator_mode = 1, generator_nums = 1, parser_nums = 1, manager_nums = 1,
     generator_pool_size = 1024, parser_queue_length = 1024, parser_pool_size = 1024,
     manager_queue_length = 1024, manager_pool_size = 1024, manager_hash_length = 8,
     manager_buffer_size = 64, pipe_depth = 5, screen_display = 0, speed_mode = 0, mhz = 2,
     destory_time = 3\<rparr>"

lemma demo_fields [simp]:
  "manager_hash_length demo_cfg = 8" "manager_buffer_size demo_cfg = 64" "pipe_depth demo_cfg = 5"
  by (simp_all add: demo_cfg_def)

end
