(* ===== verification/List_Head.thy ===== *)
theory List_Head
  imports Fp_Prelude
begin

text \<open>
  The intrusive doubly linked lists of \<^verbatim>\<open>src/list.h\<close> over an explicit store: an
  address has a \<open>next\<close> and a \<open>prev\<close> pointer, \<open>None\<close> is NULL. An operation that follows
  a NULL pointer has no result. \<open>dlist h head xs\<close> says that the circular list whose head
  is \<open>head\<close> holds the entries \<open>xs\<close>; every operation is read through it.
\<close>

section \<open>Store and operations\<close>

record 'a list_head =
  next_of :: "'a option"
  prev_of :: "'a option"

type_synonym 'a store = "'a \<Rightarrow> 'a list_head"

definition INIT_LIST_HEAD :: "'a store \<Rightarrow> 'a \<Rightarrow> 'a store" where
  "INIT_LIST_HEAD h l =
     (let h1 = h(l := (h l)\<lparr>next_of := Some l\<rparr>)
      in h1(l := (h1 l)\<lparr>prev_of := Some l\<rparr>))"

definition list_add_between :: "'a store \<Rightarrow> 'a \<Rightarrow> 'a option \<Rightarrow> 'a option \<Rightarrow> 'a store option" where
  "list_add_between h new prv nxt =
     (case nxt of None \<Rightarrow> None
      | Some n \<Rightarrow>
          let h1 = h(n := (h n)\<lparr>prev_of := Some new\<rparr>);
              h2 = h1(new := (h1 new)\<lparr>next_of := nxt\<rparr>);
              h3 = h2(new := (h2 new)\<lparr>prev_of := prv\<rparr>)
          in case prv of None \<Rightarrow> None
             | Some p \<Rightarrow> Some (h3(p := (h3 p)\<lparr>next_of := Some new\<rparr>)))"

definition list_add :: "'a store \<Rightarrow> 'a \<Rightarrow> 'a \<Rightarrow> 'a store option" where
  "list_add h new head = list_add_between h new (Some head) (next_of (h head))"

definition list_add_tail :: "'a store \<Rightarrow> 'a \<Rightarrow> 'a \<Rightarrow> 'a store option" where
  "list_add_tail h new head = list_add_between h new (prev_of (h head)) (Some head)"

definition list_del_between :: "'a store \<Rightarrow> 'a option \<Rightarrow> 'a option \<Rightarrow> 'a store option" where
  "list_del_between h prv nxt =
     (case nxt of None \<Rightarrow> None
      | Some n \<Rightarrow>
          let h1 = h(n := (h n)\<lparr>prev_of := prv\<rparr>)
          in case prv of None \<Rightarrow> None
             | Some p \<Rightarrow> Some (h1(p := (h1 p)\<lparr>next_of := nxt\<rparr>)))"

definition list_del :: "'a store \<Rightarrow> 'a \<Rightarrow> 'a store option" where
  "list_del h e =
     map_option
       (\<lambda>h'. let h1 = h'(e := (h' e)\<lparr>next_of := None\<rparr>)
             in h1(e := (h1 e)\<lparr>prev_of := None\<rparr>))
       (list_del_between h (prev_of (h e)) (next_of (h e)))"

definition list_move_tail :: "'a store \<Rightarrow> 'a \<Rightarrow> 'a \<Rightarrow> 'a store option" where
  "list_move_tail h e head =
     Option.bind (list_del_between h (prev_of (h e)) (next_of (h e)))
       (\<lambda>h'. list_add_tail h' e head)"

definition list_empty :: "'a store \<Rightarrow> 'a \<Rightarrow> bool" where
  "list_empty h head \<longleftrightarrow> next_of (h head) = Some head"

text \<open>
  \<^verbatim>\<open>list_for_each(pos, head)\<close> with a body that looks for the first entry satisfying
  \<open>P\<close>. \<open>None\<close>: a NULL pointer is followed, or the walk never comes back to the head.
\<close>

partial_function (option) list_find_from ::
    "'a store \<Rightarrow> ('a \<Rightarrow> bool) \<Rightarrow> 'a \<Rightarrow> 'a option \<Rightarrow> 'a option option" where
  "list_find_from h P head pos =
     (case pos of None \<Rightarrow> None
      | Some p \<Rightarrow>
          if p = head then Some None
          else if P p then Some (Some p)
          else list_find_from h P head (next_of (h p)))"

definition list_find :: "'a store \<Rightarrow> ('a \<Rightarrow> bool) \<Rightarrow> 'a \<Rightarrow> 'a option option" where
  "list_find h P head = list_find_from h P head (next_of (h head))"

text \<open>
  \<^verbatim>\<open>list_for_each_safe(pos, n, head)\<close> with a body on a state of type \<open>'s\<close> that holds
  the store (\<open>sto\<close> reads it): \<open>n\<close> is read before the body runs. The outer \<open>None\<close> is a walk that
  never comes back to the head; a NULL pointer and a body that does not return end it.
\<close>

partial_function (option) list_safe_from ::
    "('s \<Rightarrow> 'a store) \<Rightarrow> ('a \<Rightarrow> 's \<Rightarrow> 's run) \<Rightarrow> 'a \<Rightarrow> 'a option \<Rightarrow> 'a option \<Rightarrow> 's
      \<Rightarrow> 's run option" where
  "list_safe_from sto body head pos n s =
     (if pos = Some head then Some (Ret s)
      else case pos of None \<Rightarrow> Some Fault
      | Some p \<Rightarrow>
          (case body p s of Spin \<Rightarrow> Some Spin | Fault \<Rightarrow> Some Fault | Exits status \<Rightarrow> Some (Exits status)
           | Ret s' \<Rightarrow>
               (case n of None \<Rightarrow> Some Fault
                | Some m \<Rightarrow> list_safe_from sto body head n (next_of (sto s' m)) s')))"

definition list_for_each_safe ::
    "('s \<Rightarrow> 'a store) \<Rightarrow> ('a \<Rightarrow> 's \<Rightarrow> 's run) \<Rightarrow> 'a \<Rightarrow> 's \<Rightarrow> 's run option" where
  "list_for_each_safe sto body head s =
     (case next_of (sto s head) of None \<Rightarrow> Some Fault
      | Some p \<Rightarrow> list_safe_from sto body head (Some p) (next_of (sto s p)) s)"

section \<open>Chains\<close>

fun linked :: "'a store \<Rightarrow> 'a list \<Rightarrow> bool" where
  "linked h (a # b # xs) \<longleftrightarrow>
     next_of (h a) = Some b \<and> prev_of (h b) = Some a \<and> linked h (b # xs)"
| "linked h xs \<longleftrightarrow> True"

definition dlist :: "'a store \<Rightarrow> 'a \<Rightarrow> 'a list \<Rightarrow> bool" where
  "dlist h head xs \<longleftrightarrow> distinct (head # xs) \<and> linked h (head # xs @ [head])"

lemma linked_append: "linked h (xs @ a # ys) \<longleftrightarrow> linked h (xs @ [a]) \<and> linked h (a # ys)"
  by (induction h xs rule: linked.induct) auto

text \<open>Only the \<open>next\<close> of all but the last and the \<open>prev\<close> of all but the first matter.\<close>

lemma linked_cong:
  assumes "\<And>x. x \<in> set (butlast xs) \<Longrightarrow> next_of (h' x) = next_of (h x)"
    and "\<And>x. x \<in> set (tl xs) \<Longrightarrow> prev_of (h' x) = prev_of (h x)"
  shows "linked h' xs = linked h xs"
  using assms by (induction h xs rule: linked.induct) auto

lemma dlist_split:
  assumes "head # as = A @ [p]" "bs @ [head] = n # B"
  shows "linked h (head # (as @ bs) @ [head]) \<longleftrightarrow> linked h (A @ [p]) \<and> linked h [p, n] \<and> linked h (n # B)"
proof -
  have "head # (as @ bs) @ [head] = A @ p # n # B"
    using append_eq_conv_conj assms by simp
  then show ?thesis
    by (simp add: linked_append [of h A p "n # B"])
qed

lemma dlist_split_mid:
  assumes "head # as = A @ [p]" "bs @ [head] = n # B"
  shows "linked h (head # (as @ e # bs) @ [head])
           \<longleftrightarrow> linked h (A @ [p]) \<and> linked h [p, e, n] \<and> linked h (n # B)"
proof -
  have "head # (as @ e # bs) @ [head] = A @ p # e # n # B"
    using assms by (metis append.assoc append_Cons append_Nil)
  then show ?thesis
    by (simp add: linked_append [of h A p "e # n # B"])
qed

lemma cut_facts:
  assumes "distinct (head # as @ bs)" "head # as = A @ [p]" "bs @ [head] = n # B"
  shows "p \<notin> set A" "n \<notin> set (tl (A @ [p]))" "p \<notin> set (butlast (n # B))" "n \<notin> set B"
    and "set A \<subseteq> set (head # as)" "set (tl (A @ [p])) = set as" "set (butlast (n # B)) = set bs"
    and "set B \<subseteq> set (bs @ [head])" "p \<in> set (head # as)" "n \<in> set (bs @ [head])"
proof -
  have A: "distinct (A @ [p])" using assms(1) by (simp flip: assms(2))
  have "distinct (bs @ [head])" using assms(1) by auto
  then have B: "distinct (n # B)" by (simp only: assms(3))
  from A B show "p \<notin> set A" "n \<notin> set B" by auto
  have tlA: "tl (A @ [p]) = as" and bl: "butlast (n # B) = bs"
    by (simp_all only: assms(2) [symmetric] assms(3) [symmetric] list.sel butlast_snoc)
  then show "set (tl (A @ [p])) = set as" "set (butlast (n # B)) = set bs" by simp_all
  show pin: "p \<in> set (head # as)" by (simp only: assms(2)) simp
  show nin: "n \<in> set (bs @ [head])" by (simp only: assms(3)) simp
  show "n \<notin> set (tl (A @ [p]))" using nin assms(1) tlA by auto
  show "p \<notin> set (butlast (n # B))" using pin assms(1) bl by auto
  show "set A \<subseteq> set (head # as)" by (simp only: assms(2)) auto
  show "set B \<subseteq> set (bs @ [head])" by (simp only: assms(3)) auto
qed

lemma list_add_between_dlist:
  assumes "dlist h head (as @ bs)" "new \<notin> set (head # as @ bs)"
    and cut: "head # as = A @ [p]" "bs @ [head] = n # B"
  shows "\<exists>h'. list_add_between h new (Some p) (Some n) = Some h'
           \<and> dlist h' head (as @ new # bs)
           \<and> (\<forall>x. x \<notin> set (head # as @ new # bs) \<longrightarrow> h' x = h x)"
proof -
  have dist: "distinct (head # as @ bs)" using assms(1) by (simp add: dlist_def)
  note facts = cut_facts [OF dist cut]
  have ne: "new \<noteq> p" "new \<noteq> n" using facts(9,10) assms(2) by auto
  let ?h' = "let h1 = h(n := (h n)\<lparr>prev_of := Some new\<rparr>);
                 h2 = h1(new := (h1 new)\<lparr>next_of := Some n\<rparr>);
                 h3 = h2(new := (h2 new)\<lparr>prev_of := Some p\<rparr>)
             in h3(p := (h3 p)\<lparr>next_of := Some new\<rparr>)"
  have res: "list_add_between h new (Some p) (Some n) = Some ?h'"
    by (simp add: list_add_between_def Let_def)
  have "linked h (A @ [p])" "linked h (n # B)"
    using assms(1) dlist_split [OF cut, of h] by (simp_all add: dlist_def)
  moreover have "linked ?h' (A @ [p]) = linked h (A @ [p])"
    by (rule linked_cong) (use facts ne assms(2) in \<open>auto simp: Let_def\<close>)
  moreover have "linked ?h' (n # B) = linked h (n # B)"
    by (rule linked_cong) (use facts ne assms(2) in \<open>auto simp: Let_def\<close>)
  moreover have "linked ?h' [p, new, n]"
    using ne by (auto simp: Let_def)
  ultimately have "linked ?h' (head # (as @ new # bs) @ [head])"
    using dlist_split_mid [OF cut] by blast
  with dist assms(2) have "dlist ?h' head (as @ new # bs)"
    by (auto simp: dlist_def)
  moreover have "\<forall>x. x \<notin> set (head # as @ new # bs) \<longrightarrow> ?h' x = h x"
    using facts(9,10) by (auto simp: Let_def)
  ultimately show ?thesis using res by blast
qed

lemma list_del_dlist:
  assumes "dlist h head (as @ e # bs)"
  shows "\<exists>h'. list_del h e = Some h' \<and> dlist h' head (as @ bs)
           \<and> h' e = \<lparr>next_of = None, prev_of = None\<rparr>
           \<and> (\<forall>x. x \<notin> set (head # as @ e # bs) \<longrightarrow> h' x = h x)"
proof -
  obtain A p where A: "head # as = A @ [p]" by (metis rev_exhaust list.distinct(1))
  obtain n B where B: "bs @ [head] = n # B" by (metis neq_Nil_conv snoc_eq_iff_butlast)
  have dist: "distinct (head # as @ bs)" and e: "e \<notin> set (head # as @ bs)"
    using assms by (auto simp: dlist_def)
  note facts = cut_facts [OF dist A B]
  have ne: "e \<noteq> p" "e \<noteq> n" using facts(9,10) e by auto
  have lnk: "linked h (A @ [p])" "linked h [p, e, n]" "linked h (n # B)"
    using assms dlist_split_mid [OF A B, of h e] by (simp_all add: dlist_def)
  let ?h' = "(h(n := (h n)\<lparr>prev_of := Some p\<rparr>))
               (p := ((h(n := (h n)\<lparr>prev_of := Some p\<rparr>)) p)\<lparr>next_of := Some n\<rparr>,
                e := \<lparr>next_of = None, prev_of = None\<rparr>)"
  have res: "list_del h e = Some ?h'"
    using lnk(2) ne by (auto simp: list_del_def list_del_between_def Let_def fun_eq_iff)
  have "linked ?h' (A @ [p]) = linked h (A @ [p])"
    by (rule linked_cong) (use facts e in auto)
  moreover have "linked ?h' (n # B) = linked h (n # B)"
    by (rule linked_cong) (use facts e in auto)
  moreover have "linked ?h' [p, n]" using ne by auto
  ultimately have "linked ?h' (head # (as @ bs) @ [head])"
    using dlist_split [OF A B] lnk by blast
  with dist have "dlist ?h' head (as @ bs)" by (simp only: dlist_def)
  moreover have "\<forall>x. x \<notin> set (head # as @ e # bs) \<longrightarrow> ?h' x = h x"
    using facts(9,10) by auto
  ultimately show ?thesis using res by auto
qed

lemma dlist_INIT [simp]: "dlist (INIT_LIST_HEAD h head) head []"
  by (simp add: dlist_def INIT_LIST_HEAD_def Let_def)

lemma INIT_LIST_HEAD_other [simp]: "x \<noteq> l \<Longrightarrow> INIT_LIST_HEAD h l x = h x"
  by (simp add: INIT_LIST_HEAD_def Let_def)

lemma dlist_frame:
  assumes "\<And>x. x \<in> set (head # xs) \<Longrightarrow> h' x = h x"
  shows "dlist h' head xs = dlist h head xs"
proof -
  have "linked h' (head # xs @ [head]) = linked h (head # xs @ [head])"
    by (rule linked_cong) (use assms in \<open>auto simp: butlast_append\<close>)
  then show ?thesis by (simp add: dlist_def)
qed

lemma dlist_prev_head:
  assumes "dlist h head xs"
  shows "prev_of (h head) = Some (last (head # xs))"
proof -
  obtain A p where A: "head # xs = A @ [p]" by (metis rev_exhaust list.distinct(1))
  then have "linked h [p, head]"
    using assms dlist_split [of head xs A p "[]" head "[]" h] by (simp add: dlist_def)
  with A show ?thesis by (simp add: last_ConsR)
qed

lemma list_add_tail_dlist:
  assumes "dlist h head xs" "new \<notin> set (head # xs)"
  shows "\<exists>h'. list_add_tail h new head = Some h' \<and> dlist h' head (xs @ [new])
           \<and> (\<forall>x. x \<notin> set (head # xs @ [new]) \<longrightarrow> h' x = h x)"
proof -
  obtain A p where A: "head # xs = A @ [p]" by (metis rev_exhaust list.distinct(1))
  then have "prev_of (h head) = Some p"
    using dlist_prev_head [OF assms(1)] by (simp only: last_snoc)
  then show ?thesis
    using list_add_between_dlist [of h head xs "[]" new A p head "[]"] assms A
    by (simp add: list_add_tail_def)
qed

lemma list_add_dlist:
  assumes "dlist h head xs" "new \<notin> set (head # xs)"
  shows "\<exists>h'. list_add h new head = Some h' \<and> dlist h' head (new # xs)
           \<and> (\<forall>x. x \<notin> set (head # new # xs) \<longrightarrow> h' x = h x)"
proof -
  obtain n B where B: "xs @ [head] = n # B" by (metis neq_Nil_conv snoc_eq_iff_butlast)
  then have "next_of (h head) = Some n"
    using assms(1) by (simp only: dlist_def append_Cons) simp
  then show ?thesis
    using list_add_between_dlist [of h head "[]" xs new "[]" head n B] assms B
    by (simp add: list_add_def)
qed

lemma list_empty_dlist: "dlist h head xs \<Longrightarrow> list_empty h head \<longleftrightarrow> xs = []"
  by (cases xs) (auto simp: dlist_def list_empty_def)

lemma list_move_tail_dlist:
  assumes "dlist h head (as @ e # bs)"
  shows "\<exists>h'. list_move_tail h e head = Some h' \<and> dlist h' head (as @ bs @ [e])"
proof -
  obtain A p where A: "head # as = A @ [p]" by (metis rev_exhaust list.distinct(1))
  obtain n B where B: "bs @ [head] = n # B" by (metis neq_Nil_conv snoc_eq_iff_butlast)
  have "linked h [p, e, n]"
    using assms dlist_split_mid [OF A B, of h e] by (simp add: dlist_def)
  then obtain h1 where h1: "list_del_between h (prev_of (h e)) (next_of (h e)) = Some h1"
    by (auto simp: list_del_between_def Let_def)
  obtain h2 where h2: "list_del h e = Some h2" "dlist h2 head (as @ bs)"
    using list_del_dlist [OF assms] by blast
  have e: "e \<notin> set (head # as @ bs)" using assms by (auto simp: dlist_def)
  have "h1 x = h2 x" if "x \<in> set (head # as @ bs)" for x
    using h1 h2(1) that e by (auto simp: list_del_def Let_def)
  then have "dlist h1 head (as @ bs) = dlist h2 head (as @ bs)" by (rule dlist_frame)
  with h2(2) have "dlist h1 head (as @ bs)" by simp
  then show ?thesis
    using list_add_tail_dlist [of h1 head "as @ bs" e] e h1 by (auto simp: list_move_tail_def)
qed

section \<open>Walks\<close>

lemma dlist_first: "dlist h head xs \<Longrightarrow> next_of (h head) = Some (hd (xs @ [head]))"
  by (cases xs) (auto simp: dlist_def)

lemma dlist_next:
  assumes "dlist h head (as @ p # bs)"
  shows "next_of (h p) = Some (hd (bs @ [head]))"
proof -
  have "linked h ((head # as) @ p # bs @ [head])" using assms by (simp add: dlist_def)
  then have "linked h (p # bs @ [head])" by (simp only: linked_append [of h "head # as" p "bs @ [head]"])
  then show ?thesis by (cases bs) auto
qed

lemma list_find_from_rest:
  assumes "dlist h head (as @ bs)"
  shows "list_find_from h P head (Some (hd (bs @ [head]))) = Some (find P bs)"
  using assms
proof (induction bs arbitrary: as)
  case Nil
  then show ?case by (simp add: list_find_from.simps)
next
  case (Cons p bs)
  have "p \<noteq> head" using Cons.prems by (auto simp: dlist_def)
  moreover have "list_find_from h P head (next_of (h p)) = Some (find P bs)"
    using Cons.IH [of "as @ [p]"] Cons.prems dlist_next [OF Cons.prems] by simp
  ultimately show ?case
    by (simp add: list_find_from.simps [of h P head "Some p"])
qed

lemma list_find_dlist: "dlist h head xs \<Longrightarrow> list_find h P head = Some (find P xs)"
  using list_find_from_rest [of h head "[]" xs P] by (simp add: list_find_def dlist_first)

text \<open>
  The rule for a walk whose body may unlink the entry it is at. \<open>J as bs s\<close> relates the
  state to the entries already passed and still linked, and to the entries ahead.
\<close>

lemma list_safe_from_rule:
  assumes lst: "\<And>as bs s. J as bs s \<Longrightarrow> dlist (sto s) head (as @ bs)"
    and body: "\<And>as p bs s. J as (p # bs) s \<Longrightarrow> \<exists>as' s'. body p s = Ret s' \<and> J as' bs s'"
    and "J as bs s"
  shows "\<exists>as' s'. list_safe_from sto body head (Some (hd (bs @ [head])))
                  (next_of (sto s (hd (bs @ [head])))) s = Some (Ret s') \<and> J as' [] s'"
  using assms(3)
proof (induction bs arbitrary: as s)
  case Nil
  then show ?case by (auto simp: list_safe_from.simps)
next
  case (Cons p bs)
  have d: "dlist (sto s) head (as @ p # bs)" using lst Cons.prems .
  then have p: "p \<noteq> head" by (auto simp: dlist_def)
  obtain as' s' where s': "body p s = Ret s'" "J as' bs s'" using body [OF Cons.prems] by blast
  have "list_safe_from sto body head (Some p) (next_of (sto s p)) s =
          list_safe_from sto body head (Some (hd (bs @ [head])))
            (next_of (sto s' (hd (bs @ [head])))) s'"
    using s'(1) p dlist_next [OF d]
    by (simp add: list_safe_from.simps [of sto body head "Some p"])
  with Cons.IH [OF s'(2)] show ?case by simp
qed

lemma list_for_each_safe_rule:
  assumes "\<And>as bs s. J as bs s \<Longrightarrow> dlist (sto s) head (as @ bs)"
    and "\<And>as p bs s. J as (p # bs) s \<Longrightarrow> \<exists>as' s'. body p s = Ret s' \<and> J as' bs s'"
    and "J [] xs s"
  shows "\<exists>as' s'. list_for_each_safe sto body head s = Some (Ret s') \<and> J as' [] s'"
  using list_safe_from_rule [of J sto head body, OF assms] assms(1) [OF assms(3)]
  by (simp add: list_for_each_safe_def dlist_first)

section \<open>Properties\<close>

text \<open>C34. The pointer surgery of \<^verbatim>\<open>list.h\<close> is list surgery: on a well-formed ring holding \<open>as @ bs\<close>
  none of the operations dereferences a null pointer, \<open>list_add_tail\<close> and \<open>list_add\<close> put a fresh
  node at the end and at the front, and \<open>list_del\<close> of a node takes out that node only and resets
  its links; nodes outside the ring are untouched.\<close>

theorem list_ops_refine:
  assumes "dlist h head (as @ bs)" "e \<notin> set (head # as @ bs)" "dlist g head (as @ e # bs)"
  shows "(\<exists>h'. list_add_tail h e head = Some h' \<and> dlist h' head (as @ bs @ [e])
             \<and> (\<forall>x. x = e \<or> x \<in> set (head # as @ bs) \<or> h' x = h x))
       \<and> (\<exists>h'. list_add h e head = Some h' \<and> dlist h' head (e # as @ bs)
             \<and> (\<forall>x. x = e \<or> x \<in> set (head # as @ bs) \<or> h' x = h x))
       \<and> (\<exists>g'. list_del g e = Some g' \<and> dlist g' head (as @ bs)
             \<and> g' e = \<lparr>next_of = None, prev_of = None\<rparr>
             \<and> (\<forall>x. x = e \<or> x \<in> set (head # as @ bs) \<or> g' x = g x))"
proof (intro conjI)
  show "\<exists>h'. list_add_tail h e head = Some h' \<and> dlist h' head (as @ bs @ [e])
             \<and> (\<forall>x. x = e \<or> x \<in> set (head # as @ bs) \<or> h' x = h x)"
    using list_add_tail_dlist [OF assms(1,2)] by fastforce
  show "\<exists>h'. list_add h e head = Some h' \<and> dlist h' head (e # as @ bs)
             \<and> (\<forall>x. x = e \<or> x \<in> set (head # as @ bs) \<or> h' x = h x)"
    using list_add_dlist [OF assms(1,2)] by fastforce
  show "\<exists>g'. list_del g e = Some g' \<and> dlist g' head (as @ bs)
             \<and> g' e = \<lparr>next_of = None, prev_of = None\<rparr>
             \<and> (\<forall>x. x = e \<or> x \<in> set (head # as @ bs) \<or> g' x = g x)"
    using list_del_dlist [OF assms(3)] by fastforce
qed

theorem list_ops_refine_witness:
  "\<exists>g'. list_del (\<lambda>x::nat. \<lparr>next_of = Some (1 - x), prev_of = Some (1 - x)\<rparr>) 1 = Some g'
        \<and> dlist g' 0 []"
  using list_ops_refine [of "INIT_LIST_HEAD (\<lambda>x. \<lparr>next_of = None, prev_of = None\<rparr>) 0" "0::nat" "[]" "[]" 1
      "\<lambda>x. \<lparr>next_of = Some (1 - x), prev_of = Some (1 - x)\<rparr>"]
  by (auto simp: dlist_def INIT_LIST_HEAD_def)

text \<open>C35. \<open>list_for_each\<close> with an early return, as \<open>find_list\<close> uses it, ends on every well-formed
  ring, never follows a null pointer and returns the first node that satisfies the test, or nothing
  when no node does.\<close>

theorem list_walk_finds_first:
  assumes "dlist h head xs"
  shows "list_find h P head = Some (find P xs)"
  using assms by (rule list_find_dlist)

theorem list_walk_finds_first_witness:
  "list_find (\<lambda>x::nat. \<lparr>next_of = Some (1 - x), prev_of = Some (1 - x)\<rparr>) (\<lambda>x. x = 1) 0 = Some (Some 1)"
  using list_walk_finds_first [of "\<lambda>x. \<lparr>next_of = Some (1 - x), prev_of = Some (1 - x)\<rparr>" "0::nat" "[1]" "\<lambda>x. x = 1"]
  by (simp add: dlist_def)

end
