(* ===== verification/Checksum.thy ===== *)
theory Checksum
  imports Fp_Prelude
begin

unbundle bit_operations_syntax

text \<open>
  \<^verbatim>\<open>src/checksum.c\<close> and \<^verbatim>\<open>src/crc32.c\<close>: the Internet checksum of an IP header and
  the table-driven CRC-32 in its three copies. The reference definitions they are compared
  with are the one's-complement sum as arithmetic modulo 65535, and the CRC computed bit by
  bit with the reflected polynomial \<open>0xEDB88320\<close>.
\<close>

section \<open>Internet checksum\<close>

text \<open>\<^verbatim>\<open>while (sum >> 16) sum = (sum >> 16) + (sum & 0xffff);\<close>\<close>

function fold_carries :: "u32 \<Rightarrow> u32" where
  "fold_carries s =
     (if drop_bit 16 s \<noteq> 0 then fold_carries (drop_bit 16 s + (s AND 0xFFFF)) else s)"
  by pat_completeness auto

text \<open>The header as the 16-bit words the code reads; on a little-endian host the low byte
  of word 0 is \<^verbatim>\<open>version << 4 | ihl\<close>, and word 5 is \<open>check\<close>.\<close>

definition ihl_of :: "u16 list \<Rightarrow> nat" where
  "ihl_of hdr = unat (hdr ! 0 AND 0xF)"

definition sum_words :: "u16 list \<Rightarrow> u32 \<Rightarrow> u32" where
  "sum_words ws acc = fold (\<lambda>w s. s + ucast w) ws acc"

definition checksum_ip :: "u16 list \<Rightarrow> u16 list run" where
  "checksum_ip hdr =
     (if length hdr < 6 then Fault
      else let h0 = hdr[5 := 0]; n = ihl_of h0 * 2
           in if length h0 < n then Fault
              else Ret (h0[5 := NOT (ucast (fold_carries (sum_words (take n h0) 0)))]))"

definition ip_xsum :: "u16 list \<Rightarrow> int \<Rightarrow> u32 \<Rightarrow> u16 run" where
  "ip_xsum buff len xsum =
     (if len < 0 \<or> length buff < nat len then Fault
      else Ret (ucast (fold_carries (sum_words (take (nat len) buff) xsum))))"

section \<open>CRC-32\<close>

definition CRC32_table :: "u32 list" where
  "CRC32_table =
     [0x00000000, 0x77073096, 0xEE0E612C, 0x990951BA,
      0x076DC419, 0x706AF48F, 0xE963A535, 0x9E6495A3,
      0x0EDB8832, 0x79DCB8A4, 0xE0D5E91E, 0x97D2D988,
      0x09B64C2B, 0x7EB17CBD, 0xE7B82D07, 0x90BF1D91,
      0x1DB71064, 0x6AB020F2, 0xF3B97148, 0x84BE41DE,
      0x1ADAD47D, 0x6DDDE4EB, 0xF4D4B551, 0x83D385C7,
      0x136C9856, 0x646BA8C0, 0xFD62F97A, 0x8A65C9EC,
      0x14015C4F, 0x63066CD9, 0xFA0F3D63, 0x8D080DF5,
      0x3B6E20C8, 0x4C69105E, 0xD56041E4, 0xA2677172,
      0x3C03E4D1, 0x4B04D447, 0xD20D85FD, 0xA50AB56B,
      0x35B5A8FA, 0x42B2986C, 0xDBBBC9D6, 0xACBCF940,
      0x32D86CE3, 0x45DF5C75, 0xDCD60DCF, 0xABD13D59,
      0x26D930AC, 0x51DE003A, 0xC8D75180, 0xBFD06116,
      0x21B4F4B5, 0x56B3C423, 0xCFBA9599, 0xB8BDA50F,
      0x2802B89E, 0x5F058808, 0xC60CD9B2, 0xB10BE924,
      0x2F6F7C87, 0x58684C11, 0xC1611DAB, 0xB6662D3D,
      0x76DC4190, 0x01DB7106, 0x98D220BC, 0xEFD5102A,
      0x71B18589, 0x06B6B51F, 0x9FBFE4A5, 0xE8B8D433,
      0x7807C9A2, 0x0F00F934, 0x9609A88E, 0xE10E9818,
      0x7F6A0DBB, 0x086D3D2D, 0x91646C97, 0xE6635C01,
      0x6B6B51F4, 0x1C6C6162, 0x856530D8, 0xF262004E,
      0x6C0695ED, 0x1B01A57B, 0x8208F4C1, 0xF50FC457,
      0x65B0D9C6, 0x12B7E950, 0x8BBEB8EA, 0xFCB9887C,
      0x62DD1DDF, 0x15DA2D49, 0x8CD37CF3, 0xFBD44C65,
      0x4DB26158, 0x3AB551CE, 0xA3BC0074, 0xD4BB30E2,
      0x4ADFA541, 0x3DD895D7, 0xA4D1C46D, 0xD3D6F4FB,
      0x4369E96A, 0x346ED9FC, 0xAD678846, 0xDA60B8D0,
      0x44042D73, 0x33031DE5, 0xAA0A4C5F, 0xDD0D7CC9,
      0x5005713C, 0x270241AA, 0xBE0B1010, 0xC90C2086,
      0x5768B525, 0x206F85B3, 0xB966D409, 0xCE61E49F,
      0x5EDEF90E, 0x29D9C998, 0xB0D09822, 0xC7D7A8B4,
      0x59B33D17, 0x2EB40D81, 0xB7BD5C3B, 0xC0BA6CAD,
      0xEDB88320, 0x9ABFB3B6, 0x03B6E20C, 0x74B1D29A,
      0xEAD54739, 0x9DD277AF, 0x04DB2615, 0x73DC1683,
      0xE3630B12, 0x94643B84, 0x0D6D6A3E, 0x7A6A5AA8,
      0xE40ECF0B, 0x9309FF9D, 0x0A00AE27, 0x7D079EB1,
      0xF00F9344, 0x8708A3D2, 0x1E01F268, 0x6906C2FE,
      0xF762575D, 0x806567CB, 0x196C3671, 0x6E6B06E7,
      0xFED41B76, 0x89D32BE0, 0x10DA7A5A, 0x67DD4ACC,
      0xF9B9DF6F, 0x8EBEEFF9, 0x17B7BE43, 0x60B08ED5,
      0xD6D6A3E8, 0xA1D1937E, 0x38D8C2C4, 0x4FDFF252,
      0xD1BB67F1, 0xA6BC5767, 0x3FB506DD, 0x48B2364B,
      0xD80D2BDA, 0xAF0A1B4C, 0x36034AF6, 0x41047A60,
      0xDF60EFC3, 0xA867DF55, 0x316E8EEF, 0x4669BE79,
      0xCB61B38C, 0xBC66831A, 0x256FD2A0, 0x5268E236,
      0xCC0C7795, 0xBB0B4703, 0x220216B9, 0x5505262F,
      0xC5BA3BBE, 0xB2BD0B28, 0x2BB45A92, 0x5CB36A04,
      0xC2D7FFA7, 0xB5D0CF31, 0x2CD99E8B, 0x5BDEAE1D,
      0x9B64C2B0, 0xEC63F226, 0x756AA39C, 0x026D930A,
      0x9C0906A9, 0xEB0E363F, 0x72076785, 0x05005713,
      0x95BF4A82, 0xE2B87A14, 0x7BB12BAE, 0x0CB61B38,
      0x92D28E9B, 0xE5D5BE0D, 0x7CDCEFB7, 0x0BDBDF21,
      0x86D3D2D4, 0xF1D4E242, 0x68DDB3F8, 0x1FDA836E,
      0x81BE16CD, 0xF6B9265B, 0x6FB077E1, 0x18B74777,
      0x88085AE6, 0xFF0F6A70, 0x66063BCA, 0x11010B5C,
      0x8F659EFF, 0xF862AE69, 0x616BFFD3, 0x166CCF45,
      0xA00AE278, 0xD70DD2EE, 0x4E048354, 0x3903B3C2,
      0xA7672661, 0xD06016F7, 0x4969474D, 0x3E6E77DB,
      0xAED16A4A, 0xD9D65ADC, 0x40DF0B66, 0x37D83BF0,
      0xA9BCAE53, 0xDEBB9EC5, 0x47B2CF7F, 0x30B5FFE9,
      0xBDBDF21C, 0xCABAC28A, 0x53B39330, 0x24B4A3A6,
      0xBAD03605, 0xCDD70693, 0x54DE5729, 0x23D967BF,
      0xB3667A2E, 0xC4614AB8, 0x5D681B02, 0x2A6F2B94,
      0xB40BBE37, 0xC30C8EA1, 0x5A05DF1B, 0x2D02EF8D]"

definition crc32_tab :: "u32 list" where
  "crc32_tab =
     [0x00000000, 0x77073096, 0xEE0E612C, 0x990951BA, 0x076DC419, 0x706AF48F,
      0xE963A535, 0x9E6495A3, 0x0EDB8832, 0x79DCB8A4, 0xE0D5E91E, 0x97D2D988,
      0x09B64C2B, 0x7EB17CBD, 0xE7B82D07, 0x90BF1D91, 0x1DB71064, 0x6AB020F2,
      0xF3B97148, 0x84BE41DE, 0x1ADAD47D, 0x6DDDE4EB, 0xF4D4B551, 0x83D385C7,
      0x136C9856, 0x646BA8C0, 0xFD62F97A, 0x8A65C9EC, 0x14015C4F, 0x63066CD9,
      0xFA0F3D63, 0x8D080DF5, 0x3B6E20C8, 0x4C69105E, 0xD56041E4, 0xA2677172,
      0x3C03E4D1, 0x4B04D447, 0xD20D85FD, 0xA50AB56B, 0x35B5A8FA, 0x42B2986C,
      0xDBBBC9D6, 0xACBCF940, 0x32D86CE3, 0x45DF5C75, 0xDCD60DCF, 0xABD13D59,
      0x26D930AC, 0x51DE003A, 0xC8D75180, 0xBFD06116, 0x21B4F4B5, 0x56B3C423,
      0xCFBA9599, 0xB8BDA50F, 0x2802B89E, 0x5F058808, 0xC60CD9B2, 0xB10BE924,
      0x2F6F7C87, 0x58684C11, 0xC1611DAB, 0xB6662D3D, 0x76DC4190, 0x01DB7106,
      0x98D220BC, 0xEFD5102A, 0x71B18589, 0x06B6B51F, 0x9FBFE4A5, 0xE8B8D433,
      0x7807C9A2, 0x0F00F934, 0x9609A88E, 0xE10E9818, 0x7F6A0DBB, 0x086D3D2D,
      0x91646C97, 0xE6635C01, 0x6B6B51F4, 0x1C6C6162, 0x856530D8, 0xF262004E,
      0x6C0695ED, 0x1B01A57B, 0x8208F4C1, 0xF50FC457, 0x65B0D9C6, 0x12B7E950,
      0x8BBEB8EA, 0xFCB9887C, 0x62DD1DDF, 0x15DA2D49, 0x8CD37CF3, 0xFBD44C65,
      0x4DB26158, 0x3AB551CE, 0xA3BC0074, 0xD4BB30E2, 0x4ADFA541, 0x3DD895D7,
      0xA4D1C46D, 0xD3D6F4FB, 0x4369E96A, 0x346ED9FC, 0xAD678846, 0xDA60B8D0,
      0x44042D73, 0x33031DE5, 0xAA0A4C5F, 0xDD0D7CC9, 0x5005713C, 0x270241AA,
      0xBE0B1010, 0xC90C2086, 0x5768B525, 0x206F85B3, 0xB966D409, 0xCE61E49F,
      0x5EDEF90E, 0x29D9C998, 0xB0D09822, 0xC7D7A8B4, 0x59B33D17, 0x2EB40D81,
      0xB7BD5C3B, 0xC0BA6CAD, 0xEDB88320, 0x9ABFB3B6, 0x03B6E20C, 0x74B1D29A,
      0xEAD54739, 0x9DD277AF, 0x04DB2615, 0x73DC1683, 0xE3630B12, 0x94643B84,
      0x0D6D6A3E, 0x7A6A5AA8, 0xE40ECF0B, 0x9309FF9D, 0x0A00AE27, 0x7D079EB1,
      0xF00F9344, 0x8708A3D2, 0x1E01F268, 0x6906C2FE, 0xF762575D, 0x806567CB,
      0x196C3671, 0x6E6B06E7, 0xFED41B76, 0x89D32BE0, 0x10DA7A5A, 0x67DD4ACC,
      0xF9B9DF6F, 0x8EBEEFF9, 0x17B7BE43, 0x60B08ED5, 0xD6D6A3E8, 0xA1D1937E,
      0x38D8C2C4, 0x4FDFF252, 0xD1BB67F1, 0xA6BC5767, 0x3FB506DD, 0x48B2364B,
      0xD80D2BDA, 0xAF0A1B4C, 0x36034AF6, 0x41047A60, 0xDF60EFC3, 0xA867DF55,
      0x316E8EEF, 0x4669BE79, 0xCB61B38C, 0xBC66831A, 0x256FD2A0, 0x5268E236,
      0xCC0C7795, 0xBB0B4703, 0x220216B9, 0x5505262F, 0xC5BA3BBE, 0xB2BD0B28,
      0x2BB45A92, 0x5CB36A04, 0xC2D7FFA7, 0xB5D0CF31, 0x2CD99E8B, 0x5BDEAE1D,
      0x9B64C2B0, 0xEC63F226, 0x756AA39C, 0x026D930A, 0x9C0906A9, 0xEB0E363F,
      0x72076785, 0x05005713, 0x95BF4A82, 0xE2B87A14, 0x7BB12BAE, 0x0CB61B38,
      0x92D28E9B, 0xE5D5BE0D, 0x7CDCEFB7, 0x0BDBDF21, 0x86D3D2D4, 0xF1D4E242,
      0x68DDB3F8, 0x1FDA836E, 0x81BE16CD, 0xF6B9265B, 0x6FB077E1, 0x18B74777,
      0x88085AE6, 0xFF0F6A70, 0x66063BCA, 0x11010B5C, 0x8F659EFF, 0xF862AE69,
      0x616BFFD3, 0x166CCF45, 0xA00AE278, 0xD70DD2EE, 0x4E048354, 0x3903B3C2,
      0xA7672661, 0xD06016F7, 0x4969474D, 0x3E6E77DB, 0xAED16A4A, 0xD9D65ADC,
      0x40DF0B66, 0x37D83BF0, 0xA9BCAE53, 0xDEBB9EC5, 0x47B2CF7F, 0x30B5FFE9,
      0xBDBDF21C, 0xCABAC28A, 0x53B39330, 0x24B4A3A6, 0xBAD03605, 0xCDD70693,
      0x54DE5729, 0x23D967BF, 0xB3667A2E, 0xC4614AB8, 0x5D681B02, 0x2A6F2B94,
      0xB40BBE37, 0xC30C8EA1, 0x5A05DF1B, 0x2D02EF8D]"

text \<open>One byte of the table-driven loop, as the two files write it.\<close>

definition crc_table_step :: "u32 \<Rightarrow> u8 \<Rightarrow> u32" where
  "crc_table_step CRC32_data b =
     (let t = (CRC32_data XOR ucast b) AND 0xFF
      in (drop_bit 8 CRC32_data AND 0xFFFFFF) XOR CRC32_table ! unat t)"

definition crc_tab_step :: "u32 \<Rightarrow> u8 \<Rightarrow> u32" where
  "crc_tab_step crc b = crc32_tab ! unat ((crc XOR ucast b) AND 0xFF) XOR drop_bit 8 crc"

definition GetCRC32 :: "u8 list \<Rightarrow> u32 \<Rightarrow> u32 run" where
  "GetCRC32 buf len =
     (if length buf < unat len then Fault
      else Ret (NOT (foldl crc_table_step 0xFFFFFFFF (take (unat len) buf))))"

text \<open>\<open>buf\<close> is the byte view of the \<^verbatim>\<open>uint32_t\<close> array; \<open>len * 4\<close> is 32-bit.\<close>

definition crc32_32 :: "u8 list \<Rightarrow> u32 \<Rightarrow> u32 run" where
  "crc32_32 buf len =
     (let len4 = len * 4
      in if length buf < unat len4 then Fault
         else Ret (NOT (foldl crc_table_step 0xFFFFFFFF (take (unat len4) buf))))"

text \<open>
  The TILE-Gx build: \<open>insn\<close> is the CRC instruction, a failing \<^verbatim>\<open>assert\<close> is a fault.
\<close>

definition crc32_32_tile :: "(u32 \<Rightarrow> u32 \<Rightarrow> u32) \<Rightarrow> u32 list \<Rightarrow> u32 \<Rightarrow> u32 run" where
  "crc32_32_tile insn buf len =
     (if len < 2 then Fault
      else if length buf < 2 \<or> length buf < unat (len - 2) then Fault
      else Ret (foldl (\<lambda>crc_temp i. insn crc_temp (buf ! i)) (insn (buf ! 0) (buf ! 1))
                  [2..<unat (len - 2)]))"

definition crc32 :: "u32 \<Rightarrow> u8 list \<Rightarrow> nat \<Rightarrow> u32 run" where
  "crc32 crc buf n =
     (if length buf < n then Fault
      else Ret (foldl crc_tab_step (crc XOR NOT 0) (take n buf) XOR NOT 0))"

section \<open>Folding the carries\<close>

lemma unat_drop_16: "unat (drop_bit 16 (s::u32)) = unat s div 65536"
  using unsigned_drop_bit_eq [of 16 s, where 'a = nat] by (simp add: drop_bit_eq_div take_bit_nat_eq_self unat_div)

lemma unat_fold_step:
  fixes s :: u32
  shows "unat (drop_bit 16 s + (s AND 0xFFFF)) = unat s div 65536 + unat s mod 65536"
proof -
  have "unat s < 2 ^ LENGTH(32)" by (rule unsigned_less)
  then have "unat s div 65536 + unat s mod 65536 < 2 ^ LENGTH(32)" by simp
  moreover have "unat (drop_bit 16 s) = unat s div 65536"
    by (rule unat_drop_16)
  moreover have "unat (s AND 0xFFFF) = unat s mod 65536"
    using unat_mask_and [of s 16] by simp
  ultimately show ?thesis by (simp add: unat_add_small)
qed

lemma drop_bit_16_zero: "drop_bit 16 (s::u32) = 0 \<longleftrightarrow> unat s < 65536"
proof -
  have "unat (drop_bit 16 s) = unat s div 65536"
    by (rule unat_drop_16)
  then show ?thesis by (metis div_eq_0_iff unat_eq_zero zero_neq_numeral)
qed

termination fold_carries
proof (relation "measure unat")
  fix s :: u32
  assume "drop_bit 16 s \<noteq> 0"
  then have "0 < unat s div 65536" by (simp add: drop_bit_16_zero div_greater_zero_iff)
  moreover have "unat s = 65536 * (unat s div 65536) + unat s mod 65536" by simp
  ultimately show "(drop_bit 16 s + (s AND 0xFFFF), s) \<in> measure unat"
    unfolding in_measure unat_fold_step by linarith
qed simp

declare fold_carries.simps [simp del]

text \<open>The fold is arithmetic modulo 65535, with 65535 rather than 0 for a non-zero sum.\<close>

definition ones_complement :: "nat \<Rightarrow> nat" where
  "ones_complement n = (if n = 0 then 0 else (n - 1) mod 65535 + 1)"

lemma ones_complement_fold:
  "ones_complement (n div 65536 + n mod 65536) = ones_complement n"
proof (cases "n = 0")
  case False
  define q r where "q = n div 65536" and "r = n mod 65536"
  have n: "n = 65536 * q + r" by (simp add: q_def r_def)
  with False have pos: "0 < q + r" by auto
  have "n - 1 = 65535 * q + (q + r - 1)" using pos n by simp
  then have "(n - 1) mod 65535 = (q + r - 1) mod 65535" by simp
  with pos False show ?thesis by (auto simp: ones_complement_def q_def r_def)
qed simp

lemma unat_fold_carries: "unat (fold_carries s) = ones_complement (unat s)"
proof (induction s rule: fold_carries.induct)
  case (1 s)
  show ?case
  proof (cases "drop_bit 16 s = 0")
    case True
    then have "unat s < 65536" by (simp add: drop_bit_16_zero)
    then have "ones_complement (unat s) = unat s" by (simp add: ones_complement_def mod_less)
    with True show ?thesis by (simp add: fold_carries.simps [of s])
  next
    case False
    with 1 show ?thesis
      by (simp add: fold_carries.simps [of s] unat_fold_step ones_complement_fold)
  qed
qed

lemma ones_complement_le: "ones_complement n \<le> 65535"
proof (cases "n = 0")
  case False
  have "(n - 1) mod 65535 < 65535" by (rule mod_less_divisor) simp
  with False show ?thesis unfolding ones_complement_def by simp
qed (simp add: ones_complement_def)

lemma unat_sum_words:
  assumes "unat acc + 65535 * length ws < 2 ^ 32"
  shows "unat (sum_words ws acc) = unat acc + sum_list (map unat ws)"
  using assms
proof (induction ws arbitrary: acc)
  case Nil
  then show ?case by (simp add: sum_words_def)
next
  case (Cons w ws)
  have w: "unat w \<le> 65535" using unsigned_less [of w, where 'a = nat] by simp
  then have "unat (acc + ucast w) = unat acc + unat w"
    using Cons.prems by (simp add: unat_add_small unat_ucast_up)
  with Cons.IH [of "acc + ucast w"] Cons.prems w show ?case
    by (simp add: sum_words_def)
qed

text \<open>A sum completed by the complement of its fold folds to all ones.\<close>

lemma ones_complement_complete: "ones_complement (n + (65535 - ones_complement n)) = 65535"
proof (cases "n = 0")
  case True
  then show ?thesis by (simp add: ones_complement_def)
next
  case False
  define q r where "q = (n - 1) div 65535" and "r = (n - 1) mod 65535"
  have r: "r < 65535" by (simp add: r_def)
  have n: "n = 65535 * q + r + 1" using False by (simp add: q_def r_def)
  have "ones_complement n = r + 1" using False by (simp add: ones_complement_def r_def)
  then have "n + (65535 - ones_complement n) = 65535 * q + 65534 + 1" using n r by simp
  moreover have "(65535 * q + 65534) mod 65535 = 65534" by simp
  ultimately show ?thesis by (simp add: ones_complement_def)
qed

lemma unat_not_16: "unat (NOT (w::u16)) = 65535 - unat w"
proof -
  have "NOT w = - 1 - w" by (simp add: not_eq_complement)
  moreover have "unat (- 1 - w) = unat (- 1 :: u16) - unat w" by (rule unat_sub) simp
  ultimately show ?thesis by (simp add: unsigned_minus_1_eq_mask mask_eq_exp_minus_1)
qed

lemma sum_list_update_nat:
  fixes xs :: "nat list"
  assumes "i < length xs" "xs ! i = 0"
  shows "sum_list (xs[i := v]) = sum_list xs + v"
  using assms by (simp add: sum_list_update)

lemma ip_xsum_eq:
  assumes "length buff < 65536" "n \<le> length buff"
  shows "ip_xsum buff (int n) 0
         = Ret (of_nat (ones_complement (sum_list (map unat (take n buff)))))"
proof -
  have "unat (sum_words (take n buff) 0) = sum_list (map unat (take n buff))"
    using unat_sum_words [of 0 "take n buff"] assms by simp
  then have "unat (fold_carries (sum_words (take n buff) 0))
             = ones_complement (sum_list (map unat (take n buff)))"
    by (simp add: unat_fold_carries)
  then have "ucast (fold_carries (sum_words (take n buff) 0))
             = (of_nat (ones_complement (sum_list (map unat (take n buff)))) :: u16)"
    by (metis of_nat_unat)
  with assms show ?thesis by (simp add: ip_xsum_def)
qed

lemma checksum_ip_Ret:
  assumes "checksum_ip hdr = Ret h"
  shows "6 \<le> length hdr" "length h = length hdr" "ihl_of h = ihl_of hdr"
    "2 * ihl_of hdr \<le> length hdr"
    "h = hdr[5 := NOT (ucast (fold_carries (sum_words (take (2 * ihl_of hdr) (hdr[5 := 0])) 0)))]"
  using assms
  by (auto simp: checksum_ip_def ihl_of_def Let_def mult.commute split: if_splits)

lemma checksum_ip_returns:
  "6 \<le> length hdr \<Longrightarrow> ihl_of hdr * 2 \<le> length hdr \<Longrightarrow> \<exists>h. checksum_ip hdr = Ret h"
  by (simp add: checksum_ip_def ihl_of_def Let_def)

lemma ihl_of_less: "ihl_of hdr < 16"
  using unat_mask_and [of "hdr ! 0" 4] by (simp add: ihl_of_def)

lemma unat_checksum_field:
  assumes "checksum_ip hdr = Ret h"
  shows "unat (h ! 5)
    = 65535 - ones_complement (sum_list (map unat (take (2 * ihl_of hdr) (hdr[5 := 0]))))"
proof -
  let ?ws = "take (2 * ihl_of hdr) (hdr[5 := 0])"
  note R = checksum_ip_Ret [OF assms]
  have "length ?ws \<le> 30" using ihl_of_less [of hdr] by simp
  then have s: "unat (fold_carries (sum_words ?ws 0)) = ones_complement (sum_list (map unat ?ws))"
    by (simp add: unat_fold_carries unat_sum_words)
  have "unat (ucast (fold_carries (sum_words ?ws 0)) :: u16) = unat (fold_carries (sum_words ?ws 0))"
    using ones_complement_le [of "sum_list (map unat ?ws)"] by (intro unat_ucast_small) (simp add: s)
  then show ?thesis using R by (simp add: unat_not_16 s)
qed

lemma checksum_ip_verifies:
  assumes "checksum_ip hdr = Ret h" "3 \<le> ihl_of hdr"
  shows "ip_xsum h (2 * int (ihl_of h)) 0 = Ret 0xFFFF"
proof -
  let ?n = "2 * ihl_of hdr"
  note R = checksum_ip_Ret [OF assms(1)]
  let ?z = "map unat (take ?n (hdr[5 := 0]))"
  have "h = (hdr[5 := 0])[5 := h ! 5]" using R by simp
  then have "map unat (take ?n h) = ?z[5 := unat (h ! 5)]"
    by (metis map_update take_update_swap)
  moreover have "5 < length ?z" "?z ! 5 = 0" using R assms(2) by auto
  ultimately have "sum_list (map unat (take ?n h)) = sum_list ?z + unat (h ! 5)"
    by (simp add: sum_list_update_nat)
  then have "ones_complement (sum_list (map unat (take ?n h))) = 65535"
    using unat_checksum_field [OF assms(1)] by (simp add: ones_complement_complete)
  moreover have "?n \<le> length (take ?n h)" using R by simp
  moreover have "length (take ?n h) < 65536" using ihl_of_less [of hdr] by simp
  ultimately have "ip_xsum (take ?n h) (int ?n) 0 = Ret 0xFFFF"
    using ip_xsum_eq [of "take ?n h" ?n] by simp
  moreover have "ip_xsum (take ?n h) (int ?n) 0 = ip_xsum h (int ?n) 0"
    using R by (simp add: ip_xsum_def)
  ultimately show ?thesis using R by simp
qed

section \<open>CRC-32 against its bitwise reference\<close>

definition crc_bit :: "u32 \<Rightarrow> u32" where
  "crc_bit c = (if odd c then drop_bit 1 c XOR 0xEDB88320 else drop_bit 1 c)"

definition crc_byte :: "u32 \<Rightarrow> u8 \<Rightarrow> u32" where
  "crc_byte c b = (crc_bit ^^ 8) (c XOR ucast b)"

definition crc_ref :: "u32 \<Rightarrow> u8 list \<Rightarrow> u32" where
  "crc_ref c bs = NOT (foldl crc_byte (NOT c) bs)"

lemma crc_bit_xor: "crc_bit (a XOR b) = crc_bit a XOR crc_bit b"
proof -
  have "odd (a XOR b) \<longleftrightarrow> odd a \<noteq> odd b" by (simp add: even_xor_iff)
  moreover have "drop_bit 1 (a XOR b) = drop_bit 1 a XOR drop_bit 1 b" by (rule drop_bit_xor)
  ultimately show ?thesis
    by (auto simp: crc_bit_def xor.assoc xor.commute xor.left_commute simp del: One_nat_def)
qed

lemma crc_bits_xor: "(crc_bit ^^ n) (a XOR b) = (crc_bit ^^ n) a XOR (crc_bit ^^ n) b"
  by (induction n) (simp_all add: crc_bit_xor)

lemma crc_bits_high:
  assumes "take_bit n w = 0"
  shows "(crc_bit ^^ n) w = drop_bit n w"
  using assms
proof (induction n arbitrary: w)
  case (Suc n)
  have e: "even w" using Suc.prems even_take_bit_eq [of "Suc n" w] by simp
  have "take_bit n (drop_bit 1 w) = 0"
    using Suc.prems by (metis drop_bit_of_0 drop_bit_take_bit diff_Suc_1)
  with Suc.IH [of "drop_bit 1 w"] e show ?case
    by (simp add: funpow_Suc_right crc_bit_def del: funpow.simps)
qed simp

text \<open>The table's rows, checked one by one by evaluation.\<close>

definition crc_bits8 :: "u32 \<Rightarrow> u32" where
  "crc_bits8 c = crc_bit (crc_bit (crc_bit (crc_bit (crc_bit (crc_bit (crc_bit (crc_bit c)))))))"

lemma crc_bits8_eq: "(crc_bit ^^ 8) c = crc_bits8 c"
  by (simp add: crc_bits8_def eval_nat_numeral)

primrec crc_rows :: "u32 \<Rightarrow> u32 list \<Rightarrow> bool" where
  "crc_rows i [] = True"
| "crc_rows i (x # xs) = (x = crc_bits8 i \<and> crc_rows (i + 1) xs)"

lemma crc_rows_nth: "crc_rows i xs \<Longrightarrow> j < length xs \<Longrightarrow> xs ! j = crc_bits8 (i + of_nat j)"
  by (induction xs arbitrary: i j) (auto simp: nth_Cons add.assoc split: nat.split)

lemma CRC32_table_rows: "crc_rows 0 CRC32_table"
  by (simp add: CRC32_table_def crc_bits8_def crc_bit_def)

lemma CRC32_table_length: "length CRC32_table = 256"
  by (simp add: CRC32_table_def)

lemma crc32_tab_eq: "crc32_tab = CRC32_table"
  by (simp add: CRC32_table_def crc32_tab_def)

lemma CRC32_table_nth: "n < 256 \<Longrightarrow> CRC32_table ! n = (crc_bit ^^ 8) (of_nat n)"
  using crc_rows_nth [OF CRC32_table_rows, of n] by (simp add: CRC32_table_length crc_bits8_eq)

text \<open>One table step is eight bit steps: the low byte indexes the table, the rest shifts.\<close>

lemma crc_bits8_split:
  "(crc_bit ^^ 8) w = CRC32_table ! unat (w AND 0xFF) XOR drop_bit 8 w"
proof -
  let ?lo = "w AND 0xFF" and ?hi = "w AND NOT 0xFF"
  have m: "(0xFF :: u32) = mask 8" by (simp add: mask_eq_exp_minus_1)
  have w: "w = ?lo XOR ?hi" by (rule bit_word_eqI) (auto simp: bit_simps m)
  have "unat ?lo < 256" using unat_mask_and [of w 8] by simp
  then have lo: "(crc_bit ^^ 8) ?lo = CRC32_table ! unat ?lo"
    by (simp add: CRC32_table_nth)
  have "take_bit 8 ?hi = 0" by (rule bit_word_eqI) (auto simp: bit_simps m)
  then have hi: "(crc_bit ^^ 8) ?hi = drop_bit 8 ?hi" by (rule crc_bits_high)
  have "drop_bit 8 ?hi = drop_bit 8 w"
    by (rule bit_word_eqI) (auto simp: bit_simps m dest: bit_imp_le_length)
  with lo hi show ?thesis using crc_bits_xor [of 8 ?lo ?hi] w by simp
qed

lemma drop_bit_8_byte: "drop_bit 8 (ucast (b::u8) :: u32) = 0"
proof (rule bit_word_eqI)
  fix n
  show "bit (drop_bit 8 (ucast b :: u32)) n = bit (0::u32) n"
    using bit_imp_le_length [of b "8 + n"] by (auto simp: bit_simps)
qed

lemma crc_tab_step_byte: "crc_tab_step c b = crc_byte c b"
  by (simp add: crc_tab_step_def crc_byte_def crc_bits8_split crc32_tab_eq drop_bit_xor
      drop_bit_8_byte)

lemma crc_table_step_byte: "crc_table_step c b = crc_byte c b"
proof -
  have "drop_bit 8 c AND 0xFFFFFF = (drop_bit 8 c :: u32)"
  proof (rule bit_word_eqI)
    fix n
    assume "n < LENGTH(32)"
    have m: "(0xFFFFFF :: u32) = mask 24" by (simp add: mask_eq_exp_minus_1)
    show "bit (drop_bit 8 c AND 0xFFFFFF) n = bit (drop_bit 8 c) n"
      using bit_imp_le_length [of c "8 + n"] by (auto simp: bit_simps m)
  qed
  then show ?thesis
    by (simp add: crc_table_step_def crc_byte_def crc_bits8_split drop_bit_xor drop_bit_8_byte
        xor.commute)
qed

lemma all_ones_32: "(0xFFFFFFFF :: u32) = - 1"
  by simp

lemma GetCRC32_eq: "GetCRC32 buf len =
    (if length buf < unat len then Fault else Ret (crc_ref 0 (take (unat len) buf)))"
  unfolding GetCRC32_def crc_ref_def all_ones_32 crc_table_step_byte [abs_def] by simp

lemma crc32_eq: "crc32 crc buf n =
    (if length buf < n then Fault else Ret (crc_ref crc (take n buf)))"
  by (simp add: crc32_def crc_ref_def crc_tab_step_byte [abs_def])

lemma crc32_32_eq: "crc32_32 buf len = GetCRC32 buf (len * 4)"
  by (simp add: crc32_32_def GetCRC32_def Let_def)

lemma crc_ref_append: "crc_ref c (xs @ ys) = crc_ref (crc_ref c xs) ys"
  by (simp add: crc_ref_def)

text \<open>A bit step loses nothing: bit 31 of its result tells whether the polynomial was added.\<close>

lemma crc_bit_inj: "crc_bit a = crc_bit b \<Longrightarrow> a = b"
proof -
  have top: "bit (crc_bit c) 31 \<longleftrightarrow> odd c" for c :: u32
    using bit_imp_le_length [of c 32] by (auto simp: crc_bit_def bit_simps)
  assume eq: "crc_bit a = crc_bit b"
  with top [of a] top [of b] have odd: "odd a \<longleftrightarrow> odd b" by simp
  have cancel: "x = y" if "x XOR k = y XOR k" for x y k :: u32
    using arg_cong [where f = "\<lambda>z. z XOR k", OF that] by (simp add: xor.assoc)
  from eq odd have "drop_bit 1 a = drop_bit 1 b"
    by (auto simp: crc_bit_def simp del: One_nat_def dest: cancel split: if_splits)
  then have "bit a (Suc n) = bit b (Suc n)" for n by (metis bit_drop_bit_eq comp_apply plus_1_eq_Suc)
  moreover have "bit a 0 = bit b 0" using odd by (simp add: bit_0)
  ultimately have "bit a n = bit b n" for n by (cases n) auto
  then show "a = b" by (intro bit_word_eqI) auto
qed

lemma crc_bits_inj: "(crc_bit ^^ n) a = (crc_bit ^^ n) b \<Longrightarrow> a = b"
  by (induction n) (auto dest: crc_bit_inj)

lemma xor_right_cancel: "(a::u32) XOR b = a XOR c \<Longrightarrow> b = c"
  by (metis xor.assoc xor_self_eq xor.left_neutral)

lemma crc_byte_inj_state: "crc_byte a x = crc_byte b x \<Longrightarrow> a = b"
  unfolding crc_byte_def by (metis crc_bits_inj xor_right_cancel xor.commute)

lemma crc_byte_inj_data: "crc_byte a x = crc_byte a y \<Longrightarrow> x = y"
proof -
  assume "crc_byte a x = crc_byte a y"
  then have "(ucast x :: u32) = ucast y"
    unfolding crc_byte_def by (metis crc_bits_inj xor_right_cancel)
  then have "unat (ucast x :: u32) = unat (ucast y :: u32)" by simp
  then show "x = y" by (intro unsigned_word_eqI) (simp add: unat_ucast_up)
qed

lemma crc_bytes_inj_state: "foldl crc_byte a bs = foldl crc_byte b bs \<Longrightarrow> a = b"
  by (induction bs arbitrary: a b) (auto dest: crc_byte_inj_state)

lemma crc_ref_detects:
  assumes "crc_ref c (xs @ x # zs) = crc_ref c (xs @ y # zs)"
  shows "x = y"
proof -
  have "NOT (foldl crc_byte (NOT c) (xs @ x # zs)) = NOT (foldl crc_byte (NOT c) (xs @ y # zs))"
    using assms by (simp only: crc_ref_def)
  then have "foldl crc_byte (NOT c) (xs @ x # zs) = foldl crc_byte (NOT c) (xs @ y # zs)"
    by (metis bit.double_compl)
  then show ?thesis by (auto dest: crc_bytes_inj_state crc_byte_inj_data)
qed

text \<open>The TILE-Gx loop stops two words early: it subtracts the two words it has consumed
  from a length that its index also counts.\<close>

lemma crc32_32_tile_ignores:
  assumes "2 \<le> len" "unat len \<le> length buf" "unat len \<le> i + 2" "2 \<le> i"
  shows "crc32_32_tile insn (buf[i := v]) len = crc32_32_tile insn buf len"
proof -
  have "unat (len - 2) = unat len - 2" using assms(1) by (simp add: unat_sub)
  then have "buf[i := v] ! j = buf ! j" if "j \<in> set [2..<unat (len - 2)]" for j
    using assms that by (intro nth_list_update_neq) auto
  then have "foldl (\<lambda>crc_temp j. insn crc_temp (buf[i := v] ! j)) x [2..<unat (len - 2)]
             = foldl (\<lambda>crc_temp j. insn crc_temp (buf ! j)) x [2..<unat (len - 2)]" for x
    by (intro foldl_cong) auto
  with assms(4) show ?thesis by (simp add: crc32_32_tile_def)
qed

section \<open>Properties\<close>

text \<open>C38. A header that \<open>checksum_ip\<close> has stamped verifies: the one's-complement sum \<open>ip_xsum\<close> of
  its \<open>ihl * 2\<close> words is \<open>0xFFFF\<close>, whatever the header held before, provided that its \<open>ihl\<close> is at
  least 3, so that the checksum field is among the words.\<close>

theorem stamped_header_verifies:
  assumes "checksum_ip hdr = Ret h" "3 \<le> ihl_of hdr"
  shows "ip_xsum h (2 * int (ihl_of h)) 0 = Ret 0xFFFF"
  using assms by (rule checksum_ip_verifies)

theorem stamped_header_verifies_witness:
  "\<exists>h. checksum_ip [0x0045, 0x2E00, 0x3930, 0, 0x0640, 1, 0x000A, 0x0100, 0x000A, 0x0200] = Ret h
     \<and> ip_xsum h 10 0 = Ret 0xFFFF"
proof -
  let ?hdr = "[0x0045, 0x2E00, 0x3930, 0, 0x0640, 1, 0x000A, 0x0100, 0x000A, 0x0200] :: u16 list"
  have ihl: "ihl_of ?hdr = 5" by (simp add: ihl_of_def)
  have "6 \<le> length ?hdr" "ihl_of ?hdr * 2 \<le> length ?hdr" unfolding ihl by simp_all
  from checksum_ip_returns [OF this] obtain h where h: "checksum_ip ?hdr = Ret h" by blast
  have h5: "ihl_of h = 5" using checksum_ip_Ret(3) [OF h] unfolding ihl .
  have "ip_xsum h (2 * int (ihl_of h)) 0 = Ret 0xFFFF"
    by (rule stamped_header_verifies [OF h]) (simp only: ihl)
  then have "ip_xsum h 10 0 = Ret 0xFFFF" unfolding h5 by simp
  with h show ?thesis by blast
qed

text \<open>C36. The three table-driven loops of the Intel build, with their two literal tables of 256
  entries, all compute the CRC-32 with the reflected polynomial \<open>0xEDB88320\<close> that shifts one bit at
  a time; they fault exactly when the length exceeds the buffer, and \<open>crc32\<close> started from the CRC of
  a prefix gives the CRC of the whole.\<close>

theorem crc_copies_agree:
  "GetCRC32 buf len =
     (if length buf < unat len then Fault else Ret (crc_ref 0 (take (unat len) buf)))
   \<and> crc32 0 buf (unat len) = GetCRC32 buf len
   \<and> crc32_32 buf len = GetCRC32 buf (len * 4)
   \<and> crc32 (crc_ref 0 pre) buf (length buf) = Ret (crc_ref 0 (pre @ buf))"
  by (simp add: GetCRC32_eq crc32_eq crc32_32_eq crc_ref_append)

text \<open>C37. Two buffers of which one is the other with a single byte changed never have the same
  CRC.\<close>

theorem crc_detects_byte_change:
  assumes "i < unat len" "unat len \<le> length buf"
    and "GetCRC32 (buf[i := v]) len = GetCRC32 buf len"
  shows "buf[i := v] = buf"
proof -
  let ?b = "take (unat len) buf"
  have i: "i < length ?b" using assms by simp
  have eq: "crc_ref 0 (?b[i := v]) = crc_ref 0 (?b[i := ?b ! i])"
    using assms(2,3) unfolding list_update_id by (simp add: GetCRC32_eq take_update_swap)
  then have "v = ?b ! i"
    using crc_ref_detects i unfolding upd_conv_take_nth_drop [OF i] by blast
  then show ?thesis using assms(1) by simp
qed

theorem crc_detects_byte_change_witness:
  "GetCRC32 [1, 2, 3] 3 \<noteq> GetCRC32 [1, 9, 3] 3"
  using crc_detects_byte_change [of 1 3 "[1, 2, 3]" 9] by auto

text \<open>On TILE-Gx \<open>crc32_32\<close> does not depend on the last two words of its buffer, whatever the
  CRC instruction computes: corrupting either of them is never detected.\<close>

theorem tile_crc_ignores_tail:
  assumes "2 \<le> len" "unat len \<le> length buf" "unat len \<le> i + 2" "2 \<le> i"
  shows "crc32_32_tile insn (buf[i := v]) len = crc32_32_tile insn buf len"
  using assms by (rule crc32_32_tile_ignores)

theorem tile_crc_ignores_tail_witness:
  "crc32_32_tile (\<lambda>c w. crc_bits8 (c XOR w)) [1, 2, 3, 4, 99] 5
   = crc32_32_tile (\<lambda>c w. crc_bits8 (c XOR w)) [1, 2, 3, 4, 5] 5"
  using tile_crc_ignores_tail [of 5 "[1, 2, 3, 4, 5]" 4 "\<lambda>c w. crc_bits8 (c XOR w)" 99] by simp

end
