(* ===== verification/Next_Prime.thy ===== *)
theory Next_Prime
  imports Fp_Prelude
begin

text \<open>
  \<^verbatim>\<open>next_prime\<close> of \<^verbatim>\<open>src/hash.c\<close>, which sizes the hash tables. The candidate \<open>i\<close> is a \<^verbatim>\<open>long\<close> and
  is modelled without a bound; the result is converted to \<^verbatim>\<open>int\<close>. The outer loop has no bound in
  the code: that it ends is Euclid's theorem.
\<close>

section \<open>The code\<close>

text \<open>\<^verbatim>\<open>for (j = 2; j < i; j++) if (i % j == 0) { f = 0; break; }\<close>: whether \<open>f\<close> becomes 0.\<close>

function divisor_from :: "int \<Rightarrow> int \<Rightarrow> bool" where
  "divisor_from i j = (if j < i then (if i mod j = 0 then True else divisor_from i (j + 1)) else False)"
  by pat_completeness auto

termination divisor_from
  by (relation "measure (\<lambda>(i, j). nat (i - j))") auto

definition int_of_long :: "int \<Rightarrow> int" where
  "int_of_long i = sint (word_of_int i :: u32)"

partial_function (option) next_prime_from :: "int \<Rightarrow> int option" where
  "next_prime_from i =
     (if i = 0 then Some 0
      else if divisor_from (i + 1) 2 then next_prime_from (i + 1)
      else Some (int_of_long (i + 1)))"

definition next_prime :: "int \<Rightarrow> int option" where
  "next_prime x = next_prime_from (if x = 0 then 1 else x)"

section \<open>Primes\<close>

definition is_prime :: "int \<Rightarrow> bool" where
  "is_prime p \<longleftrightarrow> 2 \<le> p \<and> (\<forall>d. 2 \<le> d \<longrightarrow> d < p \<longrightarrow> \<not> d dvd p)"

declare divisor_from.simps [simp del]

lemma divisor_from_iff: "divisor_from i j \<longleftrightarrow> (\<exists>d. j \<le> d \<and> d < i \<and> d dvd i)"
proof (induction i j rule: divisor_from.induct)
  case (1 i j)
  have le: "j \<le> d \<longleftrightarrow> d = j \<or> j + 1 \<le> d" for d by auto
  have "(\<exists>d. j \<le> d \<and> d < i \<and> d dvd i) \<longleftrightarrow> j < i \<and> (j dvd i \<or> (\<exists>d. j + 1 \<le> d \<and> d < i \<and> d dvd i))"
    unfolding le by auto
  then show ?case
    using 1 by (subst divisor_from.simps) (auto simp: dvd_eq_mod_eq_0)
qed

lemma divisor_from_prime: "2 \<le> i \<Longrightarrow> divisor_from i 2 \<longleftrightarrow> \<not> is_prime i"
  by (auto simp: divisor_from_iff is_prime_def)

lemma prime_factor: "2 \<le> n \<Longrightarrow> \<exists>p. is_prime p \<and> p dvd n"
proof (induction "nat n" arbitrary: n rule: less_induct)
  case less
  show ?case
  proof (cases "is_prime n")
    case False
    then obtain d where d: "2 \<le> d" "d < n" "d dvd n" using less.prems by (auto simp: is_prime_def)
    with less.hyps [of d] obtain p where "is_prime p" "p dvd d" by auto
    with d show ?thesis by (meson dvd_trans)
  qed auto
qed

lemma prime_above: "\<exists>p. is_prime p \<and> x < p"
proof -
  define n where "n = nat \<bar>x\<bar>"
  define N where "N = int (fact n) + 1"
  obtain p where p: "is_prime p" "p dvd N"
    using prime_factor [of N] fact_ge_1 [of n, where 'a = int] by (auto simp: N_def)
  have "x < p"
  proof (rule ccontr)
    assume "\<not> x < p"
    then have "nat p \<le> n" "1 \<le> nat p" using p(1) by (auto simp: n_def is_prime_def)
    then have "nat p dvd fact n" by (rule dvd_fact [rotated])
    then have "p dvd int (fact n)" using p(1) by (metis int_dvd_int_iff nat_0_le is_prime_def order_trans zero_le_numeral)
    then have "p dvd 1" using p(2) by (metis N_def dvd_add_right_iff)
    then show False using p(1) by (auto simp: is_prime_def)
  qed
  with p(1) show ?thesis by blast
qed

section \<open>The loop finds the next prime\<close>

definition least_prime_above :: "int \<Rightarrow> int \<Rightarrow> bool" where
  "least_prime_above x p \<longleftrightarrow> is_prime p \<and> x < p \<and> (\<forall>q. is_prime q \<longrightarrow> x < q \<longrightarrow> p \<le> q)"

lemma next_prime_from_prime:
  assumes "is_prime p" "0 < x" "x < p"
  shows "\<exists>q. next_prime_from x = Some (int_of_long q) \<and> least_prime_above x q"
  using assms
proof (induction "nat (p - x)" arbitrary: x rule: less_induct)
  case less
  show ?case
  proof (cases "is_prime (x + 1)")
    case True
    with less.prems show ?thesis
      by (auto simp: next_prime_from.simps [of x] divisor_from_prime least_prime_above_def)
  next
    case False
    with less.prems have "x + 1 < p" by (metis order_le_imp_less_or_eq zless_imp_add1_zle)
    with less.hyps [of "x + 1"] less.prems
    obtain q where q: "next_prime_from (x + 1) = Some (int_of_long q)" "least_prime_above (x + 1) q"
      by auto
    have "least_prime_above x q" unfolding least_prime_above_def
    proof (intro conjI allI impI)
      fix r assume "is_prime r" "x < r"
      then have "x + 1 < r" using False by (metis order_le_imp_less_or_eq zless_imp_add1_zle)
      with q(2) \<open>is_prime r\<close> show "q \<le> r" by (auto simp: least_prime_above_def)
    qed (use q(2) in \<open>auto simp: least_prime_above_def\<close>)
    with q(1) less.prems False show ?thesis
      by (auto simp: next_prime_from.simps [of x] divisor_from_prime)
  qed
qed

lemma next_prime_negative:
  assumes "x < 0"
  shows "next_prime x = Some (int_of_long (x + 1))"
  using assms by (simp add: next_prime_def next_prime_from.simps divisor_from.simps)

lemma int_of_long_small: "- (2 ^ 31) \<le> i \<Longrightarrow> i < 2 ^ 31 \<Longrightarrow> int_of_long i = i"
  by (simp add: int_of_long_def signed_of_int signed_take_bit_int_eq_self)

lemma int_of_long_wraps: "2 ^ 31 \<le> i \<Longrightarrow> i < 2 ^ 32 \<Longrightarrow> int_of_long i = i - 2 ^ 32"
proof -
  assume i: "2 ^ 31 \<le> i" "i < 2 ^ 32"
  have "(word_of_int (i - 2 ^ 32) :: u32) = word_of_int i" by (simp add: word_of_int_eq_iff take_bit_eq_mod)
  then have "int_of_long i = int_of_long (i - 2 ^ 32)" by (simp only: int_of_long_def)
  then show ?thesis using i int_of_long_small [of "i - 2 ^ 32"] by simp
qed

section \<open>Property\<close>

text \<open>C39. \<open>next_prime\<close> returns for every argument. From a non-negative one its result is the least
  prime above it (above 1 for 0), converted to \<^verbatim>\<open>int\<close>, which changes nothing when the prime fits.\<close>

theorem next_prime_least:
  assumes "0 \<le> x"
  shows "\<exists>p. next_prime x = Some (int_of_long p) \<and> least_prime_above (max x 1) p
             \<and> (p \<ge> 2 ^ 31 \<or> int_of_long p = p)"
proof -
  let ?y = "max x 1"
  obtain p where "is_prime p" "?y < p" using prime_above by blast
  with next_prime_from_prime [of p ?y] obtain q
    where q: "next_prime_from ?y = Some (int_of_long q)" "least_prime_above ?y q"
    by (metis less_max_iff_disj zero_less_one)
  have "(if x = 0 then 1 else x) = ?y" using assms by auto
  moreover have "q \<ge> 2 ^ 31 \<or> int_of_long q = q"
    using q(2) int_of_long_small [of q] by (cases "q < 2 ^ 31") (auto simp: least_prime_above_def)
  ultimately show ?thesis using q by (intro exI [of _ q]) (simp add: next_prime_def)
qed

theorem next_prime_least_witness: "next_prime 8 = Some 11"
proof -
  obtain p where p: "next_prime 8 = Some (int_of_long p)" "least_prime_above 8 p"
    "p \<ge> 2 ^ 31 \<or> int_of_long p = p"
    using next_prime_least [of 8] by auto
  have "\<not> divisor_from 11 2" "divisor_from 10 2" "divisor_from 9 2"
    by (simp_all add: divisor_from.simps)
  then have "is_prime 11" "\<not> is_prime 10" "\<not> is_prime 9" by (simp_all add: divisor_from_prime)
  then have "p \<le> 11" "8 < p" "p \<noteq> 9" "p \<noteq> 10" using p(2) by (auto simp: least_prime_above_def)
  then have "p = 11" by linarith
  with p show ?thesis by simp
qed

end
