(* ===== verification/Session_Table.thy ===== *)
theory Session_Table
  imports Flow_Key Sim_Config Ring_Queue List_Head Checksum Next_Prime
begin

text \<open>
  The session table of \<^verbatim>\<open>src/hash.c\<close> with the bucket operations \<^verbatim>\<open>find_list\<close> and
  \<^verbatim>\<open>delete_session\<close> of \<^verbatim>\<open>src/packet_manager.c\<close>. A manager owns an array of buckets, each the head
  of a circular list of sessions, and a pool of free sessions. The table is read as a finite map
  from session keys to the bytes collected so far and the time of the last packet, through the
  code's own lookup; the operations are compared with operations on that map. Here they run alone;
  \<open>Bucket_Lock\<close> cuts them at the calls that take and give back the lock of a bucket.
\<close>

section \<open>State\<close>

text \<open>Addresses of list heads: the \<open>list\<close> of a bucket, the \<open>listhead\<close> of a \<^verbatim>\<open>struct blist\<close>.\<close>

datatype addr = Bucket nat | Blist nat

text \<open>A manager with the memory it owns; \<open>mindex\<close> stands for the address of its session pool.\<close>

record manager =
  mindex :: nat
  links :: "addr store"
  items :: "nat \<Rightarrow> session_item"
  bcount :: "nat \<Rightarrow> u32"
  num_buckets :: int
  session_pool :: "nat intel_queue"
  mqueue :: "nat intel_queue"
  m_alive :: u32
  m_drop_cause_pool_empty :: u64

text \<open>What the managers share with the earlier stages: packets, flows and their pools.\<close>

record world =
  packets :: "nat \<Rightarrow> packet"
  flows :: "nat \<Rightarrow> flow_item"
  packet_pools :: "nat \<Rightarrow> nat intel_queue"
  flow_pools :: "nat \<Rightarrow> nat intel_queue"

section \<open>Operations\<close>

text \<open>\<^verbatim>\<open>sizeof(bucket_t)\<close> on a 64-bit platform: two pointers, a \<^verbatim>\<open>pthread_mutex_t\<close> of 40 bytes, a \<^verbatim>\<open>uint32_t\<close> and
  4 bytes of padding.\<close>

definition SIZEOF_BUCKET :: int where "SIZEOF_BUCKET = 64"

text \<open>The initialisation loop of \<^verbatim>\<open>hash_create\<close>: the list head and the counter of every bucket. The array has
  \<open>bytes\<close> bytes; a bucket that does not fit is written outside of it.\<close>

fun init_buckets :: "int \<Rightarrow> nat \<Rightarrow> addr store \<Rightarrow> (nat \<Rightarrow> u32) \<Rightarrow> (addr store \<times> (nat \<Rightarrow> u32)) run" where
  "init_buckets bytes 0 h c = Ret (h, c)"
| "init_buckets bytes (Suc n) h c =
     run_bind (init_buckets bytes n h c) (\<lambda>(h', c').
       if bytes < int (Suc n) * SIZEOF_BUCKET then Fault
       else Ret (INIT_LIST_HEAD h' (Bucket n), c'(n := 0)))"

text \<open>\<^verbatim>\<open>bytes\<close> is an \<^verbatim>\<open>int\<close>: of the product, computed in \<^verbatim>\<open>size_t\<close>, it keeps the low 32 bits.\<close>

definition hash_create :: "int \<Rightarrow> manager \<Rightarrow> manager run" where
  "hash_create num m =
     (case next_prime num of None \<Rightarrow> Spin
      | Some n \<Rightarrow>
          let bytes = int_of_long (n * SIZEOF_BUCKET)
          in run_bind (malloc_or_exit bytes) (\<lambda>_.
             run_bind (init_buckets bytes (nat n) (links m) (bcount m)) (\<lambda>(h, c).
             Ret (m\<lparr>links := h, bcount := c, num_buckets := n\<rparr>))))"

definition find_list :: "manager \<Rightarrow> addr \<Rightarrow> flow_item \<Rightarrow> addr option run" where
  "find_list m head flow =
     (case list_find (links m)
             (\<lambda>p. case p of Blist j \<Rightarrow> compare_session (items m j) flow = 0 | Bucket i \<Rightarrow> False) head of
        None \<Rightarrow> Fault | Some r \<Rightarrow> Ret r)"

text \<open>\<^verbatim>\<open>key % ht->num_buckets\<close>, with the \<^verbatim>\<open>int\<close> converted to unsigned.\<close>

definition bucket_at :: "manager \<Rightarrow> u32 \<Rightarrow> nat run" where
  "bucket_at m key =
     (if num_buckets m = 0 then Fault else Ret (unat (key mod word_of_int (num_buckets m))))"

definition hash_lookup_item :: "manager \<Rightarrow> u32 \<Rightarrow> flow_item \<Rightarrow> addr option run" where
  "hash_lookup_item m key value =
     run_bind (bucket_at m key) (\<lambda>b. find_list m (Bucket b) value)"

definition make_new_session ::
    "sim_config \<Rightarrow> u64 \<Rightarrow> world \<Rightarrow> manager \<Rightarrow> nat \<Rightarrow> flow_item \<Rightarrow> manager run" where
  "make_new_session cfg now w m j flow =
     (let item = (items m j)
            \<lparr>spool := Some (mindex m), slength := word_of_int (manager_buffer_size cfg),
             cur_len := 0, s_upper_ip := upper_ip flow, s_lower_ip := lower_ip flow,
             s_upper_port := upper_port flow, s_lower_port := lower_port flow,
             s_protocol := protocol flow, last_time := now\<rparr>
      in case memcpy (buffer item) 0 (data (packets w (fst (payload flow)))) (snd (payload flow))
                (unat (payload_len flow)) of
           None \<Rightarrow> Fault
         | Some buf \<Rightarrow>
             Ret (m\<lparr>items := (items m)(j := item\<lparr>buffer := buf, cur_len := cur_len item + payload_len flow\<rparr>)\<rparr>))"

text \<open>The two spin loops that give back the packet and the flow.\<close>

definition release_flow :: "nat \<Rightarrow> world \<Rightarrow> world run" where
  "release_flow f w =
     (let flow = flows w f; p = fpacket flow; pp = ppool (packets w p)
      in run_bind (spin_until (intel_enqueue LG2_CAPACITY (packet_pools w pp) p)) (\<lambda>q.
         let w1 = w\<lparr>packet_pools := (packet_pools w)(pp := q)\<rparr>; fp = fpool flow
         in run_bind (spin_until (intel_enqueue LG2_CAPACITY (flow_pools w1 fp) f)) (\<lambda>q'.
         Ret (w1\<lparr>flow_pools := (flow_pools w1)(fp := q')\<rparr>))))"

text \<open>
  \<^verbatim>\<open>list_del\<close>, the spin loop around \<^verbatim>\<open>mwsr_mpool_enqueue(item.pool, blist)\<close> and
  \<^verbatim>\<open>--bucket->count\<close>, which \<^verbatim>\<open>hash_add_item\<close> and \<^verbatim>\<open>delete_session\<close> share. An \<open>item.pool\<close> that is
  not the pool of this manager is a fault.
\<close>

definition free_session :: "nat \<Rightarrow> nat \<Rightarrow> manager \<Rightarrow> manager run" where
  "free_session b j m =
     (case list_del (links m) (Blist j) of None \<Rightarrow> Fault
      | Some h \<Rightarrow>
          if spool (items m j) \<noteq> Some (mindex m) then Fault
          else run_bind (spin_until (intel_enqueue MANAGER_POOL (session_pool m) j)) (\<lambda>q.
               Ret (m\<lparr>links := h, session_pool := q, bcount := (bcount m)(b := bcount m b - 1)\<rparr>)))"

definition add_new ::
    "sim_config \<Rightarrow> u64 \<Rightarrow> nat \<Rightarrow> nat \<Rightarrow> manager \<times> world \<Rightarrow> (manager \<times> world) run" where
  "add_new cfg now b f = (\<lambda>(m, w).
     run_bind (spin_until (intel_dequeue MANAGER_POOL (session_pool m))) (\<lambda>(j, q).
     run_bind (make_new_session cfg now w (m\<lparr>session_pool := q\<rparr>) j (flows w f)) (\<lambda>m1.
     run_bind (release_flow f w) (\<lambda>w1.
     let h = INIT_LIST_HEAD (links m1) (Blist j)
     in case list_add_tail h (Blist j) (Bucket b) of None \<Rightarrow> Fault
        | Some h' \<Rightarrow> Ret (m1\<lparr>links := h', bcount := (bcount m1)(b := bcount m1 b + 1)\<rparr>, w1)))))"

definition add_found ::
    "u64 \<Rightarrow> nat \<Rightarrow> nat \<Rightarrow> nat \<Rightarrow> manager \<times> world \<Rightarrow> (manager \<times> world) run" where
  "add_found now b j f = (\<lambda>(m, w).
     let session = items m j; flow = flows w f
     in run_bind
          (if cur_len session + payload_len flow < slength session
           then (case memcpy (buffer session) (unat (cur_len session))
                        (data (packets w (fst (payload flow)))) (snd (payload flow))
                        (unat (payload_len flow)) of
                   None \<Rightarrow> Fault
                 | Some buf \<Rightarrow>
                     Ret (m\<lparr>items := (items m)(j := session\<lparr>buffer := buf,
                            cur_len := cur_len session + payload_len flow, last_time := now\<rparr>)\<rparr>))
           else run_bind (crc32_32 (buffer session) (cur_len session div 4)) (\<lambda>_. free_session b j m))
          (\<lambda>m1. run_bind (release_flow f w) (\<lambda>w1. Ret (m1, w1))))"

definition hash_add_item ::
    "sim_config \<Rightarrow> u64 \<Rightarrow> u32 \<Rightarrow> nat \<Rightarrow> manager \<times> world \<Rightarrow> (manager \<times> world) run" where
  "hash_add_item cfg now key f = (\<lambda>(m, w).
     run_bind (bucket_at m key) (\<lambda>b.
     run_bind (find_list m (Bucket b) (flows w f)) (\<lambda>r.
     case r of None \<Rightarrow> add_new cfg now b f (m, w)
     | Some (Blist j) \<Rightarrow> add_found now b j f (m, w)
     | Some (Bucket i) \<Rightarrow> Fault)))"

section \<open>Expiry\<close>

text \<open>\<^verbatim>\<open>global_config->destory_time * 1000UL * global_config->mhz\<close>, in unsigned 64-bit arithmetic.\<close>

definition lifetime :: "sim_config \<Rightarrow> u64" where
  "lifetime cfg = word_of_int (destory_time cfg) * 1000 * word_of_int (mhz cfg)"

definition expired :: "sim_config \<Rightarrow> u64 \<Rightarrow> u64 \<Rightarrow> bool" where
  "expired cfg now t \<longleftrightarrow> now - t > lifetime cfg"

definition delete_session :: "sim_config \<Rightarrow> u64 \<Rightarrow> nat \<Rightarrow> manager \<Rightarrow> manager run" where
  "delete_session cfg now b m =
     (case list_for_each_safe links
             (\<lambda>p m. case p of
                Blist j \<Rightarrow> if expired cfg now (last_time (items m j)) then free_session b j m else Ret m
              | Bucket i \<Rightarrow> Fault)
             (Bucket b) m of
        None \<Rightarrow> Spin | Some r \<Rightarrow> r)"

text \<open>\<open>clock b\<close> is what \<^verbatim>\<open>GET_CYCLE_COUNT()\<close> reads when bucket \<open>b\<close> is visited.\<close>

fun travel_from :: "sim_config \<Rightarrow> (nat \<Rightarrow> u64) \<Rightarrow> nat \<Rightarrow> nat \<Rightarrow> manager \<Rightarrow> manager run" where
  "travel_from cfg clock b 0 m = Ret m"
| "travel_from cfg clock b (Suc n) m =
     run_bind (delete_session cfg (clock b) b m) (travel_from cfg clock (Suc b) n)"

definition hash_travel_delete :: "sim_config \<Rightarrow> (nat \<Rightarrow> u64) \<Rightarrow> manager \<Rightarrow> manager run" where
  "hash_travel_delete cfg clock m = travel_from cfg clock 0 (nat (num_buckets m)) m"

definition hash_count :: "manager \<Rightarrow> u32" where
  "hash_count m = fold (\<lambda>b cnt. cnt + bcount m b) [0..<nat (num_buckets m)] 0"

section \<open>Invariant and abstraction\<close>

text \<open>\<open>chs b\<close> is the content of bucket \<open>b\<close>; \<open>live\<close> are the sessions in use.\<close>

definition nbuckets :: "manager \<Rightarrow> nat" where
  "nbuckets m = nat (num_buckets m)"

definition bucket_of :: "manager \<Rightarrow> key \<Rightarrow> nat" where
  "bucket_of m k = unat (bucket_index (word_of_int (num_buckets m)) k)"

definition live :: "(nat \<Rightarrow> nat list) \<Rightarrow> manager \<Rightarrow> nat set" where
  "live chs m = (\<Union>b<nbuckets m. set (chs b))"

definition session_ok :: "sim_config \<Rightarrow> manager \<Rightarrow> nat \<Rightarrow> bool" where
  "session_ok cfg m j \<longleftrightarrow>
     spool (items m j) = Some (mindex m) \<and> slength (items m j) = word_of_int (manager_buffer_size cfg)
     \<and> unat (cur_len (items m j)) \<le> nat (manager_buffer_size cfg)"

definition bucket_ok :: "sim_config \<Rightarrow> manager \<Rightarrow> nat \<Rightarrow> nat list \<Rightarrow> bool" where
  "bucket_ok cfg m b js \<longleftrightarrow>
     dlist (links m) (Bucket b) (map Blist js) \<and> bcount m b = of_nat (length js)
     \<and> distinct (map (\<lambda>j. session_key (items m j)) js)
     \<and> (\<forall>j\<in>set js. session_ok cfg m j \<and> bucket_of m (session_key (items m j)) = b)"

definition pool_ok :: "(nat \<Rightarrow> nat list) \<Rightarrow> manager \<Rightarrow> bool" where
  "pool_ok chs m \<longleftrightarrow>
     intel_inv MANAGER_POOL (session_pool m)
     \<and> distinct (intel_list MANAGER_POOL (session_pool m))
     \<and> set (intel_list MANAGER_POOL (session_pool m)) \<inter> live chs m = {}
     \<and> set (intel_list MANAGER_POOL (session_pool m)) \<union> live chs m = {..<2 ^ MANAGER_POOL}"

definition sizes_ok :: "sim_config \<Rightarrow> manager \<Rightarrow> bool" where
  "sizes_ok cfg m \<longleftrightarrow>
     0 < num_buckets m \<and> num_buckets m < 2 ^ 31
     \<and> 0 \<le> manager_buffer_size cfg \<and> manager_buffer_size cfg < 2 ^ 31
     \<and> (\<forall>j<2 ^ MANAGER_POOL. length (buffer (items m j)) = nat (manager_buffer_size cfg))"

definition table_inv :: "sim_config \<Rightarrow> (nat \<Rightarrow> nat list) \<Rightarrow> manager \<Rightarrow> bool" where
  "table_inv cfg chs m \<longleftrightarrow>
     sizes_ok cfg m \<and> (\<forall>b<nbuckets m. bucket_ok cfg m b (chs b)) \<and> pool_ok chs m
     \<and> (\<forall>b<nbuckets m. \<forall>b'<nbuckets m. b \<noteq> b' \<longrightarrow> set (chs b) \<inter> set (chs b') = {})"

text \<open>The map the table stands for, read by the code's own walk along the bucket of the key.\<close>

type_synonym session = "u8 list \<times> u64"

definition content :: "session_item \<Rightarrow> session" where
  "content it = (take (unat (cur_len it)) (buffer it), last_time it)"

definition has_key :: "manager \<Rightarrow> key \<Rightarrow> addr \<Rightarrow> bool" where
  "has_key m k p = (case p of Blist j \<Rightarrow> session_key (items m j) = k | Bucket i \<Rightarrow> False)"

definition session_of :: "manager \<Rightarrow> key \<Rightarrow> session option" where
  "session_of m k =
     (case list_find (links m) (has_key m k) (Bucket (bucket_of m k)) of
        Some (Some (Blist j)) \<Rightarrow> Some (content (items m j)) | _ \<Rightarrow> None)"

lemma bucket_of_less: "sizes_ok cfg m \<Longrightarrow> bucket_of m k < nbuckets m"
proof -
  assume "sizes_ok cfg m"
  then have n: "0 < num_buckets m" "num_buckets m < 2 ^ 31" by (auto simp: sizes_ok_def)
  then have "unat (word_of_int (num_buckets m) :: u32) = nbuckets m"
    by (simp add: nbuckets_def unat_eq_nat_uint uint_word_of_int_eq take_bit_int_eq_self)
  with n bucket_index_less [of "word_of_int (num_buckets m)" k] show ?thesis
    by (metis bucket_of_def nbuckets_def unat_eq_zero zero_less_nat_eq less_irrefl)
qed

lemma buffer_size_small:
  "sizes_ok cfg m \<Longrightarrow> nat (manager_buffer_size cfg) < 2 ^ 31"
  "sizes_ok cfg m \<Longrightarrow> unat (word_of_int (manager_buffer_size cfg) :: u32) = nat (manager_buffer_size cfg)"
  by (simp_all add: sizes_ok_def nat_less_iff unat_eq_nat_uint uint_word_of_int_eq take_bit_int_eq_self)

lemma find_Blist: "find (has_key m k) (map Blist js) = map_option Blist (find (\<lambda>j. session_key (items m j) = k) js)"
  by (induction js) (auto simp: has_key_def)

lemma find_key_iff:
  "distinct (map f js) \<Longrightarrow> find (\<lambda>j. f j = k) js = Some j \<longleftrightarrow> j \<in> set js \<and> f j = k"
  by (induction js) (auto simp: image_iff)

lemma list_find_bucket:
  assumes "table_inv cfg chs m"
  shows "list_find (links m) (has_key m k) (Bucket (bucket_of m k))
         = Some (map_option Blist (find (\<lambda>j. session_key (items m j) = k) (chs (bucket_of m k))))"
proof -
  have "bucket_ok cfg m (bucket_of m k) (chs (bucket_of m k))"
    using assms bucket_of_less [of cfg m k] by (auto simp: table_inv_def)
  then have "dlist (links m) (Bucket (bucket_of m k)) (map Blist (chs (bucket_of m k)))"
    by (simp add: bucket_ok_def)
  from list_find_dlist [OF this] show ?thesis by (simp add: find_Blist)
qed

text \<open>The map has an entry for every session in use and no others.\<close>

lemma session_of_Some:
  assumes "table_inv cfg chs m"
  shows "session_of m k = Some v \<longleftrightarrow>
         (\<exists>j \<in> live chs m. session_key (items m j) = k \<and> v = content (items m j))"
proof -
  let ?b = "bucket_of m k"
  have b: "?b < nbuckets m" using assms bucket_of_less [of cfg m k] by (auto simp: table_inv_def)
  have ok: "bucket_ok cfg m b (chs b)" if "b < nbuckets m" for b
    using assms that by (simp add: table_inv_def)
  have "session_of m k = map_option (\<lambda>j. content (items m j))
          (find (\<lambda>j. session_key (items m j) = k) (chs ?b))"
    unfolding session_of_def list_find_bucket [OF assms] by (simp split: option.split)
  also have "\<dots> = Some v \<longleftrightarrow> (\<exists>j \<in> set (chs ?b). session_key (items m j) = k \<and> v = content (items m j))"
    using ok [OF b] find_key_iff [of "\<lambda>j. session_key (items m j)" "chs ?b" k]
    by (auto simp: bucket_ok_def)
  also have "\<dots> \<longleftrightarrow> (\<exists>j \<in> live chs m. session_key (items m j) = k \<and> v = content (items m j))"
    using b ok by (auto simp: live_def bucket_ok_def)
  finally show ?thesis .
qed

lemma live_key_inj:
  assumes "table_inv cfg chs m" "i \<in> live chs m" "j \<in> live chs m"
    and "session_key (items m i) = session_key (items m j)"
  shows "i = j"
proof -
  obtain b c where b: "b < nbuckets m" "i \<in> set (chs b)" and c: "c < nbuckets m" "j \<in> set (chs c)"
    using assms(2,3) by (auto simp: live_def)
  have ok: "bucket_ok cfg m b (chs b)" "bucket_ok cfg m c (chs c)"
    using assms(1) b c by (auto simp: table_inv_def)
  then have "b = c" using b(2) c(2) assms(4) by (auto simp: bucket_ok_def)
  then show ?thesis using ok(1) b(2) c(2) assms(4) by (auto simp: bucket_ok_def distinct_map inj_on_def)
qed

lemma option_eqI: "(\<And>v. x = Some v \<longleftrightarrow> y = Some v) \<Longrightarrow> x = y"
  by (cases x; cases y) auto

section \<open>Changing one bucket\<close>

lemma bucket_ok_frame:
  assumes "bucket_ok cfg m b js"
    and "\<And>x. x = Bucket b \<or> x \<in> Blist ` set js \<Longrightarrow> links m' x = links m x"
    and "\<And>j. j \<in> set js \<Longrightarrow> items m' j = items m j"
    and "bcount m' b = bcount m b" "mindex m' = mindex m" "num_buckets m' = num_buckets m"
  shows "bucket_ok cfg m' b js"
proof -
  have "dlist (links m') (Bucket b) (map Blist js) = dlist (links m) (Bucket b) (map Blist js)"
    by (rule dlist_frame) (use assms(2) in auto)
  moreover have "map (\<lambda>j. session_key (items m' j)) js = map (\<lambda>j. session_key (items m j)) js"
    using assms(3) by simp
  ultimately show ?thesis
    using assms unfolding bucket_ok_def session_ok_def bucket_of_def by metis
qed

lemma table_bucket:
  "table_inv cfg chs m \<Longrightarrow> b < nbuckets m \<Longrightarrow> bucket_ok cfg m b (chs b)"
  "table_inv cfg chs m \<Longrightarrow> b < nbuckets m \<Longrightarrow> c < nbuckets m \<Longrightarrow> b \<noteq> c \<Longrightarrow>
     x \<in> set (chs b) \<Longrightarrow> x \<notin> set (chs c)"
  by (auto simp: table_inv_def)

lemma live_upd:
  assumes "b < nbuckets m"
  shows "live (chs(b := ys)) m = set ys \<union> (\<Union>c\<in>{..<nbuckets m} - {b}. set (chs c))"
  using assms by (auto simp: live_def split: if_splits)

lemma live_at:
  assumes "b < nbuckets m"
  shows "live chs m = set (chs b) \<union> (\<Union>c\<in>{..<nbuckets m} - {b}. set (chs c))"
  using assms by (auto simp: live_def)

lemma pool_room:
  assumes "pool_ok chs m" "j \<in> live chs m"
  shows "length (intel_list MANAGER_POOL (session_pool m)) < 2 ^ MANAGER_POOL"
proof -
  let ?P = "intel_list MANAGER_POOL (session_pool m)"
  have "set ?P \<subset> {..<2 ^ MANAGER_POOL}" using assms by (auto simp: pool_ok_def)
  then have "card (set ?P) < 2 ^ MANAGER_POOL" using psubset_card_mono [of "{..<2 ^ MANAGER_POOL :: nat}"] by simp
  moreover have "card (set ?P) = length ?P" using assms(1) by (simp add: pool_ok_def distinct_card)
  ultimately show ?thesis by simp
qed

lemma free_session_step:
  assumes inv: "table_inv cfg chs m" and b: "b < nbuckets m" and j: "chs b = as @ j # bs"
  obtains h q where
    "free_session b j m = Ret (m\<lparr>links := h, session_pool := q, bcount := (bcount m)(b := bcount m b - 1)\<rparr>)"
    "dlist h (Bucket b) (map Blist (as @ bs))"
    "\<And>x. x \<noteq> Bucket b \<Longrightarrow> x \<notin> Blist ` set (chs b) \<Longrightarrow> h x = links m x"
    "intel_inv MANAGER_POOL q" "intel_list MANAGER_POOL q = intel_list MANAGER_POOL (session_pool m) @ [j]"
proof -
  have ok: "bucket_ok cfg m b (chs b)" using table_bucket inv b by blast
  then have "dlist (links m) (Bucket b) (map Blist as @ Blist j # map Blist bs)"
    by (simp add: bucket_ok_def j)
  from list_del_dlist [OF this] obtain h where h: "list_del (links m) (Blist j) = Some h"
    "dlist h (Bucket b) (map Blist as @ map Blist bs)"
    "\<And>x. x \<notin> set (Bucket b # map Blist as @ Blist j # map Blist bs) \<Longrightarrow> h x = links m x" by blast
  have p: "pool_ok chs m" using inv by (simp add: table_inv_def)
  have "j \<in> live chs m" using b j unfolding live_def by force
  from pool_room [OF p this] p obtain q where q: "intel_enqueue MANAGER_POOL (session_pool m) j = Some q"
    "intel_inv MANAGER_POOL q" "intel_list MANAGER_POOL q = intel_list MANAGER_POOL (session_pool m) @ [j]"
    using ip.enq_room [of "session_pool m" j] by (auto simp: pool_ok_def)
  have "spool (items m j) = Some (mindex m)" using ok j by (simp add: bucket_ok_def session_ok_def)
  then have "free_session b j m
      = Ret (m\<lparr>links := h, session_pool := q, bcount := (bcount m)(b := bcount m b - 1)\<rparr>)"
    by (simp add: free_session_def h(1) q(1))
  moreover have "dlist h (Bucket b) (map Blist (as @ bs))" using h(2) by simp
  moreover have "h x = links m x" if "x \<noteq> Bucket b" "x \<notin> Blist ` set (chs b)" for x
    using that by (intro h(3)) (auto simp: j)
  ultimately show thesis using that q(2,3) by blast
qed

lemma table_inv_upd:
  assumes inv: "table_inv cfg chs m" and same: "nbuckets m' = nbuckets m"
    and "sizes_ok cfg m'" "bucket_ok cfg m' b ys" "pool_ok (chs(b := ys)) m'"
    and "\<And>c. c < nbuckets m \<Longrightarrow> c \<noteq> b \<Longrightarrow> bucket_ok cfg m' c (chs c)"
    and "\<And>c. c < nbuckets m \<Longrightarrow> c \<noteq> b \<Longrightarrow> set ys \<inter> set (chs c) = {}"
  shows "table_inv cfg (chs(b := ys)) m'"
  using assms unfolding table_inv_def by (auto split: if_splits)

text \<open>The operations on the table leave the queue and the counters of the manager alone.\<close>

definition same_rest :: "manager \<Rightarrow> manager \<Rightarrow> bool" where
  "same_rest m' m \<longleftrightarrow> mqueue m' = mqueue m \<and> m_alive m' = m_alive m \<and> m_drop_cause_pool_empty m' = m_drop_cause_pool_empty m"

lemma free_session_frame: "free_session b j m = Ret m' \<Longrightarrow> same_rest m' m"
  by (auto simp: free_session_def same_rest_def split: option.splits if_splits)

lemma make_new_session_frame: "make_new_session cfg now w m j fl = Ret m' \<Longrightarrow> same_rest m' m"
  by (auto simp: make_new_session_def Let_def same_rest_def split: option.splits)

lemma add_new_frame: "add_new cfg now b f (m, w) = Ret (m', w') \<Longrightarrow> same_rest m' m"
  by (auto simp: add_new_def Let_def same_rest_def dest!: make_new_session_frame split: option.splits)

lemma add_found_frame: "add_found now b j f (m, w) = Ret (m', w') \<Longrightarrow> same_rest m' m"
  by (auto simp: add_found_def Let_def same_rest_def dest!: free_session_frame split: option.splits if_splits)

lemma hash_add_item_frame:
  assumes "hash_add_item cfg now k f (m, w) = Ret (m', w')"
  shows "same_rest m' m"
proof -
  from assms obtain b r where "(case r of None \<Rightarrow> add_new cfg now b f (m, w) | Some (Blist j) \<Rightarrow> add_found now b j f (m, w)
      | Some (Bucket i) \<Rightarrow> Fault) = Ret (m', w')"
    by (auto simp only: hash_add_item_def run_bind_Ret prod.case)
  then show ?thesis by (cases r) (auto dest: add_new_frame add_found_frame split: addr.split_asm)
qed

lemma free_session_ok:
  assumes inv: "table_inv cfg chs m" and b: "b < nbuckets m" and j: "chs b = as @ j # bs"
  shows "\<exists>m'. free_session b j m = Ret m' \<and> table_inv cfg (chs(b := as @ bs)) m'
    \<and> items m' = items m \<and> num_buckets m' = num_buckets m \<and> mindex m' = mindex m
    \<and> session_of m' = (session_of m)(session_key (items m j) := None)"
proof -
  obtain h q where free: "free_session b j m
      = Ret (m\<lparr>links := h, session_pool := q, bcount := (bcount m)(b := bcount m b - 1)\<rparr>)"
    and d: "dlist h (Bucket b) (map Blist (as @ bs))"
    and frame: "\<And>x. x \<noteq> Bucket b \<Longrightarrow> x \<notin> Blist ` set (chs b) \<Longrightarrow> h x = links m x"
    and q: "intel_inv MANAGER_POOL q"
      "intel_list MANAGER_POOL q = intel_list MANAGER_POOL (session_pool m) @ [j]"
    using free_session_step [OF assms] by blast
  define m' where "m' = m\<lparr>links := h, session_pool := q, bcount := (bcount m)(b := bcount m b - 1)\<rparr>"
  let ?chs = "chs(b := as @ bs)"
  have same: "items m' = items m" "num_buckets m' = num_buckets m" "mindex m' = mindex m"
    "nbuckets m' = nbuckets m" by (simp_all add: m'_def nbuckets_def)
  have ok: "bucket_ok cfg m b (chs b)" using table_bucket inv b by blast
  have "distinct (as @ j # bs)" using ok unfolding bucket_ok_def j by (metis distinct_map)
  then have lv: "live ?chs m' = live chs m - {j}" "j \<in> live chs m"
    using live_upd [OF b, of chs "as @ bs"] live_at [OF b, of chs] table_bucket(2) [OF inv b] b j
    by (auto simp: live_def same)
  have "bucket_ok cfg m' b (as @ bs)"
    using ok d by (auto simp: bucket_ok_def j m'_def session_ok_def bucket_of_def)
  moreover have "bucket_ok cfg m' c (chs c)" if c: "c < nbuckets m" "c \<noteq> b" for c
  proof (rule bucket_ok_frame)
    show "bucket_ok cfg m c (chs c)" using table_bucket inv c by blast
    fix x assume "x = Bucket c \<or> x \<in> Blist ` set (chs c)"
    then show "links m' x = links m x"
      using c table_bucket(2) [OF inv b c(1)] by (auto simp: m'_def intro!: frame)
  qed (use c in \<open>simp_all add: m'_def\<close>)
  moreover have "pool_ok ?chs m'"
    using inv lv q by (auto simp: table_inv_def pool_ok_def m'_def)
  moreover have "sizes_ok cfg m'" using inv by (simp add: table_inv_def sizes_ok_def same)
  moreover have "set (as @ bs) \<inter> set (chs c) = {}" if "c < nbuckets m" "c \<noteq> b" for c
    using table_bucket(2) [OF inv b that(1)] that(2) j by auto
  ultimately have inv': "table_inv cfg ?chs m'" using table_inv_upd [OF inv same(4)] by blast
  have "session_of m' = (session_of m)(session_key (items m j) := None)"
  proof
    fix k
    show "session_of m' k = ((session_of m)(session_key (items m j) := None)) k"
      using live_key_inj [OF inv _ lv(2)] lv(2)
      by (intro option_eqI)
         (auto simp: session_of_Some [OF inv'] session_of_Some [OF inv] lv(1) same)
  qed
  with free inv' same show ?thesis by (auto simp: m'_def)
qed

text \<open>Changing one session in place.\<close>

lemma session_change_ok:
  assumes inv: "table_inv cfg chs m" and j: "j \<in> live chs m"
    and key: "session_key it = session_key (items m j)"
    and it: "spool it = spool (items m j)" "slength it = slength (items m j)"
      "length (buffer it) = length (buffer (items m j))" "unat (cur_len it) \<le> nat (manager_buffer_size cfg)"
  defines "m' \<equiv> m\<lparr>items := (items m)(j := it)\<rparr>"
  shows "table_inv cfg chs m' \<and> session_of m' = (session_of m)(session_key it \<mapsto> content it)"
proof -
  have same: "links m' = links m" "bcount m' = bcount m" "num_buckets m' = num_buckets m"
    "mindex m' = mindex m" "session_pool m' = session_pool m" "nbuckets m' = nbuckets m"
    "live chs m' = live chs m"
    by (simp_all add: m'_def nbuckets_def live_def)
  have keys: "session_key (items m' i) = session_key (items m i)" for i
    using key by (simp add: m'_def)
  have its: "items m' i = (if i = j then it else items m i)" for i by (simp add: m'_def)
  have "session_ok cfg m' i" if "session_ok cfg m i" for i
    using that it by (auto simp: session_ok_def m'_def)
  then have "bucket_ok cfg m' b (chs b)" if "bucket_ok cfg m b (chs b)" for b
    using that by (auto simp: bucket_ok_def same keys bucket_of_def)
  moreover have "sizes_ok cfg m'" using inv it(3) by (auto simp: table_inv_def sizes_ok_def m'_def)
  ultimately have inv': "table_inv cfg chs m'"
    using inv by (simp add: table_inv_def same pool_ok_def)
  have "session_of m' = (session_of m)(session_key it \<mapsto> content it)"
  proof
    fix k
    show "session_of m' k = ((session_of m)(session_key it \<mapsto> content it)) k"
      using live_key_inj [OF inv _ j] j
      by (intro option_eqI)
         (auto simp: session_of_Some [OF inv'] session_of_Some [OF inv] same keys key its
           split: if_splits, metis)
  qed
  with inv' show ?thesis by blast
qed

section \<open>Giving back a flow\<close>

definition pool_put :: "nat \<Rightarrow> nat \<Rightarrow> (nat \<Rightarrow> nat intel_queue) \<Rightarrow> (nat \<Rightarrow> nat intel_queue) \<Rightarrow> bool" where
  "pool_put i x P P' \<longleftrightarrow>
     (\<forall>k. k \<noteq> i \<longrightarrow> P' k = P k) \<and> intel_inv LG2_CAPACITY (P' i)
     \<and> intel_list LG2_CAPACITY (P' i) = intel_list LG2_CAPACITY (P i) @ [x]
     \<and> dequeue_count (P' i) = dequeue_count (P i)"

definition released :: "nat \<Rightarrow> world \<Rightarrow> world \<Rightarrow> bool" where
  "released f w w' \<longleftrightarrow>
     packets w' = packets w \<and> flows w' = flows w
     \<and> pool_put (ppool (packets w (fpacket (flows w f)))) (fpacket (flows w f)) (packet_pools w) (packet_pools w')
     \<and> pool_put (fpool (flows w f)) f (flow_pools w) (flow_pools w')"

definition has_room :: "nat intel_queue \<Rightarrow> bool" where
  "has_room q \<longleftrightarrow> intel_inv LG2_CAPACITY q \<and> length (intel_list LG2_CAPACITY q) < 2 ^ LG2_CAPACITY"

definition can_release :: "nat \<Rightarrow> world \<Rightarrow> bool" where
  "can_release f w \<longleftrightarrow>
     has_room (packet_pools w (ppool (packets w (fpacket (flows w f)))))
     \<and> has_room (flow_pools w (fpool (flows w f)))"

lemma release_flow_ok:
  assumes "can_release f w"
  shows "\<exists>w'. release_flow f w = Ret w' \<and> released f w w'"
proof -
  let ?p = "fpacket (flows w f)"
  let ?pq = "packet_pools w (ppool (packets w ?p))" and ?fq = "flow_pools w (fpool (flows w f))"
  obtain q where "intel_enqueue LG2_CAPACITY ?pq ?p = Some q" "intel_inv LG2_CAPACITY q"
    "intel_list LG2_CAPACITY q = intel_list LG2_CAPACITY ?pq @ [?p]"
    using assms iq.enq_room [of ?pq ?p] by (auto simp: can_release_def has_room_def)
  moreover obtain q' where "intel_enqueue LG2_CAPACITY ?fq f = Some q'" "intel_inv LG2_CAPACITY q'"
    "intel_list LG2_CAPACITY q' = intel_list LG2_CAPACITY ?fq @ [f]"
    using assms iq.enq_room [of ?fq f] by (auto simp: can_release_def has_room_def)
  ultimately show ?thesis
    by (simp add: release_flow_def Let_def released_def pool_put_def intel_enqueue_dequeue_count)
qed

section \<open>Adding a session\<close>

definition flow_bytes :: "world \<Rightarrow> flow_item \<Rightarrow> u8 list" where
  "flow_bytes w flow =
     take (unat (payload_len flow)) (drop (snd (payload flow)) (data (packets w (fst (payload flow)))))"

definition payload_inside :: "world \<Rightarrow> flow_item \<Rightarrow> bool" where
  "payload_inside w flow \<longleftrightarrow>
     snd (payload flow) + unat (payload_len flow) \<le> length (data (packets w (fst (payload flow))))"

lemma make_new_session_ok:
  assumes "payload_inside w flow" "unat (payload_len flow) \<le> length (buffer (items m j))"
  obtains it where "make_new_session cfg now w m j flow = Ret (m\<lparr>items := (items m)(j := it)\<rparr>)"
    "session_key it = flow_key flow" "spool it = Some (mindex m)"
    "slength it = word_of_int (manager_buffer_size cfg)" "cur_len it = payload_len flow"
    "length (buffer it) = length (buffer (items m j))" "content it = (flow_bytes w flow, now)"
proof -
  obtain buf where buf: "memcpy (buffer (items m j)) 0 (data (packets w (fst (payload flow))))
      (snd (payload flow)) (unat (payload_len flow)) = Some buf"
    using assms by (simp add: memcpy_def payload_inside_def)
  from memcpy_prefix [OF this] memcpy_length [OF this] that buf show thesis
    by (simp add: make_new_session_def Let_def session_key_def flow_key_def content_def flow_bytes_def)
qed

lemma bucket_add_ok:
  assumes inv: "table_inv cfg chs m" and b: "b < nbuckets m" and j: "j \<notin> live chs m"
    and it: "bucket_of m (session_key it) = b" "session_of m (session_key it) = None"
      "spool it = Some (mindex m)" "slength it = word_of_int (manager_buffer_size cfg)"
      "unat (cur_len it) \<le> nat (manager_buffer_size cfg)"
  obtains h where "list_add_tail (INIT_LIST_HEAD (links m) (Blist j)) (Blist j) (Bucket b) = Some h"
    "bucket_ok cfg (m\<lparr>items := (items m)(j := it), links := h,
        bcount := (bcount m)(b := bcount m b + 1), session_pool := q\<rparr>) b (chs b @ [j])"
    "\<And>x. x \<noteq> Bucket b \<Longrightarrow> x \<noteq> Blist j \<Longrightarrow> x \<notin> Blist ` set (chs b) \<Longrightarrow> h x = links m x"
proof -
  let ?h0 = "INIT_LIST_HEAD (links m) (Blist j)"
  have ok: "bucket_ok cfg m b (chs b)" using table_bucket inv b by blast
  have jb: "j \<notin> set (chs b)" using j b by (auto simp: live_def)
  have "dlist ?h0 (Bucket b) (map Blist (chs b))"
  proof (subst dlist_frame [where h = "links m"])
    show "dlist (links m) (Bucket b) (map Blist (chs b))" using ok by (simp add: bucket_ok_def)
  qed (use jb in \<open>auto intro!: INIT_LIST_HEAD_other\<close>)
  from list_add_tail_dlist [OF this, of "Blist j"] jb obtain h
    where h: "list_add_tail ?h0 (Blist j) (Bucket b) = Some h"
      "dlist h (Bucket b) (map Blist (chs b) @ [Blist j])"
      "\<And>x. x \<notin> set (Bucket b # map Blist (chs b) @ [Blist j]) \<Longrightarrow> h x = ?h0 x" by auto
  have fresh: "session_key (items m i) \<noteq> session_key it" if "i \<in> set (chs b)" for i
    using it(2) session_of_Some [OF inv, of "session_key it" "content (items m i)"] that b
    by (auto simp: live_def)
  define m' where "m' = m\<lparr>items := (items m)(j := it), links := h,
        bcount := (bcount m)(b := bcount m b + 1), session_pool := q\<rparr>"
  have m': "links m' = h" "items m' j = it" "bcount m' b = bcount m b + 1" "mindex m' = mindex m"
    "bucket_of m' = bucket_of m" by (simp_all add: m'_def bucket_of_def fun_eq_iff)
  have old: "items m' i = items m i" if "i \<in> set (chs b)" for i using that jb by (auto simp: m'_def)
  have "map (\<lambda>i. session_key (items m' i)) (chs b @ [j])
      = map (\<lambda>i. session_key (items m i)) (chs b) @ [session_key it]"
    using old m' by simp
  moreover have "distinct (map (\<lambda>i. session_key (items m i)) (chs b) @ [session_key it])"
    using ok fresh by (force simp: bucket_ok_def)
  ultimately have "distinct (map (\<lambda>i. session_key (items m' i)) (chs b @ [j]))" by (simp only:)
  moreover have "session_ok cfg m' i \<and> bucket_of m' (session_key (items m' i)) = b"
    if "i \<in> set (chs b @ [j])" for i
    using that ok old m' it by (auto simp: bucket_ok_def session_ok_def)
  ultimately have "bucket_ok cfg m' b (chs b @ [j])"
    using ok h(2) m' by (simp add: bucket_ok_def)
  moreover have "h x = links m x" if "x \<noteq> Bucket b" "x \<noteq> Blist j" "x \<notin> Blist ` set (chs b)" for x
    using h(3) [of x] that by auto
  ultimately show thesis using that h(1) unfolding m'_def by blast
qed

lemma table_add_ok:
  fixes h :: "addr store"
  assumes inv: "table_inv cfg chs m" and b: "b < nbuckets m" and j: "j \<notin> live chs m"
    and pool: "intel_list MANAGER_POOL (session_pool m) = j # intel_list MANAGER_POOL q"
      "intel_inv MANAGER_POOL q"
    and none: "session_of m (session_key it) = None"
    and len: "length (buffer it) = length (buffer (items m j))"
  defines "m' \<equiv> m\<lparr>items := (items m)(j := it), links := h,
        bcount := (bcount m)(b := bcount m b + 1), session_pool := q\<rparr>"
  assumes ok: "bucket_ok cfg m' b (chs b @ [j])"
    and frame: "\<And>x. x \<noteq> Bucket b \<Longrightarrow> x \<noteq> Blist j \<Longrightarrow> x \<notin> Blist ` set (chs b) \<Longrightarrow> h x = links m x"
  shows "table_inv cfg (chs(b := chs b @ [j])) m'
         \<and> session_of m' = (session_of m)(session_key it \<mapsto> content it)"
proof -
  let ?chs = "chs(b := chs b @ [j])"
  have nb: "nbuckets m' = nbuckets m" by (simp add: m'_def nbuckets_def)
  have its: "items m' i = (if i = j then it else items m i)" for i by (simp add: m'_def)
  have lv: "live ?chs m' = insert j (live chs m)"
    using live_upd [OF b, of chs "chs b @ [j]"] live_at [OF b, of chs] by (simp add: live_def nb)
  have jc: "j \<notin> set (chs c)" if "c < nbuckets m" for c using j that by (auto simp: live_def)
  have inv': "table_inv cfg ?chs m'"
  proof (rule table_inv_upd [OF inv nb _ ok])
    show "sizes_ok cfg m'" using inv len by (auto simp: table_inv_def sizes_ok_def m'_def)
    show "pool_ok ?chs m'" using inv pool lv by (auto simp: table_inv_def pool_ok_def m'_def)
    fix c assume c: "c < nbuckets m" "c \<noteq> b"
    show "set (chs b @ [j]) \<inter> set (chs c) = {}"
      using table_bucket(2) [OF inv b c(1)] c jc by auto
    show "bucket_ok cfg m' c (chs c)"
    proof (rule bucket_ok_frame)
      show "bucket_ok cfg m c (chs c)" using table_bucket inv c by blast
      fix x assume "x = Bucket c \<or> x \<in> Blist ` set (chs c)"
      then show "links m' x = links m x"
        using c jc table_bucket(2) [OF inv b c(1)] by (auto simp: m'_def intro!: frame)
    qed (use c jc in \<open>auto simp: m'_def\<close>)
  qed
  have fresh: "session_key (items m i) \<noteq> session_key it" if "i \<in> live chs m" for i
    using none session_of_Some [OF inv, of "session_key it" "content (items m i)"] that by auto
  have "session_of m' k = ((session_of m)(session_key it \<mapsto> content it)) k" for k
    using fresh j
    by (intro option_eqI)
       (auto simp: session_of_Some [OF inv'] session_of_Some [OF inv] lv its split: if_splits, metis)
  with inv' show ?thesis by blast
qed

lemma add_new_ok:
  assumes inv: "table_inv cfg chs m" and none: "session_of m (flow_key (flows w f)) = None"
    and pool: "intel_list MANAGER_POOL (session_pool m) = j # free"
    and fits: "payload_inside w (flows w f)" "unat (payload_len (flows w f)) \<le> nat (manager_buffer_size cfg)"
    and rel: "can_release f w"
  defines "k \<equiv> flow_key (flows w f)"
  defines "b \<equiv> bucket_of m k"
  shows "\<exists>m' w'. add_new cfg now b f (m, w) = Ret (m', w') \<and> table_inv cfg (chs(b := chs b @ [j])) m'
    \<and> num_buckets m' = num_buckets m \<and> mindex m' = mindex m \<and> released f w w'
    \<and> session_of m' = (session_of m)(k \<mapsto> (flow_bytes w (flows w f), now))"
proof -
  have sz: "sizes_ok cfg m" and p: "pool_ok chs m" using inv by (auto simp: table_inv_def)
  have b: "b < nbuckets m" using bucket_of_less [OF sz] by (simp add: b_def)
  have "j \<in> set (intel_list MANAGER_POOL (session_pool m))" using pool by simp
  then have j: "j \<notin> live chs m" "j < 2 ^ MANAGER_POOL" using p by (auto simp: pool_ok_def)
  obtain q where q: "intel_dequeue MANAGER_POOL (session_pool m) = Some (j, q)"
    "intel_inv MANAGER_POOL q" "intel_list MANAGER_POOL q = free"
    using ip.deq_nonempty [of "session_pool m" j free] p pool by (auto simp: pool_ok_def)
  obtain it where mk: "make_new_session cfg now w (m\<lparr>session_pool := q\<rparr>) j (flows w f)
       = Ret (m\<lparr>session_pool := q, items := (items m)(j := it)\<rparr>)"
    and it: "session_key it = k" "spool it = Some (mindex m)"
      "slength it = word_of_int (manager_buffer_size cfg)" "cur_len it = payload_len (flows w f)"
      "length (buffer it) = length (buffer (items m j))" "content it = (flow_bytes w (flows w f), now)"
    using make_new_session_ok [of w "flows w f" "m\<lparr>session_pool := q\<rparr>" j cfg now] fits sz j(2)
    by (auto simp: sizes_ok_def k_def)
  obtain w' where w': "release_flow f w = Ret w'" "released f w w'" using release_flow_ok [OF rel] by blast
  have keyb: "bucket_of m (session_key it) = b" "session_of m (session_key it) = None"
    "unat (cur_len it) \<le> nat (manager_buffer_size cfg)"
    using it none fits by (simp_all add: b_def k_def)
  obtain h where h: "list_add_tail (INIT_LIST_HEAD (links m) (Blist j)) (Blist j) (Bucket b) = Some h"
    "bucket_ok cfg (m\<lparr>items := (items m)(j := it), links := h,
        bcount := (bcount m)(b := bcount m b + 1), session_pool := q\<rparr>) b (chs b @ [j])"
    "\<And>x. x \<noteq> Bucket b \<Longrightarrow> x \<noteq> Blist j \<Longrightarrow> x \<notin> Blist ` set (chs b) \<Longrightarrow> h x = links m x"
    using bucket_add_ok [OF inv b j(1) keyb(1,2) it(2,3) keyb(3), of q] by blast
  define m' where "m' = m\<lparr>items := (items m)(j := it), links := h,
        bcount := (bcount m)(b := bcount m b + 1), session_pool := q\<rparr>"
  have run: "add_new cfg now b f (m, w) = Ret (m', w')"
    by (simp add: add_new_def q(1) mk w'(1) h(1) m'_def)
  have "table_inv cfg (chs(b := chs b @ [j])) m'
      \<and> session_of m' = (session_of m)(session_key it \<mapsto> content it)"
    unfolding m'_def by (rule table_add_ok [OF inv b j(1) _ q(2) keyb(2) it(5) h(2,3)]) (simp add: pool q(3))
  with run w'(2) show ?thesis by (simp add: it m'_def)
qed

section \<open>A flow for an existing session\<close>

lemma live_facts:
  assumes "table_inv cfg chs m" "j \<in> live chs m"
  shows "session_ok cfg m j" "length (buffer (items m j)) = nat (manager_buffer_size cfg)"
    "session_of m (session_key (items m j)) = Some (content (items m j))"
    "j \<in> set (chs (bucket_of m (session_key (items m j))))"
    "bucket_of m (session_key (items m j)) < nbuckets m"
proof -
  obtain b where b: "b < nbuckets m" "j \<in> set (chs b)" using assms(2) by (auto simp: live_def)
  then have ok: "bucket_ok cfg m b (chs b)" using assms(1) table_bucket by blast
  with b show "session_ok cfg m j" "j \<in> set (chs (bucket_of m (session_key (items m j))))"
    "bucket_of m (session_key (items m j)) < nbuckets m" by (auto simp: bucket_ok_def)
  have "j < 2 ^ MANAGER_POOL" using assms by (auto simp: table_inv_def pool_ok_def)
  then show "length (buffer (items m j)) = nat (manager_buffer_size cfg)"
    using assms(1) by (simp add: table_inv_def sizes_ok_def)
  show "session_of m (session_key (items m j)) = Some (content (items m j))"
    using session_of_Some [OF assms(1)] assms(2) by blast
qed

lemma append_branch:
  assumes inv: "table_inv cfg chs m" and j: "j \<in> live chs m"
    and "payload_inside w flow" "unat (cur_len (items m j)) + unat (payload_len flow) < nat (manager_buffer_size cfg)"
  obtains buf where "memcpy (buffer (items m j)) (unat (cur_len (items m j)))
      (data (packets w (fst (payload flow)))) (snd (payload flow)) (unat (payload_len flow)) = Some buf"
    "table_inv cfg chs (m\<lparr>items := (items m)(j := (items m j)\<lparr>buffer := buf,
       cur_len := cur_len (items m j) + payload_len flow, last_time := now\<rparr>)\<rparr>)"
    "session_of (m\<lparr>items := (items m)(j := (items m j)\<lparr>buffer := buf,
       cur_len := cur_len (items m j) + payload_len flow, last_time := now\<rparr>)\<rparr>)
     = (session_of m)(session_key (items m j) \<mapsto> (fst (content (items m j)) @ flow_bytes w flow, now))"
proof -
  let ?it = "items m j" and ?n = "unat (payload_len flow)"
  note L = live_facts [OF inv j]
  obtain buf where buf: "memcpy (buffer ?it) (unat (cur_len ?it))
      (data (packets w (fst (payload flow)))) (snd (payload flow)) ?n = Some buf"
    using assms L by (simp add: memcpy_def payload_inside_def)
  let ?new = "?it\<lparr>buffer := buf, cur_len := cur_len ?it + payload_len flow, last_time := now\<rparr>"
  have "nat (manager_buffer_size cfg) < 2 ^ 31"
    using inv buffer_size_small(1) unfolding table_inv_def by blast
  then have cl: "unat (cur_len ?it + payload_len flow) = unat (cur_len ?it) + ?n"
    using assms(4) by (intro unat_add_small) simp
  have key: "session_key ?new = session_key ?it" by (simp add: session_key_def)
  have c: "content ?new = (fst (content ?it) @ flow_bytes w flow, now)"
    using memcpy_prefix [OF buf] by (simp add: content_def flow_bytes_def cl)
  from session_change_ok [OF inv j, of ?new] that [OF buf] show thesis
    using key c cl assms(4) memcpy_length [OF buf] by simp
qed

definition add_spec :: "nat \<Rightarrow> u64 \<Rightarrow> key \<Rightarrow> u8 list \<Rightarrow> (key \<Rightarrow> session option) \<Rightarrow> key \<Rightarrow> session option" where
  "add_spec cap now k p S =
     (case S k of
        None \<Rightarrow> S(k \<mapsto> (p, now))
      | Some (bs, t) \<Rightarrow> if length bs + length p < cap then S(k \<mapsto> (bs @ p, now)) else S(k := None))"

lemma crc32_32_returns:
  "unat len * 4 \<le> length buf \<Longrightarrow> \<exists>c. crc32_32 buf len = Ret c"
proof -
  assume a: "unat len * 4 \<le> length buf"
  have "unat (len * 4) \<le> unat len * 4" by (simp add: unat_word_ariths)
  with a show ?thesis by (simp add: crc32_32_def Let_def)
qed

text \<open>The other branch of an insertion into a session: it is full, its checksum is computed and it is removed.\<close>

lemma flush_branch:
  assumes inv: "table_inv cfg chs m" and j: "j \<in> live chs m"
  shows "\<exists>c m' chs'. crc32_32 (buffer (items m j)) (cur_len (items m j) div 4) = Ret c
    \<and> free_session (bucket_of m (session_key (items m j))) j m = Ret m' \<and> table_inv cfg chs' m'
    \<and> num_buckets m' = num_buckets m \<and> mindex m' = mindex m
    \<and> session_of m' = (session_of m)(session_key (items m j) := None)"
proof -
  let ?it = "items m j"
  let ?b = "bucket_of m (session_key ?it)"
  note L = live_facts [OF inv j]
  obtain as bs where "chs ?b = as @ j # bs" using L(4) by (auto dest: split_list)
  from free_session_ok [OF inv _ this] L(5) obtain m'
    where "free_session ?b j m = Ret m'" "table_inv cfg (chs(?b := as @ bs)) m'"
      "num_buckets m' = num_buckets m" "mindex m' = mindex m"
      "session_of m' = (session_of m)(session_key ?it := None)" by auto
  moreover have "unat (cur_len ?it div 4) * 4 \<le> length (buffer ?it)"
    using L(1,2) order_trans [OF div_times_less_eq_dividend [of "unat (cur_len ?it)" 4]]
    by (simp add: session_ok_def unat_div)
  from crc32_32_returns [OF this] have "\<exists>c. crc32_32 (buffer ?it) (cur_len ?it div 4) = Ret c" by blast
  ultimately show ?thesis by blast
qed

lemma add_found_ok:
  assumes inv: "table_inv cfg chs m" and j: "j \<in> live chs m"
    and key: "session_key (items m j) = flow_key (flows w f)"
    and fits: "payload_inside w (flows w f)" "unat (payload_len (flows w f)) \<le> nat (manager_buffer_size cfg)"
    and rel: "can_release f w"
  defines "k \<equiv> flow_key (flows w f)"
  shows "\<exists>m' w' chs'. add_found now (bucket_of m k) j f (m, w) = Ret (m', w') \<and> table_inv cfg chs' m'
    \<and> num_buckets m' = num_buckets m \<and> mindex m' = mindex m \<and> released f w w'
    \<and> session_of m' = add_spec (nat (manager_buffer_size cfg)) now k (flow_bytes w (flows w f)) (session_of m)"
proof -
  let ?it = "items m j" and ?fl = "flows w f" and ?cap = "nat (manager_buffer_size cfg)"
  note L = live_facts [OF inv j]
  obtain w' where w': "release_flow f w = Ret w'" "released f w w'" using release_flow_ok [OF rel] by blast
  have S: "session_of m k = Some (content ?it)" using L(3) key by (simp add: k_def)
  have lens: "length (fst (content ?it)) = unat (cur_len ?it)" "length (flow_bytes w ?fl) = unat (payload_len ?fl)"
    using L(1,2) fits(1) by (auto simp: content_def session_ok_def flow_bytes_def payload_inside_def)
  have cap: "?cap < 2 ^ 31" "unat (slength ?it) = ?cap"
    using inv L(1) buffer_size_small unfolding table_inv_def session_ok_def by auto
  have "unat (cur_len ?it) \<le> ?cap" using L(1) by (simp add: session_ok_def)
  then have cl: "cur_len ?it + payload_len ?fl < slength ?it \<longleftrightarrow> unat (cur_len ?it) + unat (payload_len ?fl) < ?cap"
    using cap fits(2) by (simp add: word_less_nat_alt unat_add_small)
  show ?thesis
  proof (cases "unat (cur_len ?it) + unat (payload_len ?fl) < ?cap")
    case True
    obtain buf where B: "memcpy (buffer ?it) (unat (cur_len ?it)) (data (packets w (fst (payload ?fl))))
         (snd (payload ?fl)) (unat (payload_len ?fl)) = Some buf"
      "table_inv cfg chs (m\<lparr>items := (items m)(j := ?it\<lparr>buffer := buf,
         cur_len := cur_len ?it + payload_len ?fl, last_time := now\<rparr>)\<rparr>)"
      "session_of (m\<lparr>items := (items m)(j := ?it\<lparr>buffer := buf,
         cur_len := cur_len ?it + payload_len ?fl, last_time := now\<rparr>)\<rparr>)
       = (session_of m)(k \<mapsto> (fst (content ?it) @ flow_bytes w ?fl, now))"
      using append_branch [OF inv j fits(1) True, of now] key by (auto simp: k_def)
    let ?m = "m\<lparr>items := (items m)(j := ?it\<lparr>buffer := buf,
         cur_len := cur_len ?it + payload_len ?fl, last_time := now\<rparr>)\<rparr>"
    have "add_found now (bucket_of m k) j f (m, w) = Ret (?m, w')"
      using True cl by (simp add: add_found_def Let_def B(1) w'(1))
    moreover have "add_spec ?cap now k (flow_bytes w ?fl) (session_of m)
        = (session_of m)(k \<mapsto> (fst (content ?it) @ flow_bytes w ?fl, now))"
      using True lens S by (cases "content ?it") (simp add: add_spec_def)
    ultimately show ?thesis using B(2,3) w'(2) by (intro exI [of _ ?m] exI [of _ w'] exI [of _ chs]) simp
  next
    case False
    from flush_branch [OF inv j] key obtain c m' chs'
      where c: "crc32_32 (buffer ?it) (cur_len ?it div 4) = Ret c"
        and m': "free_session (bucket_of m k) j m = Ret m'" "table_inv cfg chs' m'"
        "num_buckets m' = num_buckets m" "mindex m' = mindex m" "session_of m' = (session_of m)(k := None)"
      by (auto simp: k_def)
    have "add_found now (bucket_of m k) j f (m, w) = Ret (m', w')"
      using False cl by (simp add: add_found_def Let_def c m'(1) w'(1))
    moreover have "add_spec ?cap now k (flow_bytes w ?fl) (session_of m) = (session_of m)(k := None)"
      using False lens S by (cases "content ?it") (simp add: add_spec_def)
    ultimately show ?thesis using m' w'(2) by auto
  qed
qed

section \<open>Insertion refines the map\<close>

lemma find_list_key: "find_list m (Bucket b) flow =
    (case list_find (links m) (has_key m (flow_key flow)) (Bucket b) of None \<Rightarrow> Fault | Some r \<Rightarrow> Ret r)"
proof -
  have "(\<lambda>p. case p of Blist j \<Rightarrow> compare_session (items m j) flow = 0 | Bucket i \<Rightarrow> False)
        = has_key m (flow_key flow)"
    by (auto simp: has_key_def compare_session_key fun_eq_iff split: addr.split)
  then show ?thesis by (simp add: find_list_def)
qed

text \<open>The bucket of a key that is passed as \<open>MAKE_HASH\<close> computes it.\<close>

lemma bucket_at_index:
  assumes "sizes_ok cfg m"
  shows "bucket_at m (bucket_index (word_of_int (num_buckets m)) k) = Ret (bucket_of m k)"
proof -
  let ?n = "word_of_int (num_buckets m) :: u32"
  have "0 < unat ?n"
    using assms by (simp add: sizes_ok_def unat_eq_nat_uint uint_word_of_int_eq take_bit_int_eq_self)
  then have "unat (bucket_index ?n k) < unat ?n" by (intro bucket_index_less) auto
  then have "bucket_index ?n k mod ?n = bucket_index ?n k"
    by (intro unsigned_word_eqI [where 'a = nat]) (simp add: unat_mod)
  with assms show ?thesis by (simp add: bucket_at_def bucket_of_def sizes_ok_def)
qed

lemma hash_add_item_cases:
  fixes w :: world and f :: nat
  assumes inv: "table_inv cfg chs m"
  defines "k \<equiv> flow_key (flows w f)"
  defines "key \<equiv> bucket_index (word_of_int (num_buckets m)) k"
  shows "session_of m k = None \<Longrightarrow>
           hash_add_item cfg now key f (m, w) = add_new cfg now (bucket_of m k) f (m, w)"
    and "session_of m k = Some v \<Longrightarrow>
           \<exists>j\<in>live chs m. session_key (items m j) = k
             \<and> hash_add_item cfg now key f (m, w) = add_found now (bucket_of m k) j f (m, w)"
proof -
  let ?r = "find (\<lambda>j. session_key (items m j) = k) (chs (bucket_of m k))"
  have sz: "sizes_ok cfg m" using inv by (simp add: table_inv_def)
  have run: "hash_add_item cfg now key f (m, w)
      = (case ?r of None \<Rightarrow> add_new cfg now (bucket_of m k) f (m, w)
         | Some j \<Rightarrow> add_found now (bucket_of m k) j f (m, w))"
    unfolding hash_add_item_def key_def prod.case bucket_at_index [OF sz] run_bind.simps find_list_key
      k_def [symmetric] list_find_bucket [OF inv]
    by (simp split: option.split)
  have S: "session_of m k = map_option (\<lambda>j. content (items m j)) ?r"
    unfolding session_of_def list_find_bucket [OF inv] by (simp split: option.split)
  show "hash_add_item cfg now key f (m, w) = add_new cfg now (bucket_of m k) f (m, w)"
    if "session_of m k = None" using run S that by (simp split: option.splits)
  show "\<exists>j\<in>live chs m. session_key (items m j) = k
          \<and> hash_add_item cfg now key f (m, w) = add_found now (bucket_of m k) j f (m, w)"
    if some: "session_of m k = Some v"
  proof -
    obtain j where j: "?r = Some j" using S some by (cases ?r) simp_all
    then have "j \<in> set (chs (bucket_of m k))" "session_key (items m j) = k"
      by (auto simp: find_Some_iff)
    then show ?thesis using run j bucket_of_less [OF sz, of k] by (intro bexI [of _ j]) (auto simp: live_def)
  qed
qed

lemma hash_add_refines:
  assumes inv: "table_inv cfg chs m"
    and fits: "payload_inside w (flows w f)" "unat (payload_len (flows w f)) \<le> nat (manager_buffer_size cfg)"
    and rel: "can_release f w"
    and room: "session_of m (flow_key (flows w f)) \<noteq> None \<or> intel_list MANAGER_POOL (session_pool m) \<noteq> []"
  defines "k \<equiv> flow_key (flows w f)"
  shows "\<exists>m' w' chs'. hash_add_item cfg now (bucket_index (word_of_int (num_buckets m)) k) f (m, w) = Ret (m', w')
    \<and> table_inv cfg chs' m' \<and> num_buckets m' = num_buckets m \<and> mindex m' = mindex m \<and> released f w w'
    \<and> session_of m' = add_spec (nat (manager_buffer_size cfg)) now k (flow_bytes w (flows w f)) (session_of m)"
proof (cases "session_of m k")
  case None
  with room obtain j free where "intel_list MANAGER_POOL (session_pool m) = j # free"
    by (cases "intel_list MANAGER_POOL (session_pool m)") (auto simp: k_def)
  from add_new_ok [OF inv _ this fits rel, of now] None show ?thesis
    using hash_add_item_cases(1) [OF inv, of w f now] by (auto simp: k_def add_spec_def)
next
  case (Some v)
  then obtain j where "j \<in> live chs m" "session_key (items m j) = k"
    "hash_add_item cfg now (bucket_index (word_of_int (num_buckets m)) k) f (m, w)
       = add_found now (bucket_of m k) j f (m, w)"
    using hash_add_item_cases(2) [OF inv, of w f v now] by (auto simp: k_def)
  with add_found_ok [OF inv _ _ fits rel, of j now] show ?thesis by (auto simp: k_def)
qed

section \<open>Expiry refines the map\<close>

definition keeps :: "sim_config \<Rightarrow> u64 \<Rightarrow> manager \<Rightarrow> nat \<Rightarrow> bool" where
  "keeps cfg now m j \<longleftrightarrow> \<not> expired cfg now (last_time (items m j))"

text \<open>The state in the middle of a bucket: of the sessions \<open>pre\<close> before the cursor those that are kept remain.\<close>

definition cleaned :: "sim_config \<Rightarrow> u64 \<Rightarrow> manager \<Rightarrow> nat \<Rightarrow> (nat \<Rightarrow> nat list) \<Rightarrow> nat list \<Rightarrow> nat list \<Rightarrow> manager \<Rightarrow> bool" where
  "cleaned cfg now m b chs pre rest s \<longleftrightarrow> chs b = pre @ rest
     \<and> table_inv cfg (chs(b := filter (keeps cfg now m) pre @ rest)) s
     \<and> items s = items m \<and> num_buckets s = num_buckets m \<and> mindex s = mindex m \<and> mqueue s = mqueue m"

lemma cleaned_dlist:
  assumes "cleaned cfg now m b chs pre rest s" "b < nbuckets m"
  shows "dlist (links s) (Bucket b) (map Blist (filter (keeps cfg now m) pre) @ map Blist rest)"
proof -
  have "nbuckets s = nbuckets m" using assms(1) by (simp add: cleaned_def nbuckets_def)
  then have "bucket_ok cfg s b (filter (keeps cfg now m) pre @ rest)"
    using table_bucket(1) [of cfg "chs(b := filter (keeps cfg now m) pre @ rest)" s b] assms by (simp add: cleaned_def)
  then show ?thesis by (simp add: bucket_ok_def)
qed

lemma cleaned_step:
  assumes C: "cleaned cfg now m b chs pre (j # rest) s" and b: "b < nbuckets m"
  shows "\<exists>s'. (if expired cfg now (last_time (items s j)) then free_session b j s else Ret s) = Ret s'
    \<and> cleaned cfg now m b chs (pre @ [j]) rest s'"
proof (cases "keeps cfg now m j")
  case True
  then show ?thesis using C by (auto simp: cleaned_def keeps_def)
next
  case False
  have "nbuckets s = nbuckets m" using C by (simp add: cleaned_def nbuckets_def)
  then obtain s' where "free_session b j s = Ret s'" "table_inv cfg (chs(b := filter (keeps cfg now m) pre @ rest)) s'"
    "items s' = items s" "num_buckets s' = num_buckets s" "mindex s' = mindex s"
    using free_session_ok [of cfg "chs(b := filter (keeps cfg now m) pre @ j # rest)" s b "filter (keeps cfg now m) pre" j rest]
      C b by (auto simp: cleaned_def)
  with C False show ?thesis by (auto simp: cleaned_def keeps_def same_rest_def dest: free_session_frame)
qed

lemma delete_session_ok:
  assumes inv: "table_inv cfg chs m" and b: "b < nbuckets m"
  shows "\<exists>m'. delete_session cfg now b m = Ret m'
    \<and> table_inv cfg (chs(b := filter (keeps cfg now m) (chs b))) m'
    \<and> items m' = items m \<and> num_buckets m' = num_buckets m \<and> mindex m' = mindex m \<and> mqueue m' = mqueue m"
proof -
  let ?body = "\<lambda>p m. case p of
      Blist j \<Rightarrow> if expired cfg now (last_time (items m j)) then free_session b j m else Ret m
    | Bucket i \<Rightarrow> Fault"
  define J where "J = (\<lambda>as bs s. \<exists>pre rest. as = map Blist (filter (keeps cfg now m) pre) \<and> bs = map Blist rest
      \<and> cleaned cfg now m b chs pre rest s)"
  have "\<exists>as' s'. list_for_each_safe links ?body (Bucket b) m = Some (Ret s') \<and> J as' [] s'"
  proof (rule list_for_each_safe_rule)
    show "J [] (map Blist (chs b)) m"
      unfolding J_def cleaned_def using inv by (intro exI [of _ "[]"] exI [of _ "chs b"]) simp
  next
    fix as bs s assume "J as bs s"
    then show "dlist (links s) (Bucket b) (as @ bs)" unfolding J_def using cleaned_dlist b by blast
  next
    fix as p bs s assume "J as (p # bs) s"
    then obtain pre j rest where D: "p = Blist j" "bs = map Blist rest" "cleaned cfg now m b chs pre (j # rest) s"
      by (auto simp: J_def)
    from cleaned_step [OF D(3) b] show "\<exists>as' s'. ?body p s = Ret s' \<and> J as' bs s'"
      unfolding J_def D(1,2) by fastforce
  qed
  then show ?thesis by (auto simp: delete_session_def J_def cleaned_def)
qed

lemma travel_from_ok:
  assumes "table_inv cfg chs m" "b + n \<le> nbuckets m"
  shows "\<exists>m'. travel_from cfg clock b n m = Ret m'
    \<and> table_inv cfg (\<lambda>c. if b \<le> c \<and> c < b + n then filter (keeps cfg (clock c) m) (chs c) else chs c) m'
    \<and> items m' = items m \<and> num_buckets m' = num_buckets m \<and> mindex m' = mindex m"
  using assms
proof (induction n arbitrary: b m chs)
  case (Suc n)
  let ?chs = "chs(b := filter (keeps cfg (clock b) m) (chs b))"
  have "b < nbuckets m" using Suc.prems(2) by simp
  from delete_session_ok [OF Suc.prems(1) this, of "clock b"] obtain m1
    where m1: "delete_session cfg (clock b) b m = Ret m1" "table_inv cfg ?chs m1"
      "items m1 = items m" "num_buckets m1 = num_buckets m" "mindex m1 = mindex m" by blast
  have nb: "Suc b + n \<le> nbuckets m1" using Suc.prems(2) m1(4) by (simp add: nbuckets_def)
  have k: "keeps cfg t m1 = keeps cfg t m" for t using m1(3) by (simp add: keeps_def fun_eq_iff)
  have "(\<lambda>c. if Suc b \<le> c \<and> c < Suc b + n then filter (keeps cfg (clock c) m) (?chs c) else ?chs c)
      = (\<lambda>c. if b \<le> c \<and> c < b + Suc n then filter (keeps cfg (clock c) m) (chs c) else chs c)"
    by (auto simp: fun_eq_iff)
  then show ?case using Suc.IH [OF m1(2) nb, unfolded k] m1 by auto
next
  case 0
  have "(\<lambda>c. if b \<le> c \<and> c < b + 0 then filter (keeps cfg (clock c) m) (chs c) else chs c) = chs"
    by (auto simp: fun_eq_iff)
  then show ?case using 0 by simp
qed

definition expire_spec ::
    "sim_config \<Rightarrow> (key \<Rightarrow> u64) \<Rightarrow> (key \<Rightarrow> session option) \<Rightarrow> key \<Rightarrow> session option" where
  "expire_spec cfg now S k =
     (case S k of None \<Rightarrow> None
      | Some (bs, t) \<Rightarrow> if expired cfg (now k) t then None else Some (bs, t))"

text \<open>The map after the buckets in \<open>P\<close> have been swept.\<close>

lemma swept_sessions:
  assumes inv: "table_inv cfg chs m"
    and inv': "table_inv cfg (\<lambda>c. if P c then filter (keeps cfg (clock c) m) (chs c) else chs c) m'"
    and same: "items m' = items m" "num_buckets m' = num_buckets m"
  shows "session_of m' k = (if P (bucket_of m k) then expire_spec cfg (\<lambda>k. clock (bucket_of m k)) (session_of m) k
                            else session_of m k)"
proof (rule option_eqI)
  fix v :: session
  let ?b = "bucket_of m k" and ?chs = "\<lambda>c. if P c then filter (keeps cfg (clock c) m) (chs c) else chs c"
  obtain bs t where v: "v = (bs, t)" by (cases v)
  have bk: "bucket_of m (session_key (items m j)) = c" if "c < nbuckets m" "j \<in> set (chs c)" for c j
    using table_bucket(1) [OF inv that(1)] that(2) by (simp add: bucket_ok_def)
  have lv: "live ?chs m' = {j \<in> live chs m. P (bucket_of m (session_key (items m j))) \<longrightarrow>
      keeps cfg (clock (bucket_of m (session_key (items m j)))) m j}"
    using bk same(2) by (auto simp: live_def nbuckets_def split: if_splits)
  have "session_of m' k = Some v \<longleftrightarrow> (\<exists>j \<in> live chs m. session_key (items m j) = k
      \<and> v = content (items m j) \<and> (P ?b \<longrightarrow> keeps cfg (clock ?b) m j))"
    unfolding session_of_Some [OF inv'] lv same(1) by auto
  also have "\<dots> \<longleftrightarrow> session_of m k = Some v \<and> (P ?b \<longrightarrow> \<not> expired cfg (clock ?b) t)"
    unfolding session_of_Some [OF inv] by (auto simp: keeps_def content_def v)
  also have "\<dots> \<longleftrightarrow> (if P ?b then expire_spec cfg (\<lambda>k. clock (bucket_of m k)) (session_of m) k
                      else session_of m k) = Some v"
    by (auto simp: expire_spec_def v split: option.split)
  finally show "session_of m' k = Some v \<longleftrightarrow> (if P ?b then
      expire_spec cfg (\<lambda>k. clock (bucket_of m k)) (session_of m) k else session_of m k) = Some v" .
qed

lemma hash_travel_delete_refines:
  assumes inv: "table_inv cfg chs m"
  shows "\<exists>m' chs'. hash_travel_delete cfg clock m = Ret m' \<and> table_inv cfg chs' m'
    \<and> items m' = items m \<and> num_buckets m' = num_buckets m \<and> mindex m' = mindex m
    \<and> session_of m' = expire_spec cfg (\<lambda>k. clock (bucket_of m k)) (session_of m)"
proof -
  let ?P = "\<lambda>c. 0 \<le> c \<and> c < 0 + nbuckets m"
  from travel_from_ok [OF inv, of 0 "nbuckets m" clock] obtain m'
    where m': "hash_travel_delete cfg clock m = Ret m'"
      "table_inv cfg (\<lambda>c. if ?P c then filter (keeps cfg (clock c) m) (chs c) else chs c) m'"
      "items m' = items m" "num_buckets m' = num_buckets m" "mindex m' = mindex m"
    by (auto simp: hash_travel_delete_def nbuckets_def)
  have "session_of m' = expire_spec cfg (\<lambda>k. clock (bucket_of m k)) (session_of m)"
    using swept_sessions [OF inv m'(2-4)] bucket_of_less inv
    by (auto simp: fun_eq_iff table_inv_def)
  with m' show ?thesis by blast
qed

lemma delete_session_refines:
  assumes inv: "table_inv cfg chs m" and b: "b < nbuckets m"
  shows "\<exists>m' chs'. delete_session cfg now b m = Ret m' \<and> table_inv cfg chs' m'
    \<and> num_buckets m' = num_buckets m \<and> mindex m' = mindex m
    \<and> session_of m' = (\<lambda>k. if bucket_of m k = b then expire_spec cfg (\<lambda>_. now) (session_of m) k
                            else session_of m k)"
proof -
  have c: "chs(b := filter (keeps cfg now m) (chs b))
      = (\<lambda>c. if c = b then filter (keeps cfg now m) (chs c) else chs c)" by auto
  from delete_session_ok [OF assms, of now] obtain m'
    where m': "delete_session cfg now b m = Ret m'"
      "table_inv cfg (\<lambda>c. if c = b then filter (keeps cfg now m) (chs c) else chs c) m'"
      "items m' = items m" "num_buckets m' = num_buckets m" "mindex m' = mindex m"
    unfolding c by blast
  from swept_sessions [OF inv m'(2-4)] m' show ?thesis by (auto simp: fun_eq_iff)
qed

section \<open>Counting\<close>

lemma fold_plus: "fold (\<lambda>b (cnt::u32). cnt + g b) bs a = a + (\<Sum>b\<leftarrow>bs. g b)"
  by (induction bs arbitrary: a) (simp_all add: add.assoc)

lemma hash_count_live:
  assumes inv: "table_inv cfg chs m"
  shows "unat (hash_count m) = card (live chs m)" "card (live chs m) \<le> 2 ^ MANAGER_POOL"
proof -
  have len: "bcount m b = of_nat (length (chs b)) \<and> length (chs b) = card (set (chs b))" if "b < nbuckets m" for b
    using table_bucket(1) [OF inv that] by (auto simp: bucket_ok_def distinct_map distinct_card)
  have "card (live chs m) = (\<Sum>b<nbuckets m. card (set (chs b)))"
    unfolding live_def using inv by (intro card_UN_disjoint) (auto simp: table_inv_def)
  also have "\<dots> = (\<Sum>b<nbuckets m. length (chs b))" using len by (intro sum.cong) auto
  finally have c: "card (live chs m) = (\<Sum>b<nbuckets m. length (chs b))" .
  have "hash_count m = (\<Sum>b\<leftarrow>[0..<nbuckets m]. bcount m b)"
    by (simp add: hash_count_def fold_plus nbuckets_def)
  also have "\<dots> = (\<Sum>b<nbuckets m. bcount m b)"
    by (simp add: sum_set_upt_conv_sum_list_nat [symmetric] atLeast0LessThan)
  also have "\<dots> = of_nat (\<Sum>b<nbuckets m. length (chs b))"
    using len by (simp add: of_nat_sum)
  finally have h: "hash_count m = of_nat (card (live chs m))" by (simp add: c)
  have "live chs m \<subseteq> {..<2 ^ MANAGER_POOL}" using inv by (auto simp: table_inv_def pool_ok_def)
  then show le: "card (live chs m) \<le> 2 ^ MANAGER_POOL"
    using card_mono [of "{..<2 ^ MANAGER_POOL :: nat}"] by simp
  show "unat (hash_count m) = card (live chs m)"
    unfolding h using le by (intro unat_of_nat_small) (simp add: MANAGER_POOL_def)
qed

lemma hash_count_sessions:
  assumes inv: "table_inv cfg chs m"
  shows "unat (hash_count m) = card (dom (session_of m))"
proof -
  have "dom (session_of m) = (\<lambda>j. session_key (items m j)) ` live chs m"
  proof (rule set_eqI)
    fix k
    have "k \<in> dom (session_of m) \<longleftrightarrow> (\<exists>v. session_of m k = Some v)" by auto
    also have "\<dots> \<longleftrightarrow> k \<in> (\<lambda>j. session_key (items m j)) ` live chs m"
      unfolding session_of_Some [OF inv] by blast
    finally show "k \<in> dom (session_of m) \<longleftrightarrow> k \<in> (\<lambda>j. session_key (items m j)) ` live chs m" .
  qed
  moreover have "inj_on (\<lambda>j. session_key (items m j)) (live chs m)"
    using live_key_inj [OF inv] by (auto intro: inj_onI)
  ultimately show ?thesis using hash_count_live(1) [OF inv] by (simp add: card_image)
qed

section \<open>Creation\<close>

lemma init_buckets_result:
  assumes "int n * SIZEOF_BUCKET \<le> bytes"
  shows "\<exists>h' c'. init_buckets bytes n h c = Ret (h', c')
    \<and> (\<forall>b<n. dlist h' (Bucket b) [] \<and> c' b = 0) \<and> (\<forall>j. h' (Blist j) = h (Blist j))"
  using assms
proof (induction n)
  case (Suc n)
  then obtain h1 c1 where i: "init_buckets bytes n h c = Ret (h1, c1)" "\<forall>b<n. dlist h1 (Bucket b) [] \<and> c1 b = 0"
    "\<forall>j. h1 (Blist j) = h (Blist j)" by (auto simp: SIZEOF_BUCKET_def)
  let ?h = "INIT_LIST_HEAD h1 (Bucket n)"
  have "init_buckets bytes (Suc n) h c = Ret (?h, c1(n := 0))" using Suc.prems i(1) by simp
  moreover have "dlist ?h (Bucket b) [] = dlist h1 (Bucket b) []" if "b < n" for b
    by (rule dlist_frame) (use that in \<open>auto intro!: INIT_LIST_HEAD_other\<close>)
  ultimately show ?case
    using i(2,3) by (intro exI [of _ ?h] exI [of _ "c1(n := 0)"]) (auto simp: less_Suc_eq simp del: init_buckets.simps)
qed simp

text \<open>An array that is too small for the last bucket is left by the loop.\<close>

lemma init_buckets_overrun:
  assumes "bytes < int n * SIZEOF_BUCKET" "0 \<le> bytes"
  shows "init_buckets bytes n h c = Fault"
  using assms
proof (induction n)
  case (Suc n)
  show ?case
  proof (cases "bytes < int n * SIZEOF_BUCKET")
    case True
    then show ?thesis using Suc by simp
  next
    case False
    then obtain r where "init_buckets bytes n h c = Ret r" using init_buckets_result [of n bytes h c] by auto
    then show ?thesis using Suc.prems by (cases r) simp
  qed
qed simp

text \<open>A manager whose session pool holds every session: after \<^verbatim>\<open>hash_create\<close> the table is empty.\<close>

definition pool_filled :: "sim_config \<Rightarrow> manager \<Rightarrow> bool" where
  "pool_filled cfg m \<longleftrightarrow>
     intel_inv MANAGER_POOL (session_pool m)
     \<and> intel_list MANAGER_POOL (session_pool m) = [0..<2 ^ MANAGER_POOL]
     \<and> 0 \<le> manager_buffer_size cfg \<and> manager_buffer_size cfg < 2 ^ 31
     \<and> (\<forall>j<2 ^ MANAGER_POOL. length (buffer (items m j)) = nat (manager_buffer_size cfg))"

lemma hash_create_result:
  assumes "next_prime num = Some n" "0 < n" "n * SIZEOF_BUCKET < 2 ^ 31"
  obtains h c where "hash_create num m = Ret (m\<lparr>links := h, bcount := c, num_buckets := n\<rparr>)"
    "\<forall>b<nat n. dlist h (Bucket b) [] \<and> c b = 0"
proof -
  have b: "int_of_long (n * SIZEOF_BUCKET) = n * SIZEOF_BUCKET" "0 \<le> n * SIZEOF_BUCKET"
    using assms(2,3) by (simp_all add: int_of_long_small SIZEOF_BUCKET_def)
  then obtain h c where i: "init_buckets (n * SIZEOF_BUCKET) (nat n) (links m) (bcount m) = Ret (h, c)"
    "\<forall>b<nat n. dlist h (Bucket b) [] \<and> c b = 0"
    using init_buckets_result [of "nat n" "n * SIZEOF_BUCKET" "links m" "bcount m"] assms(2) by auto
  have "hash_create num m = Ret (m\<lparr>links := h, bcount := c, num_buckets := n\<rparr>)"
    using assms(1) b i(1) by (simp add: hash_create_def Let_def malloc_or_exit_def)
  then show thesis using that i(2) by blast
qed

text \<open>A table of 2 GiB or more: the size is cut to 32 bits, and the process exits or leaves the array.\<close>

lemma hash_create_too_large:
  assumes "next_prime num = Some n" "2 ^ 31 \<le> n * SIZEOF_BUCKET"
  shows "hash_create num m \<in> {Exits (- 1), Fault}"
proof -
  let ?b = "int_of_long (n * SIZEOF_BUCKET)"
  have n: "int (nat n) = n" using assms(2) by (simp add: SIZEOF_BUCKET_def)
  have "?b < 2 ^ 31" using sint_lt [of "word_of_int (n * SIZEOF_BUCKET) :: u32"] by (simp add: int_of_long_def)
  then have "?b < int (nat n) * SIZEOF_BUCKET" unfolding n using assms(2) by linarith
  then have "init_buckets ?b (nat n) (links m) (bcount m) = Fault" if "0 \<le> ?b"
    using init_buckets_overrun that by blast
  then show ?thesis using assms(1) by (auto simp: hash_create_def Let_def malloc_or_exit_def)
qed

lemma fresh_table:
  assumes "pool_filled cfg m" "0 < num_buckets m" "num_buckets m < 2 ^ 31"
    and "\<forall>b<nbuckets m. dlist (links m) (Bucket b) [] \<and> bcount m b = 0"
  shows "table_inv cfg (\<lambda>_. []) m \<and> session_of m = (\<lambda>_. None)"
proof -
  have inv: "table_inv cfg (\<lambda>_. []) m"
    using assms
    by (auto simp: table_inv_def sizes_ok_def pool_ok_def pool_filled_def bucket_ok_def live_def)
  have "session_of m k = None" for k
    using session_of_Some [OF inv] by (intro option_eqI) (auto simp: live_def)
  with inv show ?thesis by auto
qed

text \<open>The manager's queue and counters are no part of the table.\<close>

lemma session_of_frame:
  assumes "links m' = links m" "items m' = items m" "num_buckets m' = num_buckets m"
  shows "session_of m' = session_of m"
proof -
  have "has_key m' = has_key m" by (intro ext) (simp only: has_key_def assms)
  then show ?thesis by (intro ext) (simp only: session_of_def bucket_of_def assms)
qed

lemma table_frame [simp]:
  "table_inv cfg chs (m\<lparr>mqueue := q\<rparr>) = table_inv cfg chs m"
  "table_inv cfg chs (m\<lparr>m_alive := a\<rparr>) = table_inv cfg chs m"
  by (simp_all add: table_inv_def sizes_ok_def pool_ok_def bucket_ok_def live_def nbuckets_def
      session_ok_def bucket_of_def)

lemma session_frame [simp]:
  "session_of (m\<lparr>mqueue := q\<rparr>) = session_of m"
  "session_of (m\<lparr>m_alive := a\<rparr>) = session_of m"
  by (rule session_of_frame, simp_all)+

section \<open>Errors of insertion\<close>

text \<open>No free session: the manager spins.\<close>

lemma hash_add_pool_empty:
  assumes inv: "table_inv cfg chs m" and "session_of m (flow_key (flows w f)) = None"
    and "intel_list MANAGER_POOL (session_pool m) = []"
  shows "hash_add_item cfg now (bucket_index (word_of_int (num_buckets m)) (flow_key (flows w f))) f (m, w) = Spin"
proof -
  have "intel_dequeue MANAGER_POOL (session_pool m) = None" using assms(3) intel_dequeue_None by blast
  then show ?thesis using hash_add_item_cases(1) [OF inv assms(2), of now] by (simp add: add_new_def)
qed

text \<open>A first payload longer than the buffer: \<^verbatim>\<open>make_new_session\<close> copies without a check.\<close>

lemma hash_add_overrun:
  assumes inv: "table_inv cfg chs m" and none: "session_of m (flow_key (flows w f)) = None"
    and pool: "intel_list MANAGER_POOL (session_pool m) \<noteq> []"
    and long: "nat (manager_buffer_size cfg) < unat (payload_len (flows w f))"
  shows "hash_add_item cfg now (bucket_index (word_of_int (num_buckets m)) (flow_key (flows w f))) f (m, w) = Fault"
proof -
  obtain j free where l: "intel_list MANAGER_POOL (session_pool m) = j # free"
    using pool by (cases "intel_list MANAGER_POOL (session_pool m)") auto
  have p: "pool_ok chs m" "sizes_ok cfg m" using inv by (auto simp: table_inv_def)
  then have "intel_inv MANAGER_POOL (session_pool m)" by (simp add: pool_ok_def)
  from ip.deq_nonempty [OF this l] obtain q
    where q: "intel_dequeue MANAGER_POOL (session_pool m) = Some (j, q)" .
  have "j \<in> set (intel_list MANAGER_POOL (session_pool m))" using l by simp
  then have "j < 2 ^ MANAGER_POOL" using p(1) by (auto simp: pool_ok_def)
  then have "length (buffer (items m j)) < unat (payload_len (flows w f))"
    using p(2) long by (simp add: sizes_ok_def)
  then have "make_new_session cfg now w (m\<lparr>session_pool := q\<rparr>) j (flows w f) = Fault"
    by (simp add: make_new_session_def Let_def memcpy_def)
  then show ?thesis using hash_add_item_cases(1) [OF inv none, of now] by (simp add: add_new_def q)
qed

text \<open>A manager before its initialisation, for evaluating the properties.\<close>

definition demo_manager :: manager where
  "demo_manager = \<lparr>mindex = 0, links = \<lambda>_. \<lparr>next_of = None, prev_of = None\<rparr>,
     items = \<lambda>_. \<lparr>s_upper_ip = 0, s_lower_ip = 0, s_upper_port = 0, s_lower_port = 0, s_protocol = 0,
       buffer = [], last_time = 0, slength = 0, cur_len = 0, spool = None\<rparr>,
     bcount = \<lambda>_. 0, num_buckets = 0, session_pool = intel_init LG2_CAPACITY 0 [],
     mqueue = intel_init LG2_CAPACITY 0 [], m_alive = 0, m_drop_cause_pool_empty = 0\<rparr>"

end
