(* ===== verification/Map_Machine.thy ===== *)
theory Map_Machine
  imports Fp_Prelude
begin

text \<open>
  The interface between a stateful table and its clients: steps that may spin or fault, an
  invariant, and an abstract value (for the session table, a map) on which every step has a
  specification. \<open>env\<close> is the part of the state that no step changes and on which the
  specifications depend. A client that issues a sequence of steps, in whatever order several
  threads produce it, sees the fold of the specifications.
\<close>

locale map_machine =
  fixes step :: "'e \<Rightarrow> 's \<Rightarrow> 's run"
    and ready :: "'e \<Rightarrow> 's \<Rightarrow> bool"
    and invar :: "'s \<Rightarrow> bool"
    and abs :: "'s \<Rightarrow> 'm"
    and env :: "'s \<Rightarrow> 'c"
    and spec :: "'c \<Rightarrow> 'e \<Rightarrow> 'm \<Rightarrow> 'm"
  assumes step_ok: "invar s \<Longrightarrow> ready e s \<Longrightarrow>
      \<exists>s'. step e s = Ret s' \<and> invar s' \<and> abs s' = spec (env s) e (abs s) \<and> env s' = env s"
begin

fun steps :: "'e list \<Rightarrow> 's \<Rightarrow> 's run" where
  "steps [] s = Ret s"
| "steps (e # es) s = run_bind (step e s) (steps es)"

fun all_ready :: "'e list \<Rightarrow> 's \<Rightarrow> bool" where
  "all_ready [] s = True"
| "all_ready (e # es) s = (ready e s \<and> (case step e s of Ret s' \<Rightarrow> all_ready es s' | _ \<Rightarrow> False))"

lemma steps_refine:
  assumes "invar s" "all_ready es s"
  shows "\<exists>s'. steps es s = Ret s' \<and> invar s' \<and> abs s' = fold (spec (env s)) es (abs s) \<and> env s' = env s"
  using assms
proof (induction es arbitrary: s)
  case (Cons e es)
  then obtain s1 where s1: "step e s = Ret s1" "invar s1" "abs s1 = spec (env s) e (abs s)" "env s1 = env s"
    using step_ok [of s e] by auto
  with Cons.prems Cons.IH [of s1] show ?case by auto
qed simp

lemma steps_append: "steps (es @ fs) s = run_bind (steps es s) (steps fs)"
proof (induction es arbitrary: s)
  case (Cons e es)
  then have "steps (es @ fs) = (\<lambda>s. run_bind (steps es s) (steps fs))" by (intro ext)
  then show ?case by (simp add: run_bind_assoc)
qed simp

end

end
