(* ===== verification/Packet_Manager.thy ===== *)
theory Packet_Manager
  imports Session_Table Map_Machine
begin

text \<open>
  \<^verbatim>\<open>src/packet_manager.c\<close>: the manager thread that files flows into its session table, the
  cleaner that removes expired sessions, and their initialisation. A loop that runs for ever is
  modelled by one pass of its body. The manager and the cleaner take the lock of a bucket for a
  whole insertion or a whole visit of that bucket, so a run of the two threads on a table is a
  sequence of \<open>Add\<close> and \<open>Sweep\<close> events in some order; the theory \<open>Bucket_Lock\<close> has the locks themselves
  and shows that this view is justified.
\<close>

section \<open>The manager thread\<close>

definition manager_pass :: "sim_config \<Rightarrow> u64 \<Rightarrow> manager \<times> world \<Rightarrow> (manager \<times> world) run" where
  "manager_pass cfg now = (\<lambda>(m, w).
     let m0 = m\<lparr>m_alive := m_alive m + 1\<rparr>
     in run_bind (spin_until (intel_dequeue LG2_CAPACITY (mqueue m0))) (\<lambda>(f, q).
        let m1 = m0\<lparr>mqueue := q\<rparr>; flow = flows w f
        in if pipe_depth cfg > 4
           then if num_buckets m1 = 0 then Fault
                else let index = MAKE_HASH (lower_port flow) (upper_ip flow) (upper_port flow)
                                   (lower_ip flow) (word_of_int (num_buckets m1))
                     in hash_add_item cfg now index f (m1, w)
           else run_bind (release_flow f w) (\<lambda>w'. Ret (m1, w'))))"

section \<open>The cleaners\<close>

text \<open>One round of \<^verbatim>\<open>process_all_session\<close>: \<open>clock i b\<close> is the time read at bucket \<open>b\<close> of manager \<open>i\<close>.\<close>

fun clean_from :: "sim_config \<Rightarrow> (nat \<Rightarrow> nat \<Rightarrow> u64) \<Rightarrow> nat \<Rightarrow> manager list \<Rightarrow> manager list run" where
  "clean_from cfg clock i [] = Ret []"
| "clean_from cfg clock i (m # ms) =
     run_bind (hash_travel_delete cfg (clock i) m) (\<lambda>m'.
     run_bind (clean_from cfg clock (Suc i) ms) (\<lambda>ms'. Ret (m' # ms')))"

definition process_all_session :: "sim_config \<Rightarrow> (nat \<Rightarrow> nat \<Rightarrow> u64) \<Rightarrow> manager list \<Rightarrow> manager list run" where
  "process_all_session cfg clock ms = clean_from cfg clock 0 ms"

text \<open>One round of \<^verbatim>\<open>process_session\<close>, the cleaner of a single manager, with the time it then waits.\<close>

definition process_session :: "sim_config \<Rightarrow> (nat \<Rightarrow> u64) \<Rightarrow> manager \<Rightarrow> (manager \<times> u64) run" where
  "process_session cfg clock m =
     (let interval = word_of_int (destory_time cfg) * 1000 * word_of_int (mhz cfg)
      in run_bind (hash_travel_delete cfg clock m) (\<lambda>m'. Ret (m', interval)))"

text \<open>The delay loops: \<^verbatim>\<open>while (GET_CYCLE_COUNT() < start_cycle + interval) continue;\<close>.\<close>

definition round_over :: "u64 \<Rightarrow> u64 \<Rightarrow> u64 \<Rightarrow> bool" where
  "round_over start_cycle interval t \<longleftrightarrow> \<not> t < start_cycle + interval"

section \<open>Initialisation\<close>

text \<open>
  \<open>bufs j\<close> is the area \<^verbatim>\<open>malloc(manager_buffer_size)\<close> gives for session \<open>j\<close>; \<open>null\<close>, \<open>junkq\<close> and
  \<open>junkp\<close> are what the fresh queue arrays hold. The result of the enqueue is ignored, as in the code.
\<close>

fun fill_pool :: "(nat \<Rightarrow> u8 list) \<Rightarrow> nat \<Rightarrow> manager \<Rightarrow> manager" where
  "fill_pool bufs 0 m = m"
| "fill_pool bufs (Suc j) m =
     (let m1 = fill_pool bufs j m;
          m2 = m1\<lparr>items := (items m1)(j := (items m1 j)\<lparr>buffer := bufs j\<rparr>)\<rparr>
      in case intel_enqueue MANAGER_POOL (session_pool m2) j of
           None \<Rightarrow> m2 | Some q \<Rightarrow> m2\<lparr>session_pool := q\<rparr>)"

definition init_signle_manager ::
    "sim_config \<Rightarrow> nat \<Rightarrow> nat list \<Rightarrow> nat list \<Rightarrow> (nat \<Rightarrow> u8 list) \<Rightarrow> nat \<Rightarrow> manager \<Rightarrow> manager run" where
  "init_signle_manager cfg null junkq junkp bufs i m =
     (let m1 = m\<lparr>mqueue := intel_init LG2_CAPACITY null junkq\<rparr>
      in run_bind (hash_create (manager_hash_length cfg) m1) (\<lambda>m2.
         let m3 = m2\<lparr>session_pool := intel_init MANAGER_POOL null junkp\<rparr>;
             m4 = fill_pool bufs (2 ^ MANAGER_POOL) m3
         in Ret (m4\<lparr>mindex := i, m_drop_cause_pool_empty := 0\<rparr>)))"

text \<open>The group; the second component says whether the cleaner thread is started.\<close>

fun init_managers ::
    "sim_config \<Rightarrow> nat \<Rightarrow> nat list \<Rightarrow> nat list \<Rightarrow> (nat \<Rightarrow> u8 list) \<Rightarrow> manager \<Rightarrow> nat \<Rightarrow> manager list run" where
  "init_managers cfg null junkq junkp bufs m0 0 = Ret []"
| "init_managers cfg null junkq junkp bufs m0 (Suc n) =
     run_bind (init_managers cfg null junkq junkp bufs m0 n) (\<lambda>ms.
     run_bind (init_signle_manager cfg null junkq junkp bufs n m0) (\<lambda>m. Ret (ms @ [m])))"

definition init_manager_group ::
    "sim_config \<Rightarrow> nat \<Rightarrow> nat list \<Rightarrow> nat list \<Rightarrow> (nat \<Rightarrow> u8 list) \<Rightarrow> manager \<Rightarrow> (manager list \<times> bool) run" where
  "init_manager_group cfg null junkq junkp bufs m0 =
     run_bind (malloc_or_exit (manager_nums cfg)) (\<lambda>_.
     run_bind (init_managers cfg null junkq junkp bufs m0 (nat (manager_nums cfg))) (\<lambda>ms.
     Ret (ms, pipe_depth cfg > 4)))"

section \<open>Filling the pool\<close>

lemma fill_pool_result:
  assumes "intel_inv MANAGER_POOL (session_pool m)" "intel_list MANAGER_POOL (session_pool m) = []"
    and "n \<le> 2 ^ MANAGER_POOL"
  shows "intel_inv MANAGER_POOL (session_pool (fill_pool bufs n m))
       \<and> intel_list MANAGER_POOL (session_pool (fill_pool bufs n m)) = [0..<n]
       \<and> (\<forall>j<n. buffer (items (fill_pool bufs n m) j) = bufs j)
       \<and> links (fill_pool bufs n m) = links m \<and> bcount (fill_pool bufs n m) = bcount m
       \<and> num_buckets (fill_pool bufs n m) = num_buckets m \<and> mqueue (fill_pool bufs n m) = mqueue m"
  using assms(3)
proof (induction n)
  case (Suc n)
  let ?m = "fill_pool bufs n m"
  have IH: "intel_inv MANAGER_POOL (session_pool ?m)" "intel_list MANAGER_POOL (session_pool ?m) = [0..<n]"
    using Suc by auto
  obtain q where q: "intel_enqueue MANAGER_POOL (session_pool ?m) n = Some q"
    "intel_inv MANAGER_POOL q" "intel_list MANAGER_POOL q = [0..<n] @ [n]"
    using ip.enq_room [OF IH(1), of n] IH(2) Suc.prems by auto
  with Suc show ?case by (simp add: less_Suc_eq Let_def)
qed (use assms in simp)

lemma init_signle_manager_ok:
  assumes "0 \<le> manager_hash_length cfg" "next_prime (manager_hash_length cfg) = Some n" "0 < n" "n * SIZEOF_BUCKET < 2 ^ 31"
    and "0 \<le> manager_buffer_size cfg" "manager_buffer_size cfg < 2 ^ 31"
    and "\<And>j. length (bufs j) = nat (manager_buffer_size cfg)"
    and "length junkq = 2 ^ LG2_CAPACITY" "length junkp = 2 ^ MANAGER_POOL"
  shows "\<exists>m'. init_signle_manager cfg null junkq junkp bufs i m = Ret m' \<and> table_inv cfg (\<lambda>_. []) m'
           \<and> session_of m' = (\<lambda>_. None) \<and> num_buckets m' = n \<and> mindex m' = i
           \<and> intel_inv LG2_CAPACITY (mqueue m') \<and> intel_list LG2_CAPACITY (mqueue m') = []"
proof -
  have n: "n < 2 ^ 31" using assms(3,4) by (simp add: SIZEOF_BUCKET_def)
  let ?m1 = "m\<lparr>mqueue := intel_init LG2_CAPACITY null junkq\<rparr>"
  obtain h c where hc: "hash_create (manager_hash_length cfg) ?m1
      = Ret (?m1\<lparr>links := h, bcount := c, num_buckets := n\<rparr>)"
    "\<forall>b<nat n. dlist h (Bucket b) [] \<and> c b = 0"
    using hash_create_result [OF assms(2-4)] by blast
  let ?m3 = "?m1\<lparr>links := h, bcount := c, num_buckets := n, session_pool := intel_init MANAGER_POOL null junkp\<rparr>"
  let ?m4 = "fill_pool bufs (2 ^ MANAGER_POOL) ?m3"
  let ?m' = "?m4\<lparr>mindex := i, m_drop_cause_pool_empty := 0\<rparr>"
  have "intel_inv MANAGER_POOL (session_pool ?m3)" "intel_list MANAGER_POOL (session_pool ?m3) = []"
    using intel_init_inv [of MANAGER_POOL junkp null] assms(9) by (simp_all add: MANAGER_POOL_def)
  note F = fill_pool_result [OF this order_refl, of bufs]
  have "pool_filled cfg ?m'" using F assms(5-7) by (simp add: pool_filled_def)
  moreover have "num_buckets ?m' = n" "links ?m' = h" "bcount ?m' = c" using F by simp_all
  ultimately have "table_inv cfg (\<lambda>_. []) ?m' \<and> session_of ?m' = (\<lambda>_. None)"
    using fresh_table [of cfg ?m'] assms(3) n hc(2) by (simp add: nbuckets_def)
  moreover have "intel_inv LG2_CAPACITY (mqueue ?m') \<and> intel_list LG2_CAPACITY (mqueue ?m') = []"
    using F intel_init_inv [of LG2_CAPACITY junkq null] assms(8) by (simp add: LG2_CAPACITY_def)
  moreover have "init_signle_manager cfg null junkq junkp bufs i m = Ret ?m'"
    by (simp add: init_signle_manager_def hc(1))
  ultimately show ?thesis using F by auto
qed

section \<open>The manager files what it takes from its queue\<close>

lemma bucket_index_flow:
  "MAKE_HASH (lower_port f) (upper_ip f) (upper_port f) (lower_ip f) n = bucket_index n (flow_key f)"
  by (simp add: bucket_index_def flow_key_def)

lemma manager_pass_add:
  assumes inv: "table_inv cfg chs m" and q: "intel_inv LG2_CAPACITY (mqueue m)" "intel_list LG2_CAPACITY (mqueue m) = f # fs"
    and depth: "4 < pipe_depth cfg"
    and fits: "payload_inside w (flows w f)" "unat (payload_len (flows w f)) \<le> nat (manager_buffer_size cfg)"
    and rel: "can_release f w"
    and room: "session_of m (flow_key (flows w f)) \<noteq> None \<or> intel_list MANAGER_POOL (session_pool m) \<noteq> []"
  shows "\<exists>m' w' chs'. manager_pass cfg now (m, w) = Ret (m', w') \<and> table_inv cfg chs' m'
    \<and> num_buckets m' = num_buckets m \<and> mindex m' = mindex m \<and> released f w w'
    \<and> session_of m' = add_spec (nat (manager_buffer_size cfg)) now (flow_key (flows w f))
                        (flow_bytes w (flows w f)) (session_of m)"
proof -
  obtain q' where q': "intel_dequeue LG2_CAPACITY (mqueue m) = Some (f, q')"
    using iq.deq_nonempty [OF q] by blast
  let ?m = "m\<lparr>m_alive := m_alive m + 1, mqueue := q'\<rparr>"
  have "num_buckets m \<noteq> 0" using inv by (auto simp: table_inv_def sizes_ok_def)
  then have "manager_pass cfg now (m, w)
      = hash_add_item cfg now (bucket_index (word_of_int (num_buckets m)) (flow_key (flows w f))) f (?m, w)"
    using depth by (simp add: manager_pass_def q' bucket_index_flow)
  with hash_add_refines [of cfg chs ?m w f now] inv fits rel room show ?thesis by simp
qed

lemma manager_pass_drop:
  assumes q: "intel_inv LG2_CAPACITY (mqueue m)" "intel_list LG2_CAPACITY (mqueue m) = f # fs"
    and depth: "pipe_depth cfg \<le> 4" and rel: "can_release f w"
  shows "\<exists>m' w'. manager_pass cfg now (m, w) = Ret (m', w') \<and> released f w w'
    \<and> session_of m' = session_of m \<and> intel_list LG2_CAPACITY (mqueue m') = fs"
proof -
  obtain q' where q': "intel_dequeue LG2_CAPACITY (mqueue m) = Some (f, q')" "intel_list LG2_CAPACITY q' = fs"
    using iq.deq_nonempty [OF q] by blast
  obtain w' where "release_flow f w = Ret w'" "released f w w'" using release_flow_ok [OF rel] by blast
  with depth q' show ?thesis by (simp add: manager_pass_def)
qed

section \<open>Two threads on one table\<close>

datatype table_event =
    Add u64 nat     \<comment> \<open>the manager inserts flow \<open>f\<close>, reading the clock once\<close>
  | Sweep u64 nat   \<comment> \<open>the cleaner visits one bucket, reading the clock once\<close>

fun table_step :: "sim_config \<Rightarrow> table_event \<Rightarrow> manager \<times> world \<Rightarrow> (manager \<times> world) run" where
  "table_step cfg (Add now f) (m, w) =
     (if num_buckets m = 0 then Fault
      else hash_add_item cfg now
             (MAKE_HASH (lower_port (flows w f)) (upper_ip (flows w f)) (upper_port (flows w f))
                (lower_ip (flows w f)) (word_of_int (num_buckets m))) f (m, w))"
| "table_step cfg (Sweep now b) (m, w) = run_bind (delete_session cfg now b m) (\<lambda>m'. Ret (m', w))"

text \<open>When a step is sure to return: the payload is inside its packet and fits a buffer, the pools it
  is given back to have room, and there is a session for it or a free one.\<close>

fun event_ready :: "sim_config \<Rightarrow> table_event \<Rightarrow> manager \<times> world \<Rightarrow> bool" where
  "event_ready cfg (Add now f) (m, w) \<longleftrightarrow>
     payload_inside w (flows w f) \<and> unat (payload_len (flows w f)) \<le> nat (manager_buffer_size cfg)
     \<and> can_release f w
     \<and> (session_of m (flow_key (flows w f)) \<noteq> None \<or> intel_list MANAGER_POOL (session_pool m) \<noteq> [])"
| "event_ready cfg (Sweep now b) (m, w) \<longleftrightarrow> b < nbuckets m"

definition table_env :: "manager \<times> world \<Rightarrow> int \<times> (nat \<Rightarrow> packet) \<times> (nat \<Rightarrow> flow_item)" where
  "table_env = (\<lambda>(m, w). (num_buckets m, packets w, flows w))"

text \<open>What an event does to the map; only the packets, the flows and the number of buckets matter.\<close>

fun event_spec :: "sim_config \<Rightarrow> int \<times> (nat \<Rightarrow> packet) \<times> (nat \<Rightarrow> flow_item) \<Rightarrow> table_event
    \<Rightarrow> (key \<Rightarrow> session option) \<Rightarrow> key \<Rightarrow> session option" where
  "event_spec cfg (n, ps, fs) (Add now f) S =
     add_spec (nat (manager_buffer_size cfg)) now (flow_key (fs f))
       (take (unat (payload_len (fs f))) (drop (snd (payload (fs f))) (data (ps (fst (payload (fs f))))))) S"
| "event_spec cfg (n, ps, fs) (Sweep now b) S =
     (\<lambda>k. if unat (bucket_index (word_of_int n) k) = b then expire_spec cfg (\<lambda>_. now) S k else S k)"

definition state_inv :: "sim_config \<Rightarrow> manager \<times> world \<Rightarrow> bool" where
  "state_inv cfg = (\<lambda>(m, w). \<exists>chs. table_inv cfg chs m)"

interpretation st: map_machine "table_step cfg" "event_ready cfg" "state_inv cfg"
    "\<lambda>(m, w). session_of m" table_env "event_spec cfg" for cfg
proof
  fix s e
  assume inv: "state_inv cfg s" and ready: "event_ready cfg e s"
  obtain m w where s: "s = (m, w)" by (cases s)
  from inv s obtain chs where m: "table_inv cfg chs m" by (auto simp: state_inv_def)
  show "\<exists>s'. table_step cfg e s = Ret s' \<and> state_inv cfg s' \<and> (\<lambda>(m, w). session_of m) s'
          = event_spec cfg (table_env s) e ((\<lambda>(m, w). session_of m) s) \<and> table_env s' = table_env s"
  proof (cases e)
    case (Add now f)
    have n: "num_buckets m \<noteq> 0" using m by (auto simp: table_inv_def sizes_ok_def)
    from hash_add_refines [OF m, of w f now] ready Add s obtain m' w' chs'
      where "hash_add_item cfg now (bucket_index (word_of_int (num_buckets m)) (flow_key (flows w f))) f (m, w) = Ret (m', w')"
        "table_inv cfg chs' m'" "num_buckets m' = num_buckets m" "released f w w'"
        "session_of m' = add_spec (nat (manager_buffer_size cfg)) now (flow_key (flows w f))
           (flow_bytes w (flows w f)) (session_of m)" by auto
    with n Add s show ?thesis
      by (auto simp: bucket_index_flow state_inv_def table_env_def released_def flow_bytes_def)
  next
    case (Sweep now b)
    from delete_session_refines [OF m, of b now] ready Sweep s obtain m' chs'
      where "delete_session cfg now b m = Ret m'" "table_inv cfg chs' m'" "num_buckets m' = num_buckets m"
        "session_of m' = (\<lambda>k. if bucket_of m k = b then expire_spec cfg (\<lambda>_. now) (session_of m) k
                              else session_of m k)" by auto
    with Sweep s show ?thesis by (auto simp: state_inv_def table_env_def bucket_of_def)
  qed
qed

lemma clean_from_ok:
  assumes "\<forall>i<length ms. table_inv cfg (chss i) (ms ! i)"
  shows "\<exists>ms'. clean_from cfg clock a ms = Ret ms' \<and> length ms' = length ms
    \<and> (\<forall>i<length ms. (\<exists>chs. table_inv cfg chs (ms' ! i))
         \<and> session_of (ms' ! i) = expire_spec cfg (\<lambda>k. clock (a + i) (bucket_of (ms ! i) k)) (session_of (ms ! i)))"
  using assms
proof (induction ms arbitrary: a chss)
  case (Cons m ms)
  have "table_inv cfg (chss 0) m" using Cons.prems by auto
  from hash_travel_delete_refines [OF this, of "clock a"] obtain m' chs'
    where m': "hash_travel_delete cfg (clock a) m = Ret m'" "table_inv cfg chs' m'"
      "session_of m' = expire_spec cfg (\<lambda>k. clock a (bucket_of m k)) (session_of m)" by blast
  have "\<forall>i<length ms. table_inv cfg (chss (Suc i)) (ms ! i)" using Cons.prems by fastforce
  from Cons.IH [OF this, of "Suc a"] obtain ms'
    where ms': "clean_from cfg clock (Suc a) ms = Ret ms'" "length ms' = length ms"
      "\<forall>i<length ms. (\<exists>chs. table_inv cfg chs (ms' ! i))
         \<and> session_of (ms' ! i) = expire_spec cfg (\<lambda>k. clock (Suc a + i) (bucket_of (ms ! i) k)) (session_of (ms ! i))"
    by blast
  from m' ms' show ?case by (auto simp: nth_Cons split: nat.split)
qed simp

section \<open>A concrete manager\<close>

text \<open>A world with one packet and one flow, for evaluating the properties.\<close>

definition demo_world :: world where
  "demo_world = \<lparr>packets = \<lambda>_. \<lparr>data = [1, 2, 3, 4, 5, 6], plength = 6, ppool = 0\<rparr>,
     flows = \<lambda>_. \<lparr>upper_ip = 9, lower_ip = 7, upper_port = 80, lower_port = 22, protocol = 6,
       fpacket = 0, payload = (0, 2), payload_len = 3, fpool = 0\<rparr>,
     packet_pools = \<lambda>_. intel_init LG2_CAPACITY 0 (replicate (2 ^ LG2_CAPACITY) 0),
     flow_pools = \<lambda>_. intel_init LG2_CAPACITY 0 (replicate (2 ^ LG2_CAPACITY) 0)\<rparr>"

lemma next_prime_8: "next_prime 8 = Some 11"
  by (simp add: next_prime_def next_prime_from.simps divisor_from.simps int_of_long_small)

definition demo_started :: "manager run" where
  "demo_started = init_signle_manager demo_cfg 0 (replicate (2 ^ LG2_CAPACITY) 0)
     (replicate (2 ^ MANAGER_POOL) 0) (\<lambda>_. replicate 64 0) 0 demo_manager"

lemma demo_started_ok:
  "\<exists>m. demo_started = Ret m \<and> table_inv demo_cfg (\<lambda>_. []) m \<and> session_of m = (\<lambda>_. None)
     \<and> num_buckets m = 11 \<and> mindex m = 0 \<and> intel_inv LG2_CAPACITY (mqueue m)
     \<and> intel_list LG2_CAPACITY (mqueue m) = []"
  unfolding demo_started_def
proof (rule init_signle_manager_ok)
  show "next_prime (manager_hash_length demo_cfg) = Some 11" unfolding demo_fields by (rule next_prime_8)
  show "length (replicate 64 (0::u8)) = nat (manager_buffer_size demo_cfg)"
    unfolding demo_fields length_replicate by simp
qed (simp_all only: demo_fields length_replicate, simp_all add: SIZEOF_BUCKET_def)

lemma demo_pool:
  assumes "table_inv cfg (\<lambda>_. []) m"
  shows "intel_list MANAGER_POOL (session_pool m) \<noteq> []"
proof -
  have "set (intel_list MANAGER_POOL (session_pool m)) = {..<2 ^ MANAGER_POOL}"
    using assms by (simp add: table_inv_def pool_ok_def live_def)
  moreover have "(0::nat) \<in> {..<2 ^ MANAGER_POOL}" by simp
  ultimately show ?thesis by (metis empty_iff list.set(1))
qed

lemma demo_ready:
  "payload_inside demo_world (flows demo_world f)"
  "unat (payload_len (flows demo_world f)) \<le> nat (manager_buffer_size demo_cfg)"
  "can_release f demo_world"
proof -
  have "intel_inv LG2_CAPACITY (intel_init LG2_CAPACITY (0::nat) (replicate (2 ^ LG2_CAPACITY) 0))
      \<and> intel_list LG2_CAPACITY (intel_init LG2_CAPACITY (0::nat) (replicate (2 ^ LG2_CAPACITY) 0)) = []"
    by (rule intel_init_inv) (simp_all add: LG2_CAPACITY_def)
  then show "can_release f demo_world"
    by (simp add: can_release_def has_room_def demo_world_def del: length_intel_list)
qed (simp_all add: demo_world_def payload_inside_def)

text \<open>Worlds whose flow has a chosen upper address, and a table that is full.\<close>

definition demo_flow :: "u32 \<Rightarrow> u32 \<Rightarrow> world" where
  "demo_flow ip len = demo_world\<lparr>flows := \<lambda>f. (flows demo_world f)\<lparr>upper_ip := ip, payload_len := len\<rparr>\<rparr>"

lemma demo_flow_ready:
  "payload_inside (demo_flow ip 3) (flows (demo_flow ip 3) f)"
  "unat (payload_len (flows (demo_flow ip 3) f)) \<le> nat (manager_buffer_size demo_cfg)"
  "can_release f (demo_flow ip len)"
  "flow_key (flows (demo_flow ip len) f) = (ip, 7, 80, 22, 6)"
  using demo_ready [of f]
  by (simp_all add: demo_flow_def payload_inside_def can_release_def demo_world_def flow_key_def)

lemma pool_empty_iff:
  assumes "table_inv cfg chs m"
  shows "intel_list MANAGER_POOL (session_pool m) = [] \<longleftrightarrow> card (dom (session_of m)) = 2 ^ MANAGER_POOL"
proof -
  let ?P = "set (intel_list MANAGER_POOL (session_pool m))" and ?U = "{..<2 ^ MANAGER_POOL} :: nat set"
  have p: "?P \<inter> live chs m = {}" "?P \<union> live chs m = ?U" using assms by (auto simp: table_inv_def pool_ok_def)
  have c: "card (dom (session_of m)) = card (live chs m)"
    using hash_count_live(1) [OF assms] hash_count_sessions [OF assms] by simp
  have "finite (live chs m)" using p(2) by (metis Un_upper2 finite_lessThan finite_subset)
  then have "card ?P + card (live chs m) = card (?P \<union> live chs m)" using p(1) by (simp add: card_Un_disjoint)
  then have "card ?P + card (live chs m) = 2 ^ MANAGER_POOL" unfolding p(2) by simp
  then have "card ?P = 0 \<longleftrightarrow> card (live chs m) = 2 ^ MANAGER_POOL" by linarith
  then show ?thesis unfolding c by simp
qed

definition demo_key :: "nat \<Rightarrow> key" where
  "demo_key i = (of_nat i, 7, 80, 22, 6)"

lemma demo_key_inj: "inj_on demo_key {..<2 ^ MANAGER_POOL}"
proof (rule inj_onI)
  fix i j :: nat
  assume ij: "i \<in> {..<2 ^ MANAGER_POOL}" "j \<in> {..<2 ^ MANAGER_POOL}" "demo_key i = demo_key j"
  then have "i < 2 ^ LENGTH(32)" "j < 2 ^ LENGTH(32)" by (simp_all add: MANAGER_POOL_def)
  moreover have "(of_nat i :: u32) = of_nat j" using ij(3) by (simp add: demo_key_def)
  ultimately show "i = j" by (metis unat_of_nat_small)
qed

lemma table_can_fill:
  "n \<le> 2 ^ MANAGER_POOL \<Longrightarrow> \<exists>m chs. table_inv demo_cfg chs m \<and> dom (session_of m) = demo_key ` {..<n} \<and> num_buckets m = 11"
proof (induction n)
  case 0
  then show ?case using demo_started_ok by auto
next
  case (Suc n)
  then obtain m chs where m: "table_inv demo_cfg chs m" "dom (session_of m) = demo_key ` {..<n}" "num_buckets m = 11" by auto
  let ?w = "demo_flow (of_nat n) 3"
  have inj: "inj_on demo_key {..<Suc n}" using Suc.prems by (intro inj_on_subset [OF demo_key_inj]) auto
  then have "card (dom (session_of m)) = n"
    unfolding m(2) using card_image [OF inj_on_subset [OF inj], of "{..<n}"] by auto
  then have pool: "intel_list MANAGER_POOL (session_pool m) \<noteq> []" using pool_empty_iff [OF m(1)] Suc.prems by auto
  have key: "flow_key (flows ?w 0) = demo_key n" by (simp add: demo_flow_ready(4) demo_key_def)
  obtain m' w' chs' where m': "table_inv demo_cfg chs' m'"
    "session_of m' = add_spec 64 0 (demo_key n) (flow_bytes ?w (flows ?w 0)) (session_of m)" "num_buckets m' = num_buckets m"
    using hash_add_refines [of demo_cfg chs m ?w 0 0] m(1) demo_flow_ready(1-3) pool
    unfolding key demo_fields by auto
  have "demo_key n \<notin> dom (session_of m)" unfolding m(2) using inj by (force simp: inj_on_def)
  then have "session_of m (demo_key n) = None" by blast
  then have "dom (session_of m') = demo_key ` {..<Suc n}"
    unfolding m'(2) by (simp add: add_spec_def m(2) lessThan_Suc)
  with m'(1,3) m(3) show ?case by metis
qed

lemma full_table:
  obtains m chs where "table_inv demo_cfg chs m" "intel_list MANAGER_POOL (session_pool m) = []" "num_buckets m = 11"
    "\<forall>ip. session_of m (ip, 8, 80, 22, 6) = None"
proof -
  obtain m chs where m: "table_inv demo_cfg chs m" "dom (session_of m) = demo_key ` {..<2 ^ MANAGER_POOL}" "num_buckets m = 11"
    using table_can_fill [OF order_refl] by auto
  have "intel_list MANAGER_POOL (session_pool m) = []"
    unfolding pool_empty_iff [OF m(1)] m(2) card_image [OF demo_key_inj] by simp
  moreover have "(ip, 8, 80, 22, 6) \<notin> dom (session_of m)" for ip unfolding m(2) by (auto simp: demo_key_def)
  then have "session_of m (ip, 8, 80, 22, 6) = None" for ip by blast
  ultimately show thesis using that m(1,3) by blast
qed

section \<open>Properties\<close>

text \<open>C5. The manager thread and the cleaner thread work on one table, taking the lock of a bucket for
  a whole insertion and for a whole visit. Whatever the order in which their steps come, provided
  each insertion is given a payload that fits and finds a session, every step returns, the table
  keeps its invariant, and the map from session keys to collected bytes and last times is the
  result of applying, in that order, the specification of each step.\<close>

theorem threads_refine_map:
  assumes "state_inv cfg s" "st.all_ready cfg events s"
  shows "\<exists>s'. st.steps cfg events s = Ret s' \<and> state_inv cfg s'
    \<and> session_of (fst s') = fold (event_spec cfg (table_env s)) events (session_of (fst s))"
  using st.steps_refine [OF assms] by (auto simp: case_prod_beta)

theorem threads_refine_map_witness:
  "\<exists>m s'. demo_started = Ret m \<and> st.steps demo_cfg [Add 77 0, Sweep 100 4] (m, demo_world) = Ret s'
     \<and> session_of (fst s') (9, 7, 80, 22, 6) = Some ([3, 4, 5], 77)"
proof -
  obtain m where m: "demo_started = Ret m" "table_inv demo_cfg (\<lambda>_. []) m" "session_of m = (\<lambda>_. None)"
    "num_buckets m = 11" using demo_started_ok by blast
  have i: "state_inv demo_cfg (m, demo_world)" using m(2) by (auto simp: state_inv_def)
  have a: "event_ready demo_cfg (Add 77 0) (m, demo_world)"
    using demo_ready [of 0] demo_pool [OF m(2)] by simp
  obtain m1 w1 where s1: "table_step demo_cfg (Add 77 0) (m, demo_world) = Ret (m1, w1)"
    "state_inv demo_cfg (m1, w1)" "num_buckets m1 = num_buckets m"
    using st.step_ok [OF i a] by (auto simp: table_env_def)
  have b: "event_ready demo_cfg (Sweep 100 4) (m1, w1)" using s1(3) m(4) by (simp add: nbuckets_def)
  obtain s2 where "table_step demo_cfg (Sweep 100 4) (m1, w1) = Ret s2" using st.step_ok [OF s1(2) b] by blast
  then have r: "st.all_ready demo_cfg [Add 77 0, Sweep 100 4] (m, demo_world)"
    unfolding st.all_ready.simps s1(1) run.case using a b by (simp only: run.case)
  have e: "event_spec demo_cfg (table_env (m, demo_world)) (Add 77 0) (\<lambda>_. None)
      = (\<lambda>_. None)((9, 7, 80, 22, 6) \<mapsto> ([3, 4, 5], 77))"
    by (simp add: table_env_def add_spec_def demo_world_def flow_key_def)
  have x: "\<not> expired demo_cfg 100 77" by (simp add: expired_def lifetime_def demo_cfg_def)
  from threads_refine_map [OF i r] obtain s' where s':
    "st.steps demo_cfg [Add 77 0, Sweep 100 4] (m, demo_world) = Ret s'"
    "session_of (fst s') = event_spec demo_cfg (table_env (m, demo_world)) (Sweep 100 4)
       ((\<lambda>_. None)((9, 7, 80, 22, 6) \<mapsto> ([3, 4, 5], 77)))"
    by (auto simp only: fold.simps comp_apply id_apply fst_conv m(3) e)
  have "session_of (fst s') (9, 7, 80, 22, 6) = Some ([3, 4, 5], 77)"
    unfolding s'(2) by (simp add: table_env_def expire_spec_def x)
  with m(1) s'(1) show ?thesis by blast
qed

text \<open>C7. \<open>hash_add_item\<close>, called with the hash that \<open>MAKE_HASH\<close> gives, returns for every flow whose
  payload lies inside its packet and fits a session buffer, provided there is a session for it or a
  free one and the pools have room: a flow without a session starts one with its payload, a flow
  whose payload still fits is appended and refreshes the time, and a flow that would fill the buffer
  ends the session. The packet and the flow go back to their pools; the number of buckets, the queue and
  the counters of the manager stay as they are.\<close>

theorem hash_add_item_spec:
  assumes "table_inv cfg chs m" "payload_inside w (flows w f)"
    and "unat (payload_len (flows w f)) \<le> nat (manager_buffer_size cfg)" "can_release f w"
    and "session_of m (flow_key (flows w f)) \<noteq> None \<or> intel_list MANAGER_POOL (session_pool m) \<noteq> []"
  shows "\<exists>m' w' chs'. hash_add_item cfg now
           (bucket_index (word_of_int (num_buckets m)) (flow_key (flows w f))) f (m, w) = Ret (m', w')
    \<and> table_inv cfg chs' m' \<and> num_buckets m' = num_buckets m \<and> mindex m' = mindex m \<and> released f w w'
    \<and> mqueue m' = mqueue m \<and> m_alive m' = m_alive m \<and> m_drop_cause_pool_empty m' = m_drop_cause_pool_empty m
    \<and> session_of m' = add_spec (nat (manager_buffer_size cfg)) now (flow_key (flows w f))
                        (flow_bytes w (flows w f)) (session_of m)"
proof -
  let ?call = "hash_add_item cfg now (bucket_index (word_of_int (num_buckets m)) (flow_key (flows w f))) f (m, w)"
  obtain m' w' chs' where R: "?call = Ret (m', w')"
    "table_inv cfg chs' m' \<and> num_buckets m' = num_buckets m \<and> mindex m' = mindex m \<and> released f w w'
     \<and> session_of m' = add_spec (nat (manager_buffer_size cfg)) now (flow_key (flows w f)) (flow_bytes w (flows w f)) (session_of m)"
    using hash_add_refines [OF assms, of now] by blast
  with hash_add_item_frame [OF R(1)] show ?thesis unfolding same_rest_def by blast
qed

theorem hash_add_item_spec_witness:
  "\<exists>m m' w'. demo_started = Ret m
     \<and> hash_add_item demo_cfg 77 (bucket_index (word_of_int (num_buckets m)) (9, 7, 80, 22, 6)) 0 (m, demo_world)
       = Ret (m', w') \<and> session_of m' (9, 7, 80, 22, 6) = Some ([3, 4, 5], 77)"
proof -
  obtain m where m: "demo_started = Ret m" "table_inv demo_cfg (\<lambda>_. []) m" "session_of m = (\<lambda>_. None)"
    using demo_started_ok by blast
  have k: "flow_key (flows demo_world 0) = (9, 7, 80, 22, 6)" by (simp add: flow_key_def demo_world_def)
  have b: "flow_bytes demo_world (flows demo_world 0) = [3, 4, 5]"
    by (simp add: flow_bytes_def demo_world_def)
  show ?thesis
    using hash_add_item_spec [OF m(2) demo_ready, of 0 77] demo_pool [OF m(2)] m
    unfolding k b by (auto simp: add_spec_def)
qed

text \<open>One pass of the manager thread at pipeline depth 5 takes the oldest flow from its queue and
  files it, whatever the other flows in the queue are.\<close>

theorem manager_files_oldest:
  assumes "table_inv cfg chs m" "intel_inv LG2_CAPACITY (mqueue m)"
    and "intel_list LG2_CAPACITY (mqueue m) = f # fs" "4 < pipe_depth cfg"
    and "payload_inside w (flows w f)" "unat (payload_len (flows w f)) \<le> nat (manager_buffer_size cfg)"
    and "can_release f w"
    and "session_of m (flow_key (flows w f)) \<noteq> None \<or> intel_list MANAGER_POOL (session_pool m) \<noteq> []"
  shows "\<exists>m' w' chs'. manager_pass cfg now (m, w) = Ret (m', w') \<and> table_inv cfg chs' m' \<and> released f w w'
    \<and> session_of m' = add_spec (nat (manager_buffer_size cfg)) now (flow_key (flows w f))
                        (flow_bytes w (flows w f)) (session_of m)"
  using manager_pass_add [OF assms] by blast

theorem manager_files_oldest_witness:
  "\<exists>m m' w'. manager_pass demo_cfg 77 (m, demo_world) = Ret (m', w')
     \<and> session_of m' (9, 7, 80, 22, 6) = Some ([3, 4, 5], 77)"
proof -
  obtain m where m: "table_inv demo_cfg (\<lambda>_. []) m" "session_of m = (\<lambda>_. None)"
    "intel_inv LG2_CAPACITY (mqueue m)" "intel_list LG2_CAPACITY (mqueue m) = []"
    using demo_started_ok by blast
  have "length (intel_list LG2_CAPACITY (mqueue m)) < 2 ^ LG2_CAPACITY" unfolding m(4) by simp
  then obtain q where "intel_enqueue LG2_CAPACITY (mqueue m) 0 = Some q"
    and q: "intel_inv LG2_CAPACITY q" "intel_list LG2_CAPACITY q = intel_list LG2_CAPACITY (mqueue m) @ [0]"
    by (rule iq.enq_room [OF m(3)])
  let ?m = "m\<lparr>mqueue := q\<rparr>"
  have k: "flow_key (flows demo_world 0) = (9, 7, 80, 22, 6)" by (simp add: flow_key_def demo_world_def)
  have b: "flow_bytes demo_world (flows demo_world 0) = [3, 4, 5]"
    by (simp add: flow_bytes_def demo_world_def)
  have t: "table_inv demo_cfg (\<lambda>_. []) ?m" "session_of ?m = (\<lambda>_. None)"
    "intel_inv LG2_CAPACITY (mqueue ?m)" "intel_list LG2_CAPACITY (mqueue ?m) = 0 # []"
    using m q by (simp_all only: table_frame session_frame) simp_all
  have d: "4 < pipe_depth demo_cfg" by simp
  have r: "session_of ?m (flow_key (flows demo_world 0)) \<noteq> None \<or> intel_list MANAGER_POOL (session_pool ?m) \<noteq> []"
    using demo_pool [OF t(1)] by blast
  from manager_files_oldest [OF t(1,3,4) d demo_ready r, of 77] obtain m' w'
    where "manager_pass demo_cfg 77 (?m, demo_world) = Ret (m', w')"
      "session_of m' = add_spec 64 77 (9, 7, 80, 22, 6) [3, 4, 5] (\<lambda>_. None)"
    unfolding k b t(2) by auto
  then have "manager_pass demo_cfg 77 (?m, demo_world) = Ret (m', w')
      \<and> session_of m' (9, 7, 80, 22, 6) = Some ([3, 4, 5], 77)" by (simp add: add_spec_def)
  then show ?thesis by blast
qed

text \<open>C17. A round of the cleaner over the managers' tables removes exactly the sessions whose last
  packet is older than the lifetime by the clock read at their bucket, gives them back to the pool
  of free sessions, and keeps every other session as it is.\<close>

theorem cleaner_removes_expired:
  assumes "\<forall>i<length ms. table_inv cfg (chss i) (ms ! i)"
  shows "\<exists>ms'. process_all_session cfg clock ms = Ret ms' \<and> length ms' = length ms
    \<and> (\<forall>i<length ms. (\<exists>chs. table_inv cfg chs (ms' ! i)) \<and> session_of (ms' ! i)
         = expire_spec cfg (\<lambda>k. clock i (bucket_of (ms ! i) k)) (session_of (ms ! i)))"
  using clean_from_ok [OF assms, of clock 0] by (simp add: process_all_session_def)

theorem cleaner_removes_expired_witness:
  "\<exists>m ms'. session_of m (9, 7, 80, 22, 6) = Some ([3, 4, 5], 77)
     \<and> process_all_session demo_cfg (\<lambda>i b. 2 ^ 60) [m] = Ret ms' \<and> session_of (ms' ! 0) (9, 7, 80, 22, 6) = None"
proof -
  obtain m0 where m0: "table_inv demo_cfg (\<lambda>_. []) m0" "session_of m0 = (\<lambda>_. None)" using demo_started_ok by blast
  have k: "flow_key (flows demo_world 0) = (9, 7, 80, 22, 6)" "flow_bytes demo_world (flows demo_world 0) = [3, 4, 5]"
    by (simp_all add: flow_key_def flow_bytes_def demo_world_def)
  obtain m chs where m: "table_inv demo_cfg chs m" "session_of m = add_spec 64 77 (9, 7, 80, 22, 6) [3, 4, 5] (\<lambda>_. None)"
    using hash_add_refines [OF m0(1) demo_ready, of 0 77] demo_pool [OF m0(1)] unfolding m0(2) k demo_fields by auto
  have s: "session_of m (9, 7, 80, 22, 6) = Some ([3, 4, 5], 77)" by (simp add: m(2) add_spec_def)
  have "expired demo_cfg (2 ^ 60) 77" by (simp add: expired_def lifetime_def demo_cfg_def)
  with cleaner_removes_expired [of "[m]" demo_cfg "\<lambda>_. chs" "\<lambda>i b. 2 ^ 60"] m(1) s show ?thesis
    by (auto simp: expire_spec_def)
qed

text \<open>\<open>hash_count\<close> is the number of sessions in the table: the counters of the buckets agree with
  their lists.\<close>

theorem hash_count_correct:
  assumes "table_inv cfg chs m"
  shows "unat (hash_count m) = card (dom (session_of m))"
  using assms by (rule hash_count_sessions)

theorem hash_count_correct_witness: "\<exists>m. demo_started = Ret m \<and> hash_count m = 0"
proof -
  obtain m where m: "demo_started = Ret m" "table_inv demo_cfg (\<lambda>_. []) m" "session_of m = (\<lambda>_. None)"
    using demo_started_ok by blast
  with hash_count_correct [OF m(2)] have "unat (hash_count m) = 0" by simp
  then have "hash_count m = 0" by (simp only: unat_eq_zero)
  with m show ?thesis by blast
qed

text \<open>C32. The copy that opens a session is not checked against the size of the buffer: a first payload
  longer than \<^verbatim>\<open>manager_buffer_size\<close> overruns it. (A payload for an existing session is checked.)\<close>

theorem first_payload_overruns:
  assumes "table_inv cfg chs m" "session_of m (flow_key (flows w f)) = None"
    and "intel_list MANAGER_POOL (session_pool m) \<noteq> []"
    and "nat (manager_buffer_size cfg) < unat (payload_len (flows w f))"
  shows "hash_add_item cfg now
           (bucket_index (word_of_int (num_buckets m)) (flow_key (flows w f))) f (m, w) = Fault"
  using assms by (rule hash_add_overrun)

theorem first_payload_overruns_witness:
  "\<exists>m. demo_started = Ret m
     \<and> hash_add_item demo_cfg 5 (bucket_index (word_of_int (num_buckets m)) (9, 7, 80, 22, 6)) 0
         (m, demo_flow 9 65) = Fault"
proof -
  obtain m where m: "demo_started = Ret m" "table_inv demo_cfg (\<lambda>_. []) m" "session_of m = (\<lambda>_. None)"
    using demo_started_ok by blast
  have l: "unat (payload_len (flows (demo_flow 9 65) 0)) = 65" by (simp add: demo_flow_def)
  have "hash_add_item demo_cfg 5 (bucket_index (word_of_int (num_buckets m)) (9, 7, 80, 22, 6)) 0
      (m, demo_flow 9 65) = Fault"
    using first_payload_overruns [OF m(2), of "demo_flow 9 65" 0 5] m demo_pool [OF m(2)] l
    by (simp add: demo_flow_ready(4))
  with m(1) show ?thesis by blast
qed

end
