(* ===== verification/Bucket_Lock.thy ===== *)
theory Bucket_Lock
  imports Packet_Manager
begin

text \<open>
  The locks of the buckets. \<^verbatim>\<open>hash_add_item\<close> holds the lock of a bucket from before \<^verbatim>\<open>find_list\<close> to its end,
  \<^verbatim>\<open>hash_travel_delete\<close> holds it around \<^verbatim>\<open>delete_session\<close>. Here the managers and the cleaner run in steps
  that can be interleaved between taking a lock, looking a session up, changing the table and giving
  the lock back. The theorems show what the lock protects, so that the passes of the other theories may be
  taken as atomic, and what happens to the cleaner when a manager waits for a session with a lock in
  its hand.
\<close>

section \<open>State\<close>

text \<open>Where a manager is: before its dequeue, before the lock of bucket \<open>b\<close> with flow \<open>f\<close>, before \<^verbatim>\<open>find_list\<close>, in front
  of the branch without a session, in front of the branch with session \<open>j\<close>, before the unlock.\<close>

datatype manager_at = Idle | Want nat nat | Search nat nat | Alloc nat nat | Found nat nat nat | Unlock nat

text \<open>Where the cleaner is: before the lock of bucket \<open>b\<close> of manager \<open>i\<close>, before \<^verbatim>\<open>delete_session\<close>, before the unlock.\<close>

datatype cleaner_at = Before nat nat | Sweep_In nat nat | Swept nat nat

text \<open>\<open>lk_held i b\<close>: the mutex of bucket \<open>b\<close> of manager \<open>i\<close> is locked.\<close>

record lock_state =
  lk_ms :: "manager list"
  lk_world :: world
  lk_held :: "nat \<Rightarrow> nat \<Rightarrow> bool"
  lk_pc :: "manager_at list"
  lk_cleaner :: cleaner_at

section \<open>Steps\<close>

text \<open>\<^verbatim>\<open>pthread_mutex_lock\<close> waits while the mutex is locked.\<close>

definition mutex_lock :: "nat \<Rightarrow> nat \<Rightarrow> (nat \<Rightarrow> nat \<Rightarrow> bool) \<Rightarrow> (nat \<Rightarrow> nat \<Rightarrow> bool) run" where
  "mutex_lock i b held = (if held i b then Spin else Ret (held(i := (held i)(b := True))))"

definition mutex_unlock :: "nat \<Rightarrow> nat \<Rightarrow> (nat \<Rightarrow> nat \<Rightarrow> bool) \<Rightarrow> nat \<Rightarrow> nat \<Rightarrow> bool" where
  "mutex_unlock i b held = held(i := (held i)(b := False))"

text \<open>The loop of \<^verbatim>\<open>packet_manager_loop\<close> up to the call of \<^verbatim>\<open>hash_add_item\<close>, which begins with the choice of the bucket.\<close>

definition take_flow :: "sim_config \<Rightarrow> manager \<times> world \<Rightarrow> (manager_at \<times> manager \<times> world) run" where
  "take_flow cfg = (\<lambda>(m, w).
     let m0 = m\<lparr>m_alive := m_alive m + 1\<rparr>
     in run_bind (spin_until (intel_dequeue LG2_CAPACITY (mqueue m0))) (\<lambda>(f, q).
        let m1 = m0\<lparr>mqueue := q\<rparr>; flow = flows w f
        in if pipe_depth cfg > 4
           then if num_buckets m1 = 0 then Fault
                else let index = MAKE_HASH (lower_port flow) (upper_ip flow) (upper_port flow)
                                   (lower_ip flow) (word_of_int (num_buckets m1))
                     in run_bind (bucket_at m1 index) (\<lambda>b. Ret (Want b f, m1, w))
           else run_bind (release_flow f w) (\<lambda>w'. Ret (Idle, m1, w'))))"

text \<open>One step of manager \<open>i\<close>: the body of its loop, with \<^verbatim>\<open>hash_add_item\<close> cut at its lock, lookup, branch and unlock.\<close>

fun manager_step :: "sim_config \<Rightarrow> u64 \<Rightarrow> nat \<Rightarrow> manager_at \<Rightarrow> (nat \<Rightarrow> nat \<Rightarrow> bool) \<times> manager \<times> world
    \<Rightarrow> (manager_at \<times> (nat \<Rightarrow> nat \<Rightarrow> bool) \<times> manager \<times> world) run" where
  "manager_step cfg now i Idle (held, m, w) =
     run_bind (take_flow cfg (m, w)) (\<lambda>(pc, m', w'). Ret (pc, held, m', w'))"
| "manager_step cfg now i (Want b f) (held, m, w) =
     run_bind (mutex_lock i b held) (\<lambda>held'. Ret (Search b f, held', m, w))"
| "manager_step cfg now i (Search b f) (held, m, w) =
     run_bind (find_list m (Bucket b) (flows w f)) (\<lambda>r.
     case r of None \<Rightarrow> Ret (Alloc b f, held, m, w)
     | Some (Blist j) \<Rightarrow> Ret (Found b j f, held, m, w)
     | Some (Bucket k) \<Rightarrow> Fault)"
| "manager_step cfg now i (Alloc b f) (held, m, w) =
     run_bind (add_new cfg now b f (m, w)) (\<lambda>(m', w'). Ret (Unlock b, held, m', w'))"
| "manager_step cfg now i (Found b j f) (held, m, w) =
     run_bind (add_found now b j f (m, w)) (\<lambda>(m', w'). Ret (Unlock b, held, m', w'))"
| "manager_step cfg now i (Unlock b) (held, m, w) = Ret (Idle, mutex_unlock i b held, m, w)"

text \<open>One step of \<^verbatim>\<open>process_all_session\<close> with \<^verbatim>\<open>hash_travel_delete\<close>: after the last bucket comes the next manager, after the last
  manager the next round.\<close>

fun cleaner_step :: "sim_config \<Rightarrow> u64 \<Rightarrow> cleaner_at \<Rightarrow> (nat \<Rightarrow> nat \<Rightarrow> bool) \<times> manager list
    \<Rightarrow> (cleaner_at \<times> (nat \<Rightarrow> nat \<Rightarrow> bool) \<times> manager list) run" where
  "cleaner_step cfg now (Before i b) (held, ms) =
     (if length ms \<le> i then Ret (Before 0 0, held, ms)
      else if num_buckets (ms ! i) \<le> int b then Ret (Before (Suc i) 0, held, ms)
      else run_bind (mutex_lock i b held) (\<lambda>held'. Ret (Sweep_In i b, held', ms)))"
| "cleaner_step cfg now (Sweep_In i b) (held, ms) =
     run_bind (delete_session cfg now b (ms ! i)) (\<lambda>m'. Ret (Swept i b, held, ms[i := m']))"
| "cleaner_step cfg now (Swept i b) (held, ms) = Ret (Before i (Suc b), mutex_unlock i b held, ms)"

text \<open>The steps of the threads, and the arrival of flow \<open>f\<close> in the queue of manager \<open>i\<close>, which the parsers bring about.\<close>

datatype lock_event = Manager nat u64 | Cleaner u64 | Arrive nat nat

fun event_of :: "lock_event \<Rightarrow> lock_state \<Rightarrow> bool" where
  "event_of (Manager i now) s \<longleftrightarrow> i < length (lk_ms s)"
| "event_of (Cleaner now) s \<longleftrightarrow> True"
| "event_of (Arrive i f) s \<longleftrightarrow> i < length (lk_ms s)"

fun lock_step :: "sim_config \<Rightarrow> lock_event \<Rightarrow> lock_state \<Rightarrow> lock_state run" where
  "lock_step cfg (Manager i now) s =
     run_bind (manager_step cfg now i (lk_pc s ! i) (lk_held s, lk_ms s ! i, lk_world s)) (\<lambda>(pc, held, m, w).
     Ret (s\<lparr>lk_ms := (lk_ms s)[i := m], lk_world := w, lk_held := held, lk_pc := (lk_pc s)[i := pc]\<rparr>))"
| "lock_step cfg (Cleaner now) s =
     run_bind (cleaner_step cfg now (lk_cleaner s) (lk_held s, lk_ms s)) (\<lambda>(cl, held, ms).
     Ret (s\<lparr>lk_ms := ms, lk_held := held, lk_cleaner := cl\<rparr>))"
| "lock_step cfg (Arrive i f) s =
     run_bind (spin_until (intel_enqueue LG2_CAPACITY (mqueue (lk_ms s ! i)) f)) (\<lambda>q.
     Ret (s\<lparr>lk_ms := (lk_ms s)[i := (lk_ms s ! i)\<lparr>mqueue := q\<rparr>]\<rparr>))"

inductive lock_runs :: "sim_config \<Rightarrow> lock_state \<Rightarrow> lock_state \<Rightarrow> bool" for cfg s where
  lock_runs_refl: "lock_runs cfg s s"
| lock_runs_step: "lock_runs cfg s s1 \<Longrightarrow> event_of e s1 \<Longrightarrow> lock_step cfg e s1 = Ret s2 \<Longrightarrow> lock_runs cfg s s2"

section \<open>An insertion that returns keeps the table\<close>

lemma release_flow_same: "release_flow f w = Ret w' \<Longrightarrow> packets w' = packets w \<and> flows w' = flows w"
  by (auto simp: release_flow_def Let_def)

text \<open>What the table becomes does not depend on the pools that the packet and the flow go back to.\<close>

definition with_room :: "world \<Rightarrow> world" where
  "with_room w = w\<lparr>packet_pools := \<lambda>_. intel_init LG2_CAPACITY 0 (replicate (2 ^ LG2_CAPACITY) 0),
     flow_pools := \<lambda>_. intel_init LG2_CAPACITY 0 (replicate (2 ^ LG2_CAPACITY) 0)\<rparr>"

lemma with_room_simps [simp]: "packets (with_room w) = packets w" "flows (with_room w) = flows w"
  by (simp_all add: with_room_def)

lemma with_room_release: "can_release f (with_room w)"
proof -
  have "intel_inv LG2_CAPACITY (intel_init LG2_CAPACITY (0::nat) (replicate (2 ^ LG2_CAPACITY) 0))
      \<and> intel_list LG2_CAPACITY (intel_init LG2_CAPACITY (0::nat) (replicate (2 ^ LG2_CAPACITY) 0)) = []"
    by (rule intel_init_inv) (simp_all add: LG2_CAPACITY_def)
  then show ?thesis by (simp add: can_release_def Session_Table.has_room_def with_room_def del: length_intel_list)
qed

lemma make_new_session_cong: "packets w' = packets w \<Longrightarrow> make_new_session cfg now w' m j fl = make_new_session cfg now w m j fl"
  by (simp add: make_new_session_def)

lemma add_new_room:
  assumes "add_new cfg now b f (m, w) = Ret (m', w')"
  shows "\<exists>w1. add_new cfg now b f (m, with_room w) = Ret (m', w1)" "packets w' = packets w \<and> flows w' = flows w"
proof -
  from assms obtain j q m1 where a: "intel_dequeue MANAGER_POOL (session_pool m) = Some (j, q)"
    "make_new_session cfg now w (m\<lparr>session_pool := q\<rparr>) j (flows w f) = Ret m1" "release_flow f w = Ret w'"
    "(case list_add_tail (INIT_LIST_HEAD (links m1) (Blist j)) (Blist j) (Bucket b) of None \<Rightarrow> Fault
      | Some h' \<Rightarrow> Ret (m1\<lparr>links := h', bcount := (bcount m1)(b := bcount m1 b + 1)\<rparr>, w')) = Ret (m', w')"
    by (auto simp: add_new_def Let_def split: option.splits)
  obtain w1 where "release_flow f (with_room w) = Ret w1" using release_flow_ok [OF with_room_release] by blast
  then have "add_new cfg now b f (m, with_room w) = Ret (m', w1)"
    using a(1,2,4) by (auto simp: add_new_def Let_def make_new_session_cong [of "with_room w" w] split: option.splits)
  then show "\<exists>w1. add_new cfg now b f (m, with_room w) = Ret (m', w1)" ..
  show "packets w' = packets w \<and> flows w' = flows w" using release_flow_same [OF a(3)] .
qed

lemma add_new_keeps:
  assumes inv: "table_inv cfg chs m" and none: "session_of m (flow_key (flows w f)) = None"
    and run: "add_new cfg now (bucket_of m (flow_key (flows w f))) f (m, w) = Ret (m', w')"
  shows "(\<exists>chs'. table_inv cfg chs' m') \<and> num_buckets m' = num_buckets m"
proof -
  from run obtain j q m1 where q: "intel_dequeue MANAGER_POOL (session_pool m) = Some (j, q)"
    "make_new_session cfg now w (m\<lparr>session_pool := q\<rparr>) j (flows w f) = Ret m1"
    by (auto simp: add_new_def Let_def)
  have p: "intel_inv MANAGER_POOL (session_pool m)" "pool_ok chs m" "sizes_ok cfg m" using inv by (auto simp: table_inv_def pool_ok_def)
  obtain free where l: "intel_list MANAGER_POOL (session_pool m) = j # free"
    using ip.deq_Some [OF p(1) q(1)] by auto
  then have "j \<in> set (intel_list MANAGER_POOL (session_pool m))" by simp
  then have "length (buffer (items m j)) = nat (manager_buffer_size cfg)"
    using p(2,3) by (auto simp: pool_ok_def sizes_ok_def)
  then have "payload_inside w (flows w f)" "unat (payload_len (flows w f)) \<le> nat (manager_buffer_size cfg)"
    using q(2) by (auto simp: make_new_session_def Let_def memcpy_Some payload_inside_def split: option.splits)
  moreover obtain w1 where "add_new cfg now (bucket_of m (flow_key (flows w f))) f (m, with_room w) = Ret (m', w1)"
    using add_new_room(1) [OF run] by blast
  ultimately show ?thesis
    using add_new_ok [OF inv _ l, of "with_room w" f now] none with_room_release by (auto simp: payload_inside_def)
qed

lemma add_found_keeps:
  assumes inv: "table_inv cfg chs m" and j: "j \<in> live chs m" and key: "session_key (items m j) = flow_key (flows w f)"
    and run: "add_found now (bucket_of m (flow_key (flows w f))) j f (m, w) = Ret (m', w')"
  shows "(\<exists>chs'. table_inv cfg chs' m') \<and> num_buckets m' = num_buckets m \<and> packets w' = packets w \<and> flows w' = flows w"
proof -
  let ?it = "items m j" and ?fl = "flows w f"
  note L = live_facts [OF inv j]
  from run have w: "release_flow f w = Ret w'" by (auto simp: add_found_def Let_def)
  have "(\<exists>chs'. table_inv cfg chs' m') \<and> num_buckets m' = num_buckets m"
  proof (cases "cur_len ?it + payload_len ?fl < slength ?it")
    case True
    obtain buf where B: "memcpy (buffer ?it) (unat (cur_len ?it)) (data (packets w (fst (payload ?fl)))) (snd (payload ?fl))
        (unat (payload_len ?fl)) = Some buf"
      "m' = m\<lparr>items := (items m)(j := ?it\<lparr>buffer := buf, cur_len := cur_len ?it + payload_len ?fl, last_time := now\<rparr>)\<rparr>"
      using run True by (auto simp: add_found_def Let_def split: option.splits)
    have c: "unat (cur_len ?it) + unat (payload_len ?fl) \<le> nat (manager_buffer_size cfg)" "payload_inside w ?fl"
      using B(1) L(2) by (auto simp: memcpy_Some payload_inside_def)
    have "nat (manager_buffer_size cfg) < 2 ^ 31" "unat (slength ?it) = nat (manager_buffer_size cfg)"
      using inv L(1) buffer_size_small unfolding table_inv_def session_ok_def by auto
    then have "unat (cur_len ?it) + unat (payload_len ?fl) < nat (manager_buffer_size cfg)"
      using True c(1) by (simp add: word_less_nat_alt unat_add_small)
    from append_branch [OF inv j c(2) this, of now] B show ?thesis by auto
  next
    case False
    then obtain c where "free_session (bucket_of m (session_key ?it)) j m = Ret m'"
      using run by (auto simp: add_found_def Let_def key)
    with flush_branch [OF inv j] show ?thesis by auto
  qed
  with release_flow_same [OF w] show ?thesis by blast
qed

section \<open>What the lock protects\<close>

lemma find_list_chs:
  assumes "table_inv cfg chs m" "b = bucket_of m (flow_key fl)"
  shows "find_list m (Bucket b) fl = Ret (map_option Blist (find (\<lambda>j. session_key (items m j) = flow_key fl) (chs b)))"
  unfolding find_list_key assms(2) list_find_bucket [OF assms(1)] by simp

lemma find_list_none:
  assumes "table_inv cfg chs m" "b = bucket_of m (flow_key fl)"
  shows "find_list m (Bucket b) fl = Ret None \<longleftrightarrow> session_of m (flow_key fl) = None"
  unfolding find_list_key assms(2) session_of_def list_find_bucket [OF assms(1)] by (simp split: option.split)

lemma find_list_some:
  assumes "table_inv cfg chs m" "b = bucket_of m (flow_key fl)" "find_list m (Bucket b) fl = Ret (Some (Blist j))"
  shows "j \<in> live chs m" "session_key (items m j) = flow_key fl"
proof -
  have "find (\<lambda>j. session_key (items m j) = flow_key fl) (chs b) = Some j" using assms(3) find_list_chs [OF assms(1,2)] by auto
  then have "j \<in> set (chs b)" "session_key (items m j) = flow_key fl" by (auto simp: find_Some_iff)
  then show "j \<in> live chs m" "session_key (items m j) = flow_key fl"
    using assms(1,2) bucket_of_less [of cfg m "flow_key fl"] by (auto simp: live_def table_inv_def)
qed

fun holds_lock :: "manager_at \<Rightarrow> nat \<Rightarrow> bool" where
  "holds_lock (Search b f) b' \<longleftrightarrow> b' = b"
| "holds_lock (Alloc b f) b' \<longleftrightarrow> b' = b"
| "holds_lock (Found b j f) b' \<longleftrightarrow> b' = b"
| "holds_lock (Unlock b) b' \<longleftrightarrow> b' = b"
| "holds_lock _ b' \<longleftrightarrow> False"

fun cleaner_holds :: "cleaner_at \<Rightarrow> nat \<Rightarrow> nat \<Rightarrow> bool" where
  "cleaner_holds (Before i b) i' b' \<longleftrightarrow> False"
| "cleaner_holds (Sweep_In i b) i' b' \<longleftrightarrow> i' = i \<and> b' = b"
| "cleaner_holds (Swept i b) i' b' \<longleftrightarrow> i' = i \<and> b' = b"

definition manager_holds :: "lock_state \<Rightarrow> nat \<Rightarrow> nat \<Rightarrow> bool" where
  "manager_holds s i b \<longleftrightarrow> i < length (lk_pc s) \<and> holds_lock (lk_pc s ! i) b"

text \<open>What a manager knows where it is: the bucket is the one of its flow, and the lookup that it has made still holds.\<close>

fun pc_ok :: "manager \<Rightarrow> world \<Rightarrow> manager_at \<Rightarrow> bool" where
  "pc_ok m w (Want b f) \<longleftrightarrow> b = bucket_of m (flow_key (flows w f))"
| "pc_ok m w (Search b f) \<longleftrightarrow> b = bucket_of m (flow_key (flows w f))"
| "pc_ok m w (Alloc b f) \<longleftrightarrow> b = bucket_of m (flow_key (flows w f)) \<and> find_list m (Bucket b) (flows w f) = Ret None"
| "pc_ok m w (Found b j f) \<longleftrightarrow> b = bucket_of m (flow_key (flows w f)) \<and> find_list m (Bucket b) (flows w f) = Ret (Some (Blist j))"
| "pc_ok m w _ \<longleftrightarrow> True"

fun cleaner_ok :: "manager list \<Rightarrow> cleaner_at \<Rightarrow> bool" where
  "cleaner_ok ms (Sweep_In i b) \<longleftrightarrow> i < length ms \<and> b < nbuckets (ms ! i)"
| "cleaner_ok ms _ \<longleftrightarrow> True"

definition lock_inv :: "sim_config \<Rightarrow> lock_state \<Rightarrow> bool" where
  "lock_inv cfg s \<longleftrightarrow> length (lk_pc s) = length (lk_ms s)
     \<and> (\<forall>i<length (lk_ms s). (\<exists>chs. table_inv cfg chs (lk_ms s ! i)) \<and> pc_ok (lk_ms s ! i) (lk_world s) (lk_pc s ! i))
     \<and> (\<forall>i b. \<not> (manager_holds s i b \<and> cleaner_holds (lk_cleaner s) i b)
          \<and> (lk_held s i b \<longleftrightarrow> manager_holds s i b \<or> cleaner_holds (lk_cleaner s) i b))
     \<and> cleaner_ok (lk_ms s) (lk_cleaner s)"

text \<open>The lookup of a manager sees its own bucket only.\<close>

lemma pc_ok_cong:
  assumes "links m' = links m" "items m' = items m" "num_buckets m' = num_buckets m" "flows w' = flows w"
  shows "pc_ok m' w' pc = pc_ok m w pc"
proof -
  have "bucket_of m' = bucket_of m" by (intro ext) (simp add: bucket_of_def assms)
  moreover have "find_list m' = find_list m" by (intro ext) (simp only: find_list_def assms)
  ultimately show ?thesis by (cases pc) (simp_all add: assms(4))
qed

lemma pc_ok_sweep:
  assumes inv: "table_inv cfg chs m" and b: "b < nbuckets m" and ok: "pc_ok m w pc" and free: "\<not> holds_lock pc b"
    and run: "delete_session cfg now b m = Ret m'"
  shows "(\<exists>chs'. table_inv cfg chs' m') \<and> pc_ok m' w pc \<and> num_buckets m' = num_buckets m"
proof -
  from delete_session_ok [OF inv b, of now] run have D: "table_inv cfg (chs(b := filter (keeps cfg now m) (chs b))) m'"
    "items m' = items m" "num_buckets m' = num_buckets m" by auto
  have n: "bucket_of m' = bucket_of m" by (intro ext) (simp add: bucket_of_def D(3))
  have "find_list m' (Bucket c) fl = find_list m (Bucket c) fl" if "c \<noteq> b" "c = bucket_of m (flow_key fl)" for c fl
    using find_list_chs [OF D(1), of c fl] find_list_chs [OF inv that(2)] that by (simp add: D(2) n)
  then have "pc_ok m' w pc" using ok free by (cases pc) (auto simp: n)
  with D show ?thesis by blast
qed

text \<open>At the branches of \<^verbatim>\<open>hash_add_item\<close> the rest of it is the whole of it, on the table as it is now.\<close>

lemma alloc_is_add:
  assumes "table_inv cfg chs m" "pc_ok m w (Alloc b f)"
  shows "hash_add_item cfg now (bucket_index (word_of_int (num_buckets m)) (flow_key (flows w f))) f (m, w) = add_new cfg now b f (m, w)"
  using assms bucket_at_index [of cfg m] by (auto simp: hash_add_item_def table_inv_def)

lemma found_is_add:
  assumes "table_inv cfg chs m" "pc_ok m w (Found b j f)"
  shows "hash_add_item cfg now (bucket_index (word_of_int (num_buckets m)) (flow_key (flows w f))) f (m, w) = add_found now b j f (m, w)"
  using assms bucket_at_index [of cfg m] by (auto simp: hash_add_item_def table_inv_def)

section \<open>Every step keeps the invariant\<close>

text \<open>A manager alone: its table stays well formed, what it knows holds, and it has the lock where it thinks so.\<close>

lemma take_flow_keeps:
  assumes inv: "table_inv cfg chs m" and run: "take_flow cfg (m, w) = Ret (pc, m', w')"
  shows "table_inv cfg chs m' \<and> pc_ok m' w' pc \<and> num_buckets m' = num_buckets m \<and> flows w' = flows w \<and> (\<forall>b. \<not> holds_lock pc b)"
proof -
  from run obtain f q where R: "intel_dequeue LG2_CAPACITY (mqueue m) = Some (f, q)" "m' = m\<lparr>m_alive := m_alive m + 1, mqueue := q\<rparr>"
    "(w' = w \<and> (\<exists>b. bucket_at m' (bucket_index (word_of_int (num_buckets m')) (flow_key (flows w f))) = Ret b \<and> pc = Want b f))
     \<or> (release_flow f w = Ret w' \<and> pc = Idle)"
    by (auto simp: take_flow_def Let_def bucket_index_flow split: if_splits)
  have t: "table_inv cfg chs m'" "num_buckets m' = num_buckets m" using inv by (simp_all add: R(2))
  then have "sizes_ok cfg m'" by (simp add: table_inv_def)
  from bucket_at_index [OF this] R(3) t release_flow_same [of f w w'] show ?thesis by auto
qed

lemma search_step:
  assumes "manager_step cfg now i (Search b f) (held, m, w) = Ret (pc', held', m', w')"
  shows "(pc' = Alloc b f \<and> find_list m (Bucket b) (flows w f) = Ret None
      \<or> (\<exists>j. pc' = Found b j f \<and> find_list m (Bucket b) (flows w f) = Ret (Some (Blist j)))) \<and> held' = held \<and> m' = m \<and> w' = w"
proof -
  from assms obtain r where "find_list m (Bucket b) (flows w f) = Ret r"
    "(case r of None \<Rightarrow> Ret (Alloc b f, held, m, w) | Some (Blist j) \<Rightarrow> Ret (Found b j f, held, m, w) | Some (Bucket k) \<Rightarrow> Fault)
      = Ret (pc', held', m', w')" by auto
  then show ?thesis by (cases r) (auto split: addr.split_asm)
qed

lemma manager_step_keeps:
  assumes inv: "table_inv cfg chs m" and ok: "pc_ok m w pc"
    and run: "manager_step cfg now i pc (held, m, w) = Ret (pc', held', m', w')"
  shows "(\<exists>chs'. table_inv cfg chs' m') \<and> pc_ok m' w' pc' \<and> num_buckets m' = num_buckets m \<and> flows w' = flows w"
proof (cases pc)
  case Idle
  then have "take_flow cfg (m, w) = Ret (pc', m', w')" using run by auto
  from take_flow_keeps [OF inv this] show ?thesis by blast
next
  case (Want b f)
  then show ?thesis using run ok inv by auto
next
  case (Search b f)
  then show ?thesis using search_step [of cfg now i b f held m w] run ok inv by auto
next
  case (Alloc b f)
  then have "add_new cfg now b f (m, w) = Ret (m', w')" "pc' = Unlock b" using run by auto
  then show ?thesis using add_new_keeps [OF inv, of w f now m' w'] add_new_room(2) Alloc ok find_list_none [OF inv] by auto
next
  case (Found b j f)
  then have "add_found now b j f (m, w) = Ret (m', w')" "pc' = Unlock b" using run by auto
  then show ?thesis
    using add_found_keeps [OF inv, of j w f now m' w'] Found ok find_list_some [OF inv, of b "flows w f" j] by auto
next
  case (Unlock b)
  then show ?thesis using run inv by auto
qed

text \<open>The mutex is locked by the step into \<open>Search\<close> and unlocked by the step out of \<open>Unlock\<close>.\<close>

lemma manager_step_lock:
  assumes "manager_step cfg now i pc (held, m, w) = Ret (pc', held', m', w')"
    and "\<And>b. holds_lock pc b \<Longrightarrow> held i b"
  shows "(\<forall>k b. k \<noteq> i \<longrightarrow> held' k b = held k b)
    \<and> (\<forall>b. held' i b \<longleftrightarrow> holds_lock pc' b \<or> (held i b \<and> \<not> holds_lock pc b))
    \<and> (\<forall>b. holds_lock pc' b \<longrightarrow> holds_lock pc b \<or> \<not> held i b)"
proof (cases pc)
  case Idle
  then obtain w1 where "take_flow cfg (m, w) = Ret (pc', m', w1)" "held' = held" using assms(1) by auto
  then have "\<not> holds_lock pc' b" for b by (auto simp: take_flow_def Let_def split: if_splits)
  then show ?thesis using Idle \<open>held' = held\<close> by simp
next
  case (Want b f)
  then show ?thesis using assms(1) by (auto simp: mutex_lock_def split: if_splits)
next
  case (Search b f)
  then show ?thesis using search_step [of cfg now i b f held m w] assms by auto
next
  case (Unlock b)
  then show ?thesis using assms(1) by (auto simp: mutex_unlock_def split: if_splits)
qed (use assms in auto)

lemma cleaner_step_keeps:
  assumes inv: "\<forall>i<length ms. (\<exists>chs. table_inv cfg chs (ms ! i)) \<and> pc_ok (ms ! i) w (pcs ! i)"
    and free: "\<And>i b. i < length ms \<Longrightarrow> cleaner_holds cl i b \<Longrightarrow> \<not> holds_lock (pcs ! i) b"
    and ok: "cleaner_ok ms cl" and run: "cleaner_step cfg now cl (held, ms) = Ret (cl', held', ms')"
  shows "length ms' = length ms \<and> (\<forall>i<length ms. (\<exists>chs. table_inv cfg chs (ms' ! i)) \<and> pc_ok (ms' ! i) w (pcs ! i)
      \<and> num_buckets (ms' ! i) = num_buckets (ms ! i)) \<and> cleaner_ok ms' cl'"
proof (cases cl)
  case (Before i b)
  then show ?thesis using run inv by (auto simp: nbuckets_def zless_nat_eq_int_zless split: if_splits)
next
  case (Sweep_In i b)
  then obtain m' where m': "delete_session cfg now b (ms ! i) = Ret m'" "ms' = ms[i := m']" "cl' = Swept i b" using run by auto
  have i: "i < length ms" "b < nbuckets (ms ! i)" using ok Sweep_In by simp_all
  obtain chs where "table_inv cfg chs (ms ! i)" using inv i(1) by blast
  from pc_ok_sweep [OF this i(2) _ _ m'(1), of w "pcs ! i"] inv i(1) free [OF i(1), of b] Sweep_In
  show ?thesis by (auto simp: m'(2,3) nth_list_update)
next
  case (Swept i b)
  then show ?thesis using run inv by auto
qed

lemma cleaner_step_lock:
  assumes "cleaner_step cfg now cl (held, ms) = Ret (cl', held', ms')"
    and "\<And>i b. cleaner_holds cl i b \<Longrightarrow> held i b"
  shows "(\<forall>i b. held' i b \<longleftrightarrow> cleaner_holds cl' i b \<or> (held i b \<and> \<not> cleaner_holds cl i b))
    \<and> (\<forall>i b. cleaner_holds cl' i b \<longrightarrow> cleaner_holds cl i b \<or> \<not> held i b)"
  using assms by (cases cl) (auto simp: mutex_lock_def mutex_unlock_def split: if_splits)

lemma manager_keeps:
  assumes S: "lock_inv cfg s" and i: "i < length (lk_ms s)" and run: "lock_step cfg (Manager i now) s = Ret s'"
  shows "lock_inv cfg s'"
proof -
  obtain pc held m w where M: "manager_step cfg now i (lk_pc s ! i) (lk_held s, lk_ms s ! i, lk_world s) = Ret (pc, held, m, w)"
    and s': "s' = s\<lparr>lk_ms := (lk_ms s)[i := m], lk_world := w, lk_held := held, lk_pc := (lk_pc s)[i := pc]\<rparr>"
    using run by auto
  have l: "length (lk_pc s) = length (lk_ms s)" "cleaner_ok (lk_ms s) (lk_cleaner s)" using S by (simp_all add: lock_inv_def)
  obtain chs where t: "table_inv cfg chs (lk_ms s ! i)" "pc_ok (lk_ms s ! i) (lk_world s) (lk_pc s ! i)"
    using S i by (auto simp: lock_inv_def)
  note K = manager_step_keeps [OF t M]
  have H: "\<not> (manager_holds s k b \<and> cleaner_holds (lk_cleaner s) k b)"
    "lk_held s k b \<longleftrightarrow> manager_holds s k b \<or> cleaner_holds (lk_cleaner s) k b" for k b
    using S unfolding lock_inv_def by blast+
  have "lk_held s i b" if "holds_lock (lk_pc s ! i) b" for b using H(2) [of i b] that i l(1) by (simp add: manager_holds_def)
  note L = manager_step_lock [OF M this]
  have "(\<exists>chs. table_inv cfg chs (lk_ms s' ! k)) \<and> pc_ok (lk_ms s' ! k) (lk_world s') (lk_pc s' ! k)" if k: "k < length (lk_ms s)" for k
  proof (cases "k = i")
    case True
    then show ?thesis using K i l(1) by (simp add: s')
  next
    case False
    have "pc_ok (lk_ms s ! k) w (lk_pc s ! k) = pc_ok (lk_ms s ! k) (lk_world s) (lk_pc s ! k)"
      by (rule pc_ok_cong) (use K in simp_all)
    then show ?thesis using False S k by (simp add: s' lock_inv_def)
  qed
  moreover have "\<not> (manager_holds s' k b \<and> cleaner_holds (lk_cleaner s') k b)
      \<and> (lk_held s' k b \<longleftrightarrow> manager_holds s' k b \<or> cleaner_holds (lk_cleaner s') k b)" for k b
    using H [of k b] L i l(1) by (cases "k = i") (auto simp: s' manager_holds_def)
  moreover have "cleaner_ok (lk_ms s') (lk_cleaner s')"
    using l(2) K i by (cases "lk_cleaner s") (auto simp: s' nth_list_update nbuckets_def)
  ultimately show ?thesis using l(1) unfolding lock_inv_def by (simp add: s')
qed

lemma cleaner_keeps:
  assumes S: "lock_inv cfg s" and run: "lock_step cfg (Cleaner now) s = Ret s'"
  shows "lock_inv cfg s'"
proof -
  obtain cl held ms where C: "cleaner_step cfg now (lk_cleaner s) (lk_held s, lk_ms s) = Ret (cl, held, ms)"
    and s': "s' = s\<lparr>lk_ms := ms, lk_held := held, lk_cleaner := cl\<rparr>" using run by auto
  have I: "length (lk_pc s) = length (lk_ms s)" "cleaner_ok (lk_ms s) (lk_cleaner s)"
    "\<forall>i<length (lk_ms s). (\<exists>chs. table_inv cfg chs (lk_ms s ! i)) \<and> pc_ok (lk_ms s ! i) (lk_world s) (lk_pc s ! i)"
    using S by (simp_all add: lock_inv_def)
  have H: "\<not> (manager_holds s k b \<and> cleaner_holds (lk_cleaner s) k b)"
    "lk_held s k b \<longleftrightarrow> manager_holds s k b \<or> cleaner_holds (lk_cleaner s) k b" for k b
    using S unfolding lock_inv_def by blast+
  have "\<not> holds_lock (lk_pc s ! i) b" if "i < length (lk_ms s)" "cleaner_holds (lk_cleaner s) i b" for i b
    using H(1) [of i b] that I(1) by (simp add: manager_holds_def)
  note K = cleaner_step_keeps [OF I(3) this I(2) C]
  have "lk_held s i b" if "cleaner_holds (lk_cleaner s) i b" for i b using H(2) that by blast
  note L = cleaner_step_lock [OF C this]
  have "\<not> (manager_holds s' k b \<and> cleaner_holds (lk_cleaner s') k b)
      \<and> (lk_held s' k b \<longleftrightarrow> manager_holds s' k b \<or> cleaner_holds (lk_cleaner s') k b)" for k b
    using H [of k b] L by (auto simp: s' manager_holds_def)
  then show ?thesis using K I(1) unfolding lock_inv_def by (simp add: s')
qed

lemma arrive_keeps:
  assumes S: "lock_inv cfg s" and i: "i < length (lk_ms s)" and run: "lock_step cfg (Arrive i f) s = Ret s'"
  shows "lock_inv cfg s'"
proof -
  obtain q where s': "s' = s\<lparr>lk_ms := (lk_ms s)[i := (lk_ms s ! i)\<lparr>mqueue := q\<rparr>]\<rparr>" using run by auto
  have "pc_ok ((lk_ms s ! i)\<lparr>mqueue := q\<rparr>) (lk_world s) pc = pc_ok (lk_ms s ! i) (lk_world s) pc" for pc
    by (rule pc_ok_cong) simp_all
  moreover have "cleaner_ok (lk_ms s') (lk_cleaner s)"
    using S i by (cases "lk_cleaner s") (auto simp: lock_inv_def s' nth_list_update nbuckets_def)
  ultimately show ?thesis using S i by (auto simp: lock_inv_def s' manager_holds_def nth_list_update)
qed

lemma lock_step_keeps: "lock_inv cfg s \<Longrightarrow> event_of e s \<Longrightarrow> lock_step cfg e s = Ret s' \<Longrightarrow> lock_inv cfg s'"
  by (cases e) (auto simp only: event_of.simps intro: manager_keeps cleaner_keeps arrive_keeps)

lemma lock_runs_inv: "lock_runs cfg s s' \<Longrightarrow> lock_inv cfg s \<Longrightarrow> lock_inv cfg s'"
  by (induction rule: lock_runs.induct) (blast intro: lock_step_keeps)+

lemma lock_runs_length: "lock_runs cfg s s' \<Longrightarrow> length (lk_ms s') = length (lk_ms s)"
proof (induction rule: lock_runs.induct)
  case (lock_runs_step s1 e s2)
  then show ?case by (cases e; cases "lk_cleaner s1") (auto split: if_splits)
qed simp

text \<open>The start: all managers before their dequeue, no lock taken, well-formed tables.\<close>

definition lock_start :: "sim_config \<Rightarrow> lock_state \<Rightarrow> bool" where
  "lock_start cfg s \<longleftrightarrow> lk_pc s = replicate (length (lk_ms s)) Idle \<and> lk_held s = (\<lambda>_ _. False) \<and> lk_cleaner s = Before 0 0
     \<and> (\<forall>m\<in>set (lk_ms s). \<exists>chs. table_inv cfg chs m)"

lemma lock_start_inv: "lock_start cfg s \<Longrightarrow> lock_inv cfg s"
  by (auto simp: lock_start_def lock_inv_def manager_holds_def)

section \<open>A pass without contention\<close>

fun lock_steps :: "sim_config \<Rightarrow> lock_event list \<Rightarrow> lock_state \<Rightarrow> lock_state run" where
  "lock_steps cfg [] s = Ret s"
| "lock_steps cfg (e # es) s = run_bind (lock_step cfg e s) (lock_steps cfg es)"

text \<open>Five steps of a manager with nobody in between are one pass of its loop.\<close>

lemma uncontended_pass:
  assumes "i < length (lk_ms s)" "length (lk_pc s) = length (lk_ms s)" "lk_pc s ! i = Idle" "\<And>b. \<not> lk_held s i b" "4 < pipe_depth cfg"
  shows "lock_steps cfg (replicate 5 (Manager i now)) s =
    run_bind (manager_pass cfg now (lk_ms s ! i, lk_world s)) (\<lambda>(m, w). Ret (s\<lparr>lk_ms := (lk_ms s)[i := m], lk_world := w\<rparr>))"
proof -
  have pc: "(lk_pc s)[i := Idle] = lk_pc s" using assms(3) by (metis list_update_id)
  have h: "(lk_held s)(i := (lk_held s i)(b := False)) = lk_held s" for b using assms(4) by (auto simp: fun_eq_iff)
  have five: "replicate 5 (Manager i now) = [Manager i now, Manager i now, Manager i now, Manager i now, Manager i now]"
    by (simp add: numeral_eq_Suc)
  show ?thesis
  proof (cases "intel_dequeue LG2_CAPACITY (mqueue (lk_ms s ! i))")
    case None
    then show ?thesis unfolding five using assms by (simp add: manager_pass_def take_flow_def Let_def)
  next
    case (Some fq)
    obtain f q where fq: "fq = (f, q)" by (cases fq)
    let ?m = "(lk_ms s ! i)\<lparr>m_alive := m_alive (lk_ms s ! i) + 1, mqueue := q\<rparr>" and ?w = "lk_world s"
    have held: "mutex_lock i b (lk_held s) = Ret ((lk_held s)(i := (lk_held s i)(b := True)))" for b
      using assms(4) by (simp add: mutex_lock_def)
    show ?thesis
    proof (cases "bucket_at ?m (bucket_index (word_of_int (num_buckets ?m)) (flow_key (flows ?w f)))")
      case (Ret b)
      show ?thesis
      proof (cases "find_list ?m (Bucket b) (flows ?w f)")
        case (Ret r)
        with \<open>bucket_at _ _ = Ret b\<close> Some fq show ?thesis unfolding five using assms
          by (cases r; cases "the r"; cases "add_new cfg now b f (?m, ?w)"; cases "add_found now b (case the r of Blist j \<Rightarrow> j | _ \<Rightarrow> 0) f (?m, ?w)")
            (auto simp: manager_pass_def take_flow_def Let_def bucket_index_flow hash_add_item_def held mutex_unlock_def pc h)
      qed (use \<open>bucket_at _ _ = Ret b\<close> Some fq assms in \<open>simp_all add: five manager_pass_def take_flow_def Let_def bucket_index_flow
          hash_add_item_def held\<close>)
    qed (use Some fq assms in \<open>simp_all add: five manager_pass_def take_flow_def Let_def bucket_index_flow hash_add_item_def\<close>)
  qed
qed

section \<open>Waiting with a lock in the hand\<close>

text \<open>The cleaner has not yet gone past bucket \<open>b\<close> of manager \<open>i\<close> in this round.\<close>

fun not_past :: "nat \<Rightarrow> nat \<Rightarrow> cleaner_at \<Rightarrow> bool" where
  "not_past i b (Before i' b') \<longleftrightarrow> i' \<noteq> i \<or> b' \<le> b"
| "not_past i b (Sweep_In i' b') \<longleftrightarrow> i' \<noteq> i \<or> b' < b"
| "not_past i b (Swept i' b') \<longleftrightarrow> i' \<noteq> i \<or> b' < b"

text \<open>Manager \<open>i\<close> waits for a session at bucket \<open>b\<close>, none is free, and no session is filed before bucket \<open>b\<close>.\<close>

definition locked_out :: "sim_config \<Rightarrow> nat \<Rightarrow> nat \<Rightarrow> nat \<Rightarrow> (key \<Rightarrow> session option) \<Rightarrow> lock_state \<Rightarrow> bool" where
  "locked_out cfg i b f S s \<longleftrightarrow> lock_inv cfg s \<and> i < length (lk_ms s) \<and> lk_pc s ! i = Alloc b f
     \<and> intel_list MANAGER_POOL (session_pool (lk_ms s ! i)) = [] \<and> session_of (lk_ms s ! i) = S
     \<and> (\<forall>k. bucket_of (lk_ms s ! i) k < b \<longrightarrow> S k = None) \<and> not_past i b (lk_cleaner s)"

lemma locked_out_waits:
  assumes "locked_out cfg i b f S s"
  shows "lk_held s i b" "lock_step cfg (Manager i now) s = Spin" "lk_cleaner s = Before i b \<Longrightarrow> lock_step cfg (Cleaner now) s = Spin"
proof -
  have I: "lock_inv cfg s" "i < length (lk_ms s)" "lk_pc s ! i = Alloc b f" "intel_list MANAGER_POOL (session_pool (lk_ms s ! i)) = []"
    using assms by (simp_all add: locked_out_def)
  have l: "length (lk_pc s) = length (lk_ms s)" using I(1) by (simp add: lock_inv_def)
  have "manager_holds s i b" using I(2,3) l by (simp add: manager_holds_def)
  then show h: "lk_held s i b" using I(1) unfolding lock_inv_def by blast
  have "intel_dequeue MANAGER_POOL (session_pool (lk_ms s ! i)) = None" using I(4) intel_dequeue_None by blast
  then show "lock_step cfg (Manager i now) s = Spin" by (simp add: I(3) add_new_def)
  obtain chs where t: "table_inv cfg chs (lk_ms s ! i)" "pc_ok (lk_ms s ! i) (lk_world s) (Alloc b f)"
    using I(1-3) unfolding lock_inv_def by metis
  then have "b < nbuckets (lk_ms s ! i)"
    using bucket_of_less [of cfg "lk_ms s ! i" "flow_key (flows (lk_world s) f)"] by (auto simp: table_inv_def)
  then show "lock_step cfg (Cleaner now) s = Spin" if "lk_cleaner s = Before i b"
    using that h I(2) by (simp add: nbuckets_def mutex_lock_def)
qed

lemma sweep_empty_bucket:
  assumes inv: "table_inv cfg chs m" and b: "b < nbuckets m" and none: "\<And>k. bucket_of m k = b \<Longrightarrow> session_of m k = None"
    and run: "delete_session cfg now b m = Ret m'"
  shows "session_of m' = session_of m" "bucket_of m' = bucket_of m"
    "intel_list MANAGER_POOL (session_pool m) = [] \<Longrightarrow> intel_list MANAGER_POOL (session_pool m') = []"
proof -
  from delete_session_refines [OF inv b, of now] run obtain chs' where D: "table_inv cfg chs' m'" "num_buckets m' = num_buckets m"
    "session_of m' = (\<lambda>k. if bucket_of m k = b then expire_spec cfg (\<lambda>_. now) (session_of m) k else session_of m k)" by auto
  show s: "session_of m' = session_of m"
    unfolding D(3) by (intro ext) (simp add: expire_spec_def none)
  show "bucket_of m' = bucket_of m" by (intro ext) (simp add: bucket_of_def D(2))
  show "intel_list MANAGER_POOL (session_pool m') = []" if "intel_list MANAGER_POOL (session_pool m) = []"
    using that pool_empty_iff [OF inv] pool_empty_iff [OF D(1)] s by simp
qed

lemma locked_out_cleaner:
  assumes L: "locked_out cfg i b f S s" and run: "cleaner_step cfg now (lk_cleaner s) (lk_held s, lk_ms s) = Ret (cl, held, ms)"
  shows "intel_list MANAGER_POOL (session_pool (ms ! i)) = [] \<and> session_of (ms ! i) = S \<and> bucket_of (ms ! i) = bucket_of (lk_ms s ! i)
    \<and> not_past i b cl"
proof -
  have I: "lock_inv cfg s" "i < length (lk_ms s)" "intel_list MANAGER_POOL (session_pool (lk_ms s ! i)) = []" "session_of (lk_ms s ! i) = S"
    "\<forall>k. bucket_of (lk_ms s ! i) k < b \<longrightarrow> S k = None" "not_past i b (lk_cleaner s)" using L by (simp_all add: locked_out_def)
  show ?thesis
  proof (cases "lk_cleaner s")
    case (Before i' b')
    then have "\<not> (i' = i \<and> b' = b)" using locked_out_waits(3) [OF L, of now] run by auto
    then show ?thesis using Before I run by (auto split: if_splits)
  next
    case (Sweep_In i' b')
    obtain m' where m': "delete_session cfg now b' (lk_ms s ! i') = Ret m'" "ms = (lk_ms s)[i' := m']" "cl = Swept i' b'"
      using Sweep_In run by auto
    show ?thesis
    proof (cases "i' = i")
      case True
      have b': "b' < b" "b' < nbuckets (lk_ms s ! i)" using I(1,6) Sweep_In True by (simp_all add: lock_inv_def)
      obtain chs where "table_inv cfg chs (lk_ms s ! i)" using I(1,2) by (auto simp: lock_inv_def)
      from sweep_empty_bucket [OF this b'(2) _ m'(1) [unfolded True]] I(3-5) b'(1) show ?thesis
        using I(2) by (simp add: m'(2,3) True)
    next
      case False
      then show ?thesis using I(3,4) by (simp add: m'(2,3))
    qed
  next
    case (Swept i' b')
    then show ?thesis using I run by auto
  qed
qed

lemma locked_out_keeps:
  assumes L: "locked_out cfg i b f S s" and "event_of e s" and run: "lock_step cfg e s = Ret s'"
  shows "locked_out cfg i b f S s'"
proof -
  have I: "lock_inv cfg s" "i < length (lk_ms s)" "lk_pc s ! i = Alloc b f" "length (lk_pc s) = length (lk_ms s)"
    using L by (simp_all add: locked_out_def lock_inv_def)
  have inv: "lock_inv cfg s'" by (rule lock_step_keeps [OF I(1) assms(2) run])
  have len: "length (lk_ms s') = length (lk_ms s)" using lock_runs_length lock_runs.intros assms(2) run by blast
  show ?thesis
  proof (cases e)
    case (Manager k now)
    then have "k \<noteq> i" using locked_out_waits(2) [OF L, of now] run by auto
    then show ?thesis using L run Manager inv len by (auto simp: locked_out_def)
  next
    case (Cleaner now)
    then obtain cl held ms where C: "cleaner_step cfg now (lk_cleaner s) (lk_held s, lk_ms s) = Ret (cl, held, ms)"
      "s' = s\<lparr>lk_ms := ms, lk_held := held, lk_cleaner := cl\<rparr>" using run by auto
    from locked_out_cleaner [OF L C(1)] show ?thesis using L inv len by (simp add: locked_out_def C(2))
  next
    case (Arrive k g)
    then obtain q where s': "s' = s\<lparr>lk_ms := (lk_ms s)[k := (lk_ms s ! k)\<lparr>mqueue := q\<rparr>]\<rparr>" using run by auto
    have n: "bucket_of (m\<lparr>mqueue := q\<rparr>) = bucket_of m" for m by (intro ext) (simp add: bucket_of_def)
    show ?thesis using L inv len assms(2) Arrive by (cases "k = i") (auto simp: locked_out_def s' n)
  qed
qed

lemma locked_out_runs: "lock_runs cfg s s' \<Longrightarrow> locked_out cfg i b f S s \<Longrightarrow> locked_out cfg i b f S s'"
  by (induction rule: lock_runs.induct) (blast intro: locked_out_keeps)+

section \<open>A concrete run\<close>

text \<open>A manager that takes a flow of a new session from its queue is at the branch after three steps.\<close>

definition one_manager :: "manager \<Rightarrow> world \<Rightarrow> lock_state" where
  "one_manager m w = \<lparr>lk_ms = [m], lk_world = w, lk_held = \<lambda>_ _. False, lk_pc = [Idle], lk_cleaner = Before 0 0\<rparr>"

lemma reaches_alloc:
  assumes inv: "table_inv cfg chs m" and q: "intel_inv LG2_CAPACITY (mqueue m)" "intel_list LG2_CAPACITY (mqueue m) = f # fs"
    and none: "session_of m (flow_key (flows w f)) = None" and depth: "4 < pipe_depth cfg"
  shows "\<exists>q s. lock_start cfg (one_manager m w) \<and> lock_runs cfg (one_manager m w) s
    \<and> lk_ms s = [m\<lparr>m_alive := m_alive m + 1, mqueue := q\<rparr>] \<and> lk_world s = w
    \<and> lk_pc s = [Alloc (bucket_of m (flow_key (flows w f))) f] \<and> lk_cleaner s = Before 0 0"
proof -
  obtain q' where d: "intel_dequeue LG2_CAPACITY (mqueue m) = Some (f, q')" using iq.deq_nonempty [OF q] by blast
  let ?m = "m\<lparr>m_alive := m_alive m + 1, mqueue := q'\<rparr>" and ?k = "flow_key (flows w f)"
  let ?b = "bucket_of m ?k"
  have t: "table_inv cfg chs ?m" "session_of ?m ?k = None" using inv none by simp_all
  have n: "bucket_of ?m = bucket_of m" "num_buckets m \<noteq> 0" using inv by (auto simp: bucket_of_def fun_eq_iff table_inv_def sizes_ok_def)
  have "bucket_at ?m (bucket_index (word_of_int (num_buckets m)) ?k) = Ret ?b"
    using bucket_at_index [of cfg ?m ?k] t(1) n(1) by (simp add: table_inv_def)
  then have T: "take_flow cfg (m, w) = Ret (Want ?b f, ?m, w)"
    using depth n(2) by (simp add: take_flow_def Let_def d bucket_index_flow)
  have F: "find_list ?m (Bucket ?b) (flows w f) = Ret None" using find_list_none [OF t(1), of ?b "flows w f"] t(2) n(1) by simp
  let ?s0 = "one_manager m w"
  let ?s1 = "?s0\<lparr>lk_ms := [?m], lk_pc := [Want ?b f]\<rparr>"
  let ?s2 = "?s1\<lparr>lk_held := (\<lambda>_ _. False)(0 := (\<lambda>_. False)(?b := True)), lk_pc := [Search ?b f]\<rparr>"
  have "lock_runs cfg ?s0 ?s1"
    by (rule lock_runs_step [OF lock_runs_refl, of "Manager 0 0"]) (simp_all add: one_manager_def T)
  then have "lock_runs cfg ?s0 ?s2"
    by (rule lock_runs_step [of _ _ _ "Manager 0 0"]) (simp_all add: one_manager_def mutex_lock_def)
  then have "lock_runs cfg ?s0 (?s2\<lparr>lk_pc := [Alloc ?b f]\<rparr>)"
    by (rule lock_runs_step [of _ _ _ "Manager 0 0"]) (simp_all add: one_manager_def F)
  moreover have "lock_start cfg ?s0" using inv by (auto simp: lock_start_def one_manager_def)
  ultimately show ?thesis
    by (intro exI [of _ q'] exI [of _ "?s2\<lparr>lk_pc := [Alloc ?b f]\<rparr>"]) (simp add: one_manager_def)
qed

lemma queue_of_one: "\<exists>q. intel_inv LG2_CAPACITY q \<and> intel_list LG2_CAPACITY q = [0::nat]"
proof -
  have Q: "intel_inv LG2_CAPACITY (intel_init LG2_CAPACITY (0::nat) (replicate (2 ^ LG2_CAPACITY) 0))
      \<and> intel_list LG2_CAPACITY (intel_init LG2_CAPACITY (0::nat) (replicate (2 ^ LG2_CAPACITY) 0)) = []"
    by (rule intel_init_inv) (simp_all add: LG2_CAPACITY_def)
  then have "length (intel_list LG2_CAPACITY (intel_init LG2_CAPACITY (0::nat) (replicate (2 ^ LG2_CAPACITY) 0))) < 2 ^ LG2_CAPACITY"
    by (simp del: length_intel_list)
  with iq.enq_room [OF conjunct1 [OF Q], of 0] Q show ?thesis by (metis append_Nil)
qed

section \<open>Properties\<close>

text \<open>C30. The lock of a bucket makes an insertion atomic. From a start with no lock taken, and in every
  interleaving of the steps of the managers and of the cleaner with the arrival of flows, a mutex is locked exactly when
  one thread is inside, and never two are; every table stays well formed; and a manager that has looked up
  its flow and is about to change the table does to it, as it is then, what the whole of \<^verbatim>\<open>hash_add_item\<close>
  would do: the session that it has found is still there, and one that it has not found has not
  appeared, however many sessions the cleaner has removed in between.\<close>

theorem insertions_are_atomic:
  assumes "lock_start cfg s0" "lock_runs cfg s0 s" "i < length (lk_ms s)"
  shows "(\<exists>chs. table_inv cfg chs (lk_ms s ! i))
    \<and> (\<forall>b. \<not> (manager_holds s i b \<and> cleaner_holds (lk_cleaner s) i b)
         \<and> (lk_held s i b \<longleftrightarrow> manager_holds s i b \<or> cleaner_holds (lk_cleaner s) i b))
    \<and> (\<forall>b f now. (lk_pc s ! i = Alloc b f \<or> (\<exists>j. lk_pc s ! i = Found b j f)) \<longrightarrow>
         lock_step cfg (Manager i now) s =
         run_bind (hash_add_item cfg now (bucket_index (word_of_int (num_buckets (lk_ms s ! i))) (flow_key (flows (lk_world s) f))) f
             (lk_ms s ! i, lk_world s))
           (\<lambda>(m, w). Ret (s\<lparr>lk_ms := (lk_ms s)[i := m], lk_world := w, lk_pc := (lk_pc s)[i := Unlock b]\<rparr>)))"
proof -
  have I: "lock_inv cfg s" using lock_runs_inv [OF assms(2) lock_start_inv [OF assms(1)]] .
  obtain chs where t: "table_inv cfg chs (lk_ms s ! i)" "pc_ok (lk_ms s ! i) (lk_world s) (lk_pc s ! i)"
    using I assms(3) by (auto simp: lock_inv_def)
  have "lock_step cfg (Manager i now) s =
      run_bind (hash_add_item cfg now (bucket_index (word_of_int (num_buckets (lk_ms s ! i))) (flow_key (flows (lk_world s) f))) f
          (lk_ms s ! i, lk_world s))
        (\<lambda>(m, w). Ret (s\<lparr>lk_ms := (lk_ms s)[i := m], lk_world := w, lk_pc := (lk_pc s)[i := Unlock b]\<rparr>))"
    if "lk_pc s ! i = Alloc b f \<or> (\<exists>j. lk_pc s ! i = Found b j f)" for b f now
    using that t(2) alloc_is_add [OF t(1), of "lk_world s" b f now] found_is_add [OF t(1), of "lk_world s" b _ f now]
    by (auto simp: run_bind_assoc case_prod_beta')
  with t(1) I show ?thesis unfolding lock_inv_def by blast
qed

theorem insertions_are_atomic_witness:
  "\<exists>s0 s s'. lock_start demo_cfg s0 \<and> lock_runs demo_cfg s0 s \<and> lock_step demo_cfg (Manager 0 77) s = Ret s'
     \<and> session_of (lk_ms s' ! 0) (9, 7, 80, 22, 6) = Some ([3, 4, 5], 77)"
proof -
  obtain m0 where m0: "table_inv demo_cfg (\<lambda>_. []) m0" "session_of m0 = (\<lambda>_. None)" using demo_started_ok by blast
  obtain q where q: "intel_inv LG2_CAPACITY q" "intel_list LG2_CAPACITY q = [0::nat]" using queue_of_one by blast
  let ?m = "m0\<lparr>mqueue := q\<rparr>"
  have k: "flow_key (flows demo_world 0) = (9, 7, 80, 22, 6)" "flow_bytes demo_world (flows demo_world 0) = [3, 4, 5]"
    by (simp_all add: flow_key_def flow_bytes_def demo_world_def)
  have t: "table_inv demo_cfg (\<lambda>_. []) ?m" "session_of ?m (flow_key (flows demo_world 0)) = None" using m0 by simp_all
  obtain q' s where R: "lock_start demo_cfg (one_manager ?m demo_world)" "lock_runs demo_cfg (one_manager ?m demo_world) s"
    "lk_ms s = [?m\<lparr>m_alive := m_alive ?m + 1, mqueue := q'\<rparr>]" "lk_world s = demo_world"
    "lk_pc s = [Alloc (bucket_of ?m (flow_key (flows demo_world 0))) 0]"
    using reaches_alloc [OF t(1) _ _ t(2), of "[]"] q by auto
  let ?m1 = "?m\<lparr>m_alive := m_alive ?m + 1, mqueue := q'\<rparr>"
  have t1: "table_inv demo_cfg (\<lambda>_. []) ?m1" "session_of ?m1 = (\<lambda>_. None)" using m0 by simp_all
  obtain m' w' where A: "hash_add_item demo_cfg 77 (bucket_index (word_of_int (num_buckets ?m1)) (flow_key (flows demo_world 0))) 0
      (?m1, demo_world) = Ret (m', w')" "session_of m' = add_spec 64 77 (9, 7, 80, 22, 6) [3, 4, 5] (\<lambda>_. None)"
    using hash_add_refines [OF t1(1) demo_ready, of 0 77] demo_pool [OF t1(1)] unfolding t1(2) k demo_fields by auto
  have "0 < length (lk_ms s)" using R(3) by simp
  from insertions_are_atomic [OF R(1,2) this] A(1) R(3-5) have "\<exists>s'. lock_step demo_cfg (Manager 0 77) s = Ret s' \<and> lk_ms s' ! 0 = m'"
    by auto
  moreover have "session_of m' (9, 7, 80, 22, 6) = Some ([3, 4, 5], 77)" by (simp add: A(2) add_spec_def)
  ultimately show ?thesis using R(1,2) by blast
qed

text \<open>C31. A manager that waits for a session keeps the cleaner out. Let a manager be in the branch of \<^verbatim>\<open>hash_add_item\<close>
  that opens a session at bucket \<open>b\<close>, with no free session, with no session filed in the buckets before \<open>b\<close>, and before the
  cleaner has gone past bucket \<open>b\<close> of its table in this round. Then, in every interleaving from there on,
  the manager still waits, with the lock in its hand; the cleaner never goes past bucket \<open>b\<close> of this table, and
  when it comes there it waits for the lock; and the sessions of the table stay what they are, however old they
  become, although a sweep of the table, which the cleaner cannot finish, would remove the expired ones.\<close>

theorem cleaner_locked_out:
  assumes "lock_start cfg s0" "lock_runs cfg s0 s" "i < length (lk_ms s)" "lk_pc s ! i = Alloc b f"
    and "intel_list MANAGER_POOL (session_pool (lk_ms s ! i)) = []"
    and "\<forall>k. bucket_of (lk_ms s ! i) k < b \<longrightarrow> session_of (lk_ms s ! i) k = None"
    and "not_past i b (lk_cleaner s)" "lock_runs cfg s s'"
  shows "lk_pc s' ! i = Alloc b f \<and> lk_held s' i b \<and> lock_step cfg (Manager i now) s' = Spin
    \<and> not_past i b (lk_cleaner s') \<and> (lk_cleaner s' = Before i b \<longrightarrow> lock_step cfg (Cleaner now) s' = Spin)
    \<and> session_of (lk_ms s' ! i) = session_of (lk_ms s ! i)
    \<and> (\<exists>m. hash_travel_delete cfg clock (lk_ms s' ! i) = Ret m
         \<and> session_of m = expire_spec cfg (\<lambda>k. clock (bucket_of (lk_ms s' ! i) k)) (session_of (lk_ms s ! i)))"
proof -
  have "locked_out cfg i b f (session_of (lk_ms s ! i)) s"
    using lock_runs_inv [OF assms(2) lock_start_inv [OF assms(1)]] assms(3-7) by (simp add: locked_out_def)
  from locked_out_runs [OF assms(8) this] have L: "locked_out cfg i b f (session_of (lk_ms s ! i)) s'" .
  then have I: "lock_inv cfg s'" "i < length (lk_ms s')" "lk_pc s' ! i = Alloc b f" "session_of (lk_ms s' ! i) = session_of (lk_ms s ! i)"
    "not_past i b (lk_cleaner s')" by (simp_all add: locked_out_def)
  obtain chs where "table_inv cfg chs (lk_ms s' ! i)" using I(1,2) by (auto simp: lock_inv_def)
  from hash_travel_delete_refines [OF this, of clock] I locked_out_waits [OF L] show ?thesis by auto
qed

theorem cleaner_locked_out_witness:
  "\<exists>s0 s. lock_start demo_cfg s0 \<and> lock_runs demo_cfg s0 s \<and> lk_held s 0 0
     \<and> lock_step demo_cfg (Manager 0 5) s = Spin \<and> lock_step demo_cfg (Cleaner 1000) s = Spin"
proof -
  let ?w = "demo_world\<lparr>flows := \<lambda>f. (flows demo_world f)\<lparr>upper_ip := 7, lower_ip := 8\<rparr>\<rparr>"
  obtain m0 chs where m0: "table_inv demo_cfg chs m0" "intel_list MANAGER_POOL (session_pool m0) = []" "num_buckets m0 = 11"
    "\<forall>ip. session_of m0 (ip, 8, 80, 22, 6) = None" by (rule full_table)
  obtain q where q: "intel_inv LG2_CAPACITY q" "intel_list LG2_CAPACITY q = [0::nat]" using queue_of_one by blast
  let ?m = "m0\<lparr>mqueue := q\<rparr>"
  have k: "flow_key (flows ?w 0) = (7, 8, 80, 22, 6)" by (simp add: flow_key_def demo_world_def)
  have "bucket_index 11 (7, 8, 80, 22, 6) = (0::u32)" by (simp add: bucket_index_def MAKE_HASH_def)
  then have b: "bucket_of ?m (flow_key (flows ?w 0)) = 0" unfolding k by (simp add: bucket_of_def m0(3))
  have t: "table_inv demo_cfg chs ?m" "session_of ?m (flow_key (flows ?w 0)) = None" using m0(1,4) unfolding k by simp_all
  obtain q' s where R: "lock_start demo_cfg (one_manager ?m ?w)" "lock_runs demo_cfg (one_manager ?m ?w) s"
    "lk_ms s = [?m\<lparr>m_alive := m_alive ?m + 1, mqueue := q'\<rparr>]" "lk_pc s = [Alloc 0 0]" "lk_cleaner s = Before 0 0"
    using reaches_alloc [OF t(1) _ _ t(2), of "[]"] q unfolding b by auto
  have "0 < length (lk_ms s)" "lk_pc s ! 0 = Alloc 0 0" "intel_list MANAGER_POOL (session_pool (lk_ms s ! 0)) = []"
    "\<forall>k. bucket_of (lk_ms s ! 0) k < 0 \<longrightarrow> session_of (lk_ms s ! 0) k = None" "not_past 0 0 (lk_cleaner s)"
    using R(3-5) m0(2) by simp_all
  note W = cleaner_locked_out [OF R(1,2) this lock_runs_refl]
  show ?thesis using R(1,2) W [of 5] W [of 1000] R(5) by blast
qed

end
