(* ===== verification/Byte_Memory.thy ===== *)
theory Byte_Memory
  imports Fp_Prelude
begin

unbundle bit_operations_syntax

text \<open>
  Reading and writing a buffer of bytes the way the generator and the parser do it through
  pointers to packed structs, on a little-endian host. An access that leaves the buffer faults.
  \<^verbatim>\<open>htons\<close> and \<^verbatim>\<open>htonl\<close> reverse the bytes.
\<close>

section \<open>Accesses\<close>

definition get_bytes :: "u8 list \<Rightarrow> nat \<Rightarrow> nat \<Rightarrow> u8 list run" where
  "get_bytes bs i n = (if i + n \<le> length bs then Ret (take n (drop i bs)) else Fault)"

definition put_bytes :: "u8 list \<Rightarrow> nat \<Rightarrow> u8 list \<Rightarrow> u8 list run" where
  "put_bytes bs i xs =
     (if i + length xs \<le> length bs then Ret (take i bs @ xs @ drop (i + length xs) bs) else Fault)"

definition le16 :: "u8 list \<Rightarrow> u16" where
  "le16 xs = ucast (xs ! 0) OR push_bit 8 (ucast (xs ! 1))"

definition le32 :: "u8 list \<Rightarrow> u32" where
  "le32 xs = ucast (xs ! 0) OR push_bit 8 (ucast (xs ! 1)) OR push_bit 16 (ucast (xs ! 2))
             OR push_bit 24 (ucast (xs ! 3))"

definition bytes16 :: "u16 \<Rightarrow> u8 list" where
  "bytes16 w = [ucast w, ucast (drop_bit 8 w)]"

definition bytes32 :: "u32 \<Rightarrow> u8 list" where
  "bytes32 w = [ucast w, ucast (drop_bit 8 w), ucast (drop_bit 16 w), ucast (drop_bit 24 w)]"

definition load8 :: "u8 list \<Rightarrow> nat \<Rightarrow> u8 run" where
  "load8 bs i = run_bind (get_bytes bs i 1) (\<lambda>xs. Ret (xs ! 0))"

definition load16 :: "u8 list \<Rightarrow> nat \<Rightarrow> u16 run" where
  "load16 bs i = run_bind (get_bytes bs i 2) (\<lambda>xs. Ret (le16 xs))"

definition load32 :: "u8 list \<Rightarrow> nat \<Rightarrow> u32 run" where
  "load32 bs i = run_bind (get_bytes bs i 4) (\<lambda>xs. Ret (le32 xs))"

definition store8 :: "u8 list \<Rightarrow> nat \<Rightarrow> u8 \<Rightarrow> u8 list run" where
  "store8 bs i w = put_bytes bs i [w]"

definition store16 :: "u8 list \<Rightarrow> nat \<Rightarrow> u16 \<Rightarrow> u8 list run" where
  "store16 bs i w = put_bytes bs i (bytes16 w)"

definition store32 :: "u8 list \<Rightarrow> nat \<Rightarrow> u32 \<Rightarrow> u8 list run" where
  "store32 bs i w = put_bytes bs i (bytes32 w)"

definition htons :: "u16 \<Rightarrow> u16" where
  "htons w = le16 (rev (bytes16 w))"

definition htonl :: "u32 \<Rightarrow> u32" where
  "htonl w = le32 (rev (bytes32 w))"

section \<open>Words and bytes\<close>

lemma length_bytes [simp]: "length (bytes16 w) = 2" "length (bytes32 v) = 4"
  by (simp_all add: bytes16_def bytes32_def)

lemma le16_bytes16 [simp]: "le16 (bytes16 w) = w"
  by (rule bit_word_eqI) (auto simp: le16_def bytes16_def bit_simps)

lemma le32_bytes32 [simp]: "le32 (bytes32 w) = w"
proof (rule bit_word_eqI)
  fix n
  assume "n < LENGTH(32)"
  then consider "n < 8" | "8 \<le> n" "n < 16" | "16 \<le> n" "n < 24" | "24 \<le> n" "n < 32" by fastforce
  then show "bit (le32 (bytes32 w)) n = bit w n"
    by cases (auto simp: le32_def bytes32_def bit_simps)
qed

lemma bytes16_le16: "length xs = 2 \<Longrightarrow> bytes16 (le16 xs) = xs"
proof -
  assume "length xs = 2"
  then obtain a b where "xs = [a, b]" by (auto simp: eval_nat_numeral length_Suc_conv)
  moreover have "ucast (ucast a OR push_bit 8 (ucast b) :: u16) = a"
    by (rule bit_word_eqI) (auto simp: bit_simps)
  moreover have "ucast (drop_bit 8 (ucast a OR push_bit 8 (ucast b) :: u16)) = b"
    by (rule bit_word_eqI) (auto simp: bit_simps dest: bit_imp_le_length)
  ultimately show ?thesis by (simp add: bytes16_def le16_def)
qed

lemma bytes32_le32: "length xs = 4 \<Longrightarrow> bytes32 (le32 xs) = xs"
proof -
  assume "length xs = 4"
  then obtain a b c d where xs: "xs = [a, b, c, d]" by (auto simp: eval_nat_numeral length_Suc_conv)
  let ?w = "ucast a OR push_bit 8 (ucast b) OR push_bit 16 (ucast c) OR push_bit 24 (ucast d) :: u32"
  have "ucast ?w = a" by (rule bit_word_eqI) (auto simp: bit_simps)
  moreover have "ucast (drop_bit 8 ?w) = b"
    by (rule bit_word_eqI) (auto simp: bit_simps dest: bit_imp_le_length)
  moreover have "ucast (drop_bit 16 ?w) = c"
    by (rule bit_word_eqI) (auto simp: bit_simps dest: bit_imp_le_length)
  moreover have "ucast (drop_bit 24 ?w) = d"
    by (rule bit_word_eqI) (auto simp: bit_simps dest: bit_imp_le_length)
  ultimately show ?thesis by (simp add: xs bytes32_def le32_def or.assoc)
qed

lemma htons_htons [simp]: "htons (htons w) = w"
  by (simp add: htons_def bytes16_le16)

lemma htonl_htonl [simp]: "htonl (htonl w) = w"
  by (simp add: htonl_def bytes32_le32)

section \<open>Reading after writing\<close>

lemma put_bytes_Ret:
  "put_bytes bs i xs = Ret bs' \<longleftrightarrow>
     i + length xs \<le> length bs \<and> bs' = take i bs @ xs @ drop (i + length xs) bs"
  by (auto simp: put_bytes_def)

lemma put_bytes_length [fp_mem]: "put_bytes bs i xs = Ret bs' \<Longrightarrow> length bs' = length bs"
  by (auto simp: put_bytes_Ret)

lemma get_put_same:
  "put_bytes bs i xs = Ret bs' \<Longrightarrow> get_bytes bs' i (length xs) = Ret xs"
  by (auto simp: put_bytes_Ret get_bytes_def)

lemma get_put_other:
  assumes "put_bytes bs i xs = Ret bs'" "j + n \<le> i \<or> i + length xs \<le> j"
  shows "get_bytes bs' j n = get_bytes bs j n"
proof -
  have b: "i + length xs \<le> length bs" "bs' = take i bs @ xs @ drop (i + length xs) bs"
    using assms(1) by (auto simp: put_bytes_Ret)
  have "take n (drop j bs') = take n (drop j bs)" if "j + n \<le> length bs"
    by (rule nth_equalityI) (use that b assms(2) in \<open>auto simp: nth_append\<close>)
  moreover have "length bs' = length bs" using b by simp
  ultimately show ?thesis by (simp add: get_bytes_def)
qed

lemma put_bytes_returns: "i + length xs \<le> length bs \<Longrightarrow> \<exists>bs'. put_bytes bs i xs = Ret bs'"
  by (simp add: put_bytes_def)

end
