(* ===== verification/Packet_Parser.thy ===== *)
theory Packet_Parser
  imports Session_Table Byte_Memory
begin

unbundle bit_operations_syntax

text \<open>
  \<^verbatim>\<open>src/packet_parser.c\<close>: decoding a packet into a flow, and the parser thread, which takes
  batches of 64 packets from its queue, decodes them into flows of its pool and hands each flow to
  the manager that its addresses and ports select.
\<close>

section \<open>Decoding\<close>

definition PAY_LEN :: nat where "PAY_LEN = 2"

definition ETH_HDR_LEN :: nat where "ETH_HDR_LEN = 14"

definition make_flow_item_tcp :: "nat \<Rightarrow> packet \<Rightarrow> flow_item \<Rightarrow> flow_item run" where
  "make_flow_item_tcp pid pkt flow =
     (let d = data pkt; ip = PAY_LEN + ETH_HDR_LEN
      in run_bind (load8 d ip) (\<lambda>ver_ihl.
         let ihl = unat (ver_ihl AND 0xF) * 4; tcp = PAY_LEN + ETH_HDR_LEN + ihl
         in run_bind (load8 d (tcp + 12)) (\<lambda>off.
         let tcp_len = unat (drop_bit 4 off) * 4;
             header_len = ETH_HDR_LEN + ihl + tcp_len + PAY_LEN
         in run_bind (load32 d (ip + 12)) (\<lambda>saddr.
         run_bind (load32 d (ip + 16)) (\<lambda>daddr.
         run_bind (load16 d tcp) (\<lambda>source.
         run_bind (load16 d (tcp + 2)) (\<lambda>dest.
         run_bind (load8 d (ip + 9)) (\<lambda>proto.
         Ret (flow\<lparr>fpacket := pid,
                upper_ip := (if saddr \<ge> daddr then saddr else daddr),
                lower_ip := (if saddr \<ge> daddr then daddr else saddr),
                upper_port := ucast (if source \<ge> dest then source else dest),
                lower_port := ucast (if source \<ge> dest then dest else source),
                protocol := proto,
                payload := (pid, header_len),
                payload_len := plength pkt - of_nat header_len + of_nat PAY_LEN\<rparr>)))))))))"

definition make_flow_item_udp :: "nat \<Rightarrow> packet \<Rightarrow> nat \<Rightarrow> flow_item \<Rightarrow> flow_item run" where
  "make_flow_item_udp pid pkt header_len flow =
     (let d = data pkt; ip = PAY_LEN + ETH_HDR_LEN
      in run_bind (load8 d ip) (\<lambda>ver_ihl.
         let ihl = unat (ver_ihl AND 0xF) * 4; udp = PAY_LEN + ETH_HDR_LEN + ihl
         in run_bind (load32 d (ip + 12)) (\<lambda>saddr.
         run_bind (load32 d (ip + 16)) (\<lambda>daddr.
         run_bind (load16 d udp) (\<lambda>source.
         run_bind (load16 d (udp + 2)) (\<lambda>dest.
         run_bind (load8 d (ip + 9)) (\<lambda>proto.
         Ret (flow\<lparr>fpacket := pid,
                upper_ip := (if saddr \<ge> daddr then saddr else daddr),
                lower_ip := (if saddr \<ge> daddr then daddr else saddr),
                upper_port := ucast (if source \<ge> dest then source else dest),
                lower_port := ucast (if source \<ge> dest then dest else source),
                protocol := proto,
                payload := (pid, header_len),
                payload_len := plength pkt - of_nat header_len + of_nat PAY_LEN\<rparr>))))))))"

section \<open>The parser thread\<close>

record parser =
  p_total :: u64
  pqueue :: "nat intel_queue"
  p_alive :: u32
  p_drop_cause_pool_empty :: u64
  p_drop_cause_no_payload :: u64
  p_drop_cause_unsupport_protocol :: u64

definition COUNT :: nat where "COUNT = 64"

text \<open>\<^verbatim>\<open>for (k = 0; k < COUNT; k++) make_flow_item_tcp(flow[k], packet[k], 0);\<close>\<close>

fun make_flows :: "(nat \<times> nat) list \<Rightarrow> world \<Rightarrow> world run" where
  "make_flows [] w = Ret w"
| "make_flows ((f, p) # fps) w =
     run_bind (make_flow_item_tcp p (packets w p) (flows w f)) (\<lambda>flow.
     make_flows fps (w\<lparr>flows := (flows w)(f := flow)\<rparr>))"

text \<open>
  The loop that hands the flows over. \<open>view\<close> is \<^verbatim>\<open>ghash_view\<close>, an array of 36 counters: an index
  outside it is a fault.
\<close>

fun dispatch :: "nat list \<Rightarrow> world \<Rightarrow> manager list \<Rightarrow> u32 list \<Rightarrow> (manager list \<times> u32 list) run" where
  "dispatch [] w ms view = Ret (ms, view)"
| "dispatch (f # fs) w ms view =
     (if ms = [] then Fault
      else let index = unat (hash_index (flows w f) (of_nat (length ms)))
           in if length view \<le> index then Fault
              else let view' = view[index := view ! index + 1]
                   in run_bind (spin_until (intel_enqueue LG2_CAPACITY (mqueue (ms ! index)) f)) (\<lambda>q.
                      dispatch fs w (ms[index := (ms ! index)\<lparr>mqueue := q\<rparr>]) view'))"

text \<open>All packets of the batch go back to the pool of the first one.\<close>

definition give_back_packets :: "nat list \<Rightarrow> world \<Rightarrow> world run" where
  "give_back_packets ps w =
     (let pp = ppool (packets w (ps ! 0))
      in run_bind (spin_until (intel_enqueue_multiple LG2_CAPACITY (packet_pools w pp) ps)) (\<lambda>q.
         Ret (w\<lparr>packet_pools := (packet_pools w)(pp := q)\<rparr>)))"

definition give_back_flows :: "nat \<Rightarrow> nat list \<Rightarrow> world \<Rightarrow> world run" where
  "give_back_flows i fs w =
     run_bind (spin_until (intel_enqueue_multiple LG2_CAPACITY (flow_pools w i) fs)) (\<lambda>q.
     Ret (w\<lparr>flow_pools := (flow_pools w)(i := q)\<rparr>))"

type_synonym parser_state = "parser \<times> world \<times> manager list \<times> u32 list"

definition parser_pass :: "sim_config \<Rightarrow> nat \<Rightarrow> parser_state \<Rightarrow> parser_state run" where
  "parser_pass cfg i = (\<lambda>(pr, w, ms, view).
     let pr1 = pr\<lparr>p_alive := p_alive pr + 1\<rparr>
     in run_bind (spin_until (intel_dequeue_multiple LG2_CAPACITY (pqueue pr1) (of_nat COUNT))) (\<lambda>(ps, q).
        let pr2 = pr1\<lparr>pqueue := q\<rparr>
        in if pipe_depth cfg > 2
           then run_bind (spin_until (intel_dequeue_multiple LG2_CAPACITY (flow_pools w i) (of_nat COUNT)))
                  (\<lambda>(fs, fq).
                let w1 = w\<lparr>flow_pools := (flow_pools w)(i := fq)\<rparr>
                in run_bind (make_flows (zip fs ps) w1) (\<lambda>w2.
                   if pipe_depth cfg > 3
                   then run_bind (dispatch fs w2 ms view) (\<lambda>(ms', view'). Ret (pr2, w2, ms', view'))
                   else run_bind (give_back_packets ps w2) (\<lambda>w3.
                        run_bind (give_back_flows i fs w3) (\<lambda>w4. Ret (pr2, w4, ms, view)))))
           else run_bind (give_back_packets ps w) (\<lambda>w1. Ret (pr2, w1, ms, view))))"

section \<open>Initialisation\<close>

text \<open>The pool is filled with the flows \<open>base, \<dots>, base + 1023\<close>; \<open>i\<close> is the pool.\<close>

fun fill_flow_pool :: "nat \<Rightarrow> nat \<Rightarrow> nat \<Rightarrow> world \<Rightarrow> world" where
  "fill_flow_pool i base 0 w = w"
| "fill_flow_pool i base (Suc j) w =
     (let w1 = fill_flow_pool i base j w;
          w2 = w1\<lparr>flows := (flows w1)(base + j := (flows w1 (base + j))\<lparr>fpool := i\<rparr>)\<rparr>
      in case intel_enqueue LG2_CAPACITY (flow_pools w2 i) (base + j) of
           None \<Rightarrow> w2
         | Some q \<Rightarrow> w2\<lparr>flow_pools := (flow_pools w2)(i := q)\<rparr>)"

definition init_single_parser ::
    "nat \<Rightarrow> nat list \<Rightarrow> nat \<Rightarrow> nat \<Rightarrow> parser \<times> world \<Rightarrow> parser \<times> world" where
  "init_single_parser null junk base i = (\<lambda>(pr, w).
     let pr1 = pr\<lparr>pqueue := intel_init LG2_CAPACITY null junk\<rparr>;
         w1 = w\<lparr>flow_pools := (flow_pools w)(i := intel_init LG2_CAPACITY null junk)\<rparr>;
         w2 = fill_flow_pool i base 1024 w1
     in (pr1\<lparr>p_total := 0, p_drop_cause_pool_empty := 0, p_drop_cause_no_payload := 0,
            p_drop_cause_unsupport_protocol := 0\<rparr>, w2))"

fun init_parsers ::
    "nat \<Rightarrow> nat list \<Rightarrow> parser \<Rightarrow> nat \<Rightarrow> parser list \<times> world \<Rightarrow> parser list \<times> world" where
  "init_parsers null junk pr0 0 s = s"
| "init_parsers null junk pr0 (Suc n) s =
     (let (prs, w) = init_parsers null junk pr0 n s;
          (pr, w') = init_single_parser null junk (1024 * n) n (pr0, w)
      in (prs @ [pr], w'))"

text \<open>\<open>None\<close>: the group exists already and the code returns NULL.\<close>

definition init_parser_group ::
    "sim_config \<Rightarrow> nat \<Rightarrow> nat list \<Rightarrow> parser \<Rightarrow> parser list option \<times> world \<Rightarrow> (parser list \<times> world) option run" where
  "init_parser_group cfg null junk pr0 = (\<lambda>(grp, w).
     case grp of Some g \<Rightarrow> Ret None
     | None \<Rightarrow>
         run_bind (malloc_or_exit (parser_nums cfg)) (\<lambda>_.
         Ret (Some (init_parsers null junk pr0 (nat (parser_nums cfg)) ([], w)))))"

section \<open>What decoding reads\<close>

definition ip_hdr_len :: "u8 list \<Rightarrow> nat" where "ip_hdr_len d = unat (d ! 16 AND 0xF) * 4"

definition l4_at :: "u8 list \<Rightarrow> nat" where "l4_at d = 16 + ip_hdr_len d"

definition tcp_hdr_len :: "u8 list \<Rightarrow> nat" where "tcp_hdr_len d = unat (drop_bit 4 (d ! (l4_at d + 12))) * 4"

definition src_ip :: "u8 list \<Rightarrow> u32" where "src_ip d = le32 (take 4 (drop 28 d))"

definition dst_ip :: "u8 list \<Rightarrow> u32" where "dst_ip d = le32 (take 4 (drop 32 d))"

definition src_port :: "u8 list \<Rightarrow> u16" where "src_port d = le16 (take 2 (drop (l4_at d) d))"

definition dst_port :: "u8 list \<Rightarrow> u16" where "dst_port d = le16 (take 2 (drop (l4_at d + 2) d))"

text \<open>The bytes that decoding touches are inside the buffer.\<close>

definition headers_inside :: "u8 list \<Rightarrow> bool" where
  "headers_inside d \<longleftrightarrow> 36 \<le> length d \<and> l4_at d + 13 \<le> length d"

lemma loads:
  "i < length d \<Longrightarrow> load8 d i = Ret (d ! i)"
  "i + 2 \<le> length d \<Longrightarrow> load16 d i = Ret (le16 (take 2 (drop i d)))"
  "i + 4 \<le> length d \<Longrightarrow> load32 d i = Ret (le32 (take 4 (drop i d)))"
  by (simp_all add: load8_def load16_def load32_def get_bytes_def)

lemmas parser_consts = PAY_LEN_def ETH_HDR_LEN_def

lemma make_flow_item_tcp_eq:
  assumes "headers_inside (data pkt)"
  shows "make_flow_item_tcp pid pkt flow =
    (let d = data pkt; hl = 16 + ip_hdr_len d + tcp_hdr_len d
     in Ret (flow\<lparr>fpacket := pid, upper_ip := max (src_ip d) (dst_ip d), lower_ip := min (src_ip d) (dst_ip d),
           upper_port := ucast (max (src_port d) (dst_port d)), lower_port := ucast (min (src_port d) (dst_port d)),
           protocol := d ! 25, payload := (pid, hl), payload_len := plength pkt - of_nat hl + 2\<rparr>))"
proof -
  let ?d = "data pkt"
  have len: "36 \<le> length ?d" "l4_at ?d + 13 \<le> length ?d" using assms by (auto simp: headers_inside_def)
  have a: "load8 ?d 16 = Ret (?d ! 16)" "load8 ?d 25 = Ret (?d ! 25)"
    "load32 ?d 28 = Ret (src_ip ?d)" "load32 ?d 32 = Ret (dst_ip ?d)"
    using len(1) by (simp_all add: loads src_ip_def dst_ip_def)
  have b: "load8 ?d (l4_at ?d + 12) = Ret (?d ! (l4_at ?d + 12))"
    "load16 ?d (l4_at ?d) = Ret (src_port ?d)" "load16 ?d (l4_at ?d + 2) = Ret (dst_port ?d)"
    using len(2) by (simp_all add: loads src_port_def dst_port_def)
  have l4: "16 + unat (?d ! 16 AND 0xF) * 4 = l4_at ?d" by (simp add: l4_at_def ip_hdr_len_def)
  have hl: "14 + unat (?d ! 16 AND 0xF) * 4 + unat (drop_bit 4 (?d ! (l4_at ?d + 12))) * 4 + 2
      = 16 + ip_hdr_len ?d + tcp_hdr_len ?d"
    by (simp add: ip_hdr_len_def tcp_hdr_len_def)
  show ?thesis
    unfolding make_flow_item_tcp_def parser_consts Let_def
    by (simp only: a b l4 hl run_bind.simps numeral_plus_numeral arith_simps max_def min_def
        add_numeral_left) (auto simp: max_def min_def)
qed

lemma minmax_eq_iff:
  fixes a b c d :: "'a::linorder"
  shows "max a b = max c d \<and> min a b = min c d \<longleftrightarrow> {a, b} = {c, d}"
  by (auto simp: max_def min_def doubleton_eq_iff split: if_splits)

lemma ucast_16_32_eq: "(ucast (a::u16) :: u32) = ucast b \<longleftrightarrow> a = b"
proof
  assume "(ucast a :: u32) = ucast b"
  then have "unat (ucast a :: u32) = unat (ucast b :: u32)" by simp
  then have "unat a = unat b" by (simp add: unat_ucast_up)
  then show "a = b" by (rule unsigned_word_eqI)
qed simp

lemma decoded_key:
  assumes "headers_inside (data p)" "make_flow_item_tcp i p f = Ret a"
  shows "flow_key a = (max (src_ip (data p)) (dst_ip (data p)), min (src_ip (data p)) (dst_ip (data p)),
     ucast (max (src_port (data p)) (dst_port (data p))), ucast (min (src_port (data p)) (dst_port (data p))),
     data p ! 25)"
proof -
  obtain hl l where "a = f\<lparr>fpacket := i, upper_ip := max (src_ip (data p)) (dst_ip (data p)),
      lower_ip := min (src_ip (data p)) (dst_ip (data p)),
      upper_port := ucast (max (src_port (data p)) (dst_port (data p))),
      lower_port := ucast (min (src_port (data p)) (dst_port (data p))),
      protocol := data p ! 25, payload := (i, hl), payload_len := l\<rparr>"
    using assms(2) unfolding make_flow_item_tcp_eq [OF assms(1)] Let_def run.inject by blast
  then show ?thesis by (simp add: flow_key_def)
qed

lemma decoded_key_iff:
  assumes "headers_inside (data p)" "headers_inside (data q)"
    and "make_flow_item_tcp i p f = Ret a" "make_flow_item_tcp j q g = Ret b"
  shows "flow_key a = flow_key b \<longleftrightarrow>
     {src_ip (data p), dst_ip (data p)} = {src_ip (data q), dst_ip (data q)}
     \<and> {src_port (data p), dst_port (data p)} = {src_port (data q), dst_port (data q)}
     \<and> data p ! 25 = data q ! 25"
proof -
  have "flow_key a = flow_key b \<longleftrightarrow>
     (max (src_ip (data p)) (dst_ip (data p)) = max (src_ip (data q)) (dst_ip (data q))
      \<and> min (src_ip (data p)) (dst_ip (data p)) = min (src_ip (data q)) (dst_ip (data q)))
     \<and> (max (src_port (data p)) (dst_port (data p)) = max (src_port (data q)) (dst_port (data q))
      \<and> min (src_port (data p)) (dst_port (data p)) = min (src_port (data q)) (dst_port (data q)))
     \<and> data p ! 25 = data q ! 25"
    unfolding decoded_key [OF assms(1,3)] decoded_key [OF assms(2,4)] prod.inject ucast_16_32_eq by blast
  then show ?thesis unfolding minmax_eq_iff .
qed

section \<open>The payload\<close>

lemma unat_payload_len:
  fixes l :: u32
  assumes "h < 2 ^ 32" "h \<le> unat l + 2" "unat l + 2 < 2 ^ 32"
  shows "unat (l - of_nat h + 2) = unat l + 2 - h"
proof -
  have l: "unat (l + 2) = unat l + 2" using assms(3) by (simp add: unat_add_small)
  have h: "unat (of_nat h :: u32) = h" using assms(1) by (simp add: unat_of_nat_small)
  have "unat ((l + 2) - of_nat h) = unat (l + 2) - unat (of_nat h :: u32)"
    by (rule unat_sub) (use assms(2) l h in \<open>simp add: word_le_nat_alt\<close>)
  moreover have "(l + 2) - of_nat h = l - of_nat h + 2" by simp
  ultimately show ?thesis unfolding l h by (simp only:)
qed

lemma header_small: "16 + ip_hdr_len d + tcp_hdr_len d < 2 ^ 32"
proof -
  have "unat (d ! 16 AND 0xF) < 2 ^ 8" "unat (drop_bit 4 (d ! (l4_at d + 12))) < 2 ^ 8"
    using unsigned_less [where 'a = nat and 'b = 8] by auto
  then show ?thesis by (simp add: ip_hdr_len_def tcp_hdr_len_def)
qed

lemma decoded_payload:
  assumes "headers_inside (data (packets w p))" "make_flow_item_tcp p (packets w p) f = Ret a"
    and "16 + ip_hdr_len (data (packets w p)) + tcp_hdr_len (data (packets w p)) \<le> unat (plength (packets w p)) + 2"
    and "unat (plength (packets w p)) + 2 \<le> length (data (packets w p))"
    and "unat (plength (packets w p)) + 2 < 2 ^ 32"
  shows "payload_inside w a \<and> flow_bytes w a =
     drop (16 + ip_hdr_len (data (packets w p)) + tcp_hdr_len (data (packets w p)))
       (take (unat (plength (packets w p)) + 2) (data (packets w p)))"
proof -
  let ?d = "data (packets w p)"
  let ?h = "16 + ip_hdr_len ?d + tcp_hdr_len ?d"
  have a: "payload a = (p, ?h)" "payload_len a = plength (packets w p) - of_nat ?h + 2"
    using assms(2) unfolding make_flow_item_tcp_eq [OF assms(1)] by (auto simp: Let_def)
  have "unat (payload_len a) = unat (plength (packets w p)) + 2 - ?h"
    unfolding a(2) using header_small assms(3,5) by (rule unat_payload_len)
  then show ?thesis
    using a(1) assms(3,4) by (simp add: payload_inside_def flow_bytes_def drop_take)
qed

text \<open>A packet shorter than its headers: the length wraps.\<close>

lemma short_packet_payload_len:
  assumes "headers_inside (data pkt)" "make_flow_item_tcp p pkt f = Ret a"
    and "unat (plength pkt) + 2 < 16 + ip_hdr_len (data pkt) + tcp_hdr_len (data pkt)"
  shows "2 ^ 31 \<le> unat (payload_len a)"
proof -
  let ?d = "data pkt"
  let ?h = "16 + ip_hdr_len ?d + tcp_hdr_len ?d"
  have a: "payload_len a = plength pkt - of_nat ?h + 2"
    using assms(2) unfolding make_flow_item_tcp_eq [OF assms(1)] by (auto simp: Let_def)
  have "unat (?d ! 16 AND 0xF) < 2 ^ 8" "unat (drop_bit 4 (?d ! (l4_at ?d + 12))) < 2 ^ 8"
    using unsigned_less [where 'a = nat and 'b = 8] by auto
  then have small: "?h < 4096" by (simp add: ip_hdr_len_def tcp_hdr_len_def)
  define n where "n = ?h - (unat (plength pkt) + 2)"
  have n: "0 < n" "n < 4096" "?h = unat (plength pkt) + 2 + n" using assms(3) small by (auto simp: n_def)
  have h: "(of_nat ?h :: u32) = plength pkt + 2 + of_nat n" unfolding n(3) by simp
  have e: "payload_len a = 0 - of_nat n" unfolding a h by simp
  have "unat (of_nat n :: u32) = n" using n(2) by (simp add: unat_of_nat_small)
  then have "unat (0 - (of_nat n :: u32)) = 2 ^ 32 - n" using n(1) by (simp only: unat_sub_if') simp
  then show ?thesis using n(2) unfolding e by simp
qed

section \<open>A batch of flows\<close>

lemma make_flows_result:
  assumes "length fs = length ps" "distinct fs" "\<forall>p\<in>set ps. headers_inside (data (packets w p))"
  shows "\<exists>w'. make_flows (zip fs ps) w = Ret w' \<and> packets w' = packets w
    \<and> packet_pools w' = packet_pools w \<and> flow_pools w' = flow_pools w
    \<and> (\<forall>k<length fs. make_flow_item_tcp (ps ! k) (packets w (ps ! k)) (flows w (fs ! k)) = Ret (flows w' (fs ! k)))
    \<and> (\<forall>f. f \<notin> set fs \<longrightarrow> flows w' f = flows w f)"
  using assms
proof (induction fs ps arbitrary: w rule: list_induct2)
  case (Cons f fs p ps)
  then obtain flow where flow: "make_flow_item_tcp p (packets w p) (flows w f) = Ret flow"
    by (auto simp: make_flow_item_tcp_eq Let_def)
  let ?w = "w\<lparr>flows := (flows w)(f := flow)\<rparr>"
  from Cons.IH [of ?w] Cons.prems obtain w' where w': "make_flows (zip fs ps) ?w = Ret w'"
    "packets w' = packets w" "packet_pools w' = packet_pools w" "flow_pools w' = flow_pools w"
    "\<forall>k<length fs. make_flow_item_tcp (ps ! k) (packets w (ps ! k)) (flows ?w (fs ! k)) = Ret (flows w' (fs ! k))"
    "\<forall>g. g \<notin> set fs \<longrightarrow> flows w' g = flows ?w g" by auto
  have "flows ?w (fs ! k) = flows w (fs ! k)" if "k < length fs" for k
    using that Cons.prems(1) by (auto simp: in_set_conv_nth)
  moreover have "flows w' f = flow" using w'(6) Cons.prems(1) by simp
  ultimately show ?case using flow w' by (auto simp: nth_Cons split: nat.split)
qed simp

section \<open>Handing the flows over\<close>

definition target :: "world \<Rightarrow> nat \<Rightarrow> nat \<Rightarrow> nat" where
  "target w n f = unat (hash_index (flows w f) (of_nat n))"

lemma target_less:
  assumes "0 < n" "n < 2 ^ 32"
  shows "target w n f < n"
proof -
  have u: "unat (of_nat n :: u32) = n" using assms by (simp add: unat_of_nat_small)
  then have "(of_nat n :: u32) \<noteq> 0" using assms(1) by (metis unat_0 less_irrefl)
  from MAKE_HASH_less [OF this] show ?thesis unfolding u target_def hash_index_def .
qed

lemma dispatch_result:
  assumes "ms \<noteq> []" "length ms \<le> length view" "length view < 2 ^ 32"
    and "\<forall>i<length ms. intel_inv LG2_CAPACITY (mqueue (ms ! i))
      \<and> length (intel_list LG2_CAPACITY (mqueue (ms ! i)))
        + length (filter (\<lambda>f. target w (length ms) f = i) fs) \<le> 2 ^ LG2_CAPACITY"
  shows "\<exists>ms' view'. dispatch fs w ms view = Ret (ms', view') \<and> length ms' = length ms
    \<and> length view' = length view
    \<and> (\<forall>i<length ms. \<exists>q. ms' ! i = (ms ! i)\<lparr>mqueue := q\<rparr> \<and> intel_inv LG2_CAPACITY q
         \<and> intel_list LG2_CAPACITY q = intel_list LG2_CAPACITY (mqueue (ms ! i))
             @ filter (\<lambda>f. target w (length ms) f = i) fs)
    \<and> (\<forall>i<length ms. view' ! i = view ! i + of_nat (length (filter (\<lambda>f. target w (length ms) f = i) fs)))"
  using assms
proof (induction fs arbitrary: ms view)
  case (Cons f fs)
  let ?t = "target w (length ms)" and ?x = "target w (length ms) f"
  have x: "?x < length ms" using Cons.prems(1-3) by (intro target_less) auto
  have h: "unat (hash_index (flows w f) (of_nat (length ms))) = ?x" by (simp add: target_def)
  have "length (intel_list LG2_CAPACITY (mqueue (ms ! ?x))) < 2 ^ LG2_CAPACITY"
    using Cons.prems(4) x by fastforce
  then obtain q where q: "intel_enqueue LG2_CAPACITY (mqueue (ms ! ?x)) f = Some q"
    "intel_inv LG2_CAPACITY q"
    "intel_list LG2_CAPACITY q = intel_list LG2_CAPACITY (mqueue (ms ! ?x)) @ [f]"
    using Cons.prems(4) x by (metis iq.enq_room)
  let ?ms = "ms[?x := (ms ! ?x)\<lparr>mqueue := q\<rparr>]" and ?view = "view[?x := view ! ?x + 1]"
  have at: "?ms ! i = (if i = ?x then (ms ! ?x)\<lparr>mqueue := q\<rparr> else ms ! i)"
    "?view ! i = (if i = ?x then view ! ?x + 1 else view ! i)" if "i < length ms" for i
    using x that Cons.prems(2) by (auto simp: nth_list_update)
  have step: "dispatch (f # fs) w ms view = dispatch fs w ?ms ?view"
    using Cons.prems(1,2) x by (simp add: h q(1) Let_def)
  have room: "\<forall>i<length ?ms. intel_inv LG2_CAPACITY (mqueue (?ms ! i))
      \<and> length (intel_list LG2_CAPACITY (mqueue (?ms ! i)))
        + length (filter (\<lambda>f. target w (length ?ms) f = i) fs) \<le> 2 ^ LG2_CAPACITY"
  proof (intro allI impI)
    fix i assume i: "i < length ?ms"
    then have "intel_inv LG2_CAPACITY (mqueue (ms ! i))
      \<and> length (intel_list LG2_CAPACITY (mqueue (ms ! i))) + length (filter (\<lambda>f. ?t f = i) (f # fs)) \<le> 2 ^ LG2_CAPACITY"
      using Cons.prems(4) by simp
    then show "intel_inv LG2_CAPACITY (mqueue (?ms ! i))
      \<and> length (intel_list LG2_CAPACITY (mqueue (?ms ! i)))
        + length (filter (\<lambda>f. target w (length ?ms) f = i) fs) \<le> 2 ^ LG2_CAPACITY"
      using i q(2,3) at(1) [of i] by (cases "i = ?x") (simp_all del: length_intel_list)
  qed
  from Cons.IH [OF _ _ _ room, of ?view] Cons.prems(1-3) obtain ms' view'
    where R: "dispatch fs w ?ms ?view = Ret (ms', view')" "length ms' = length ms" "length view' = length view"
      "\<forall>i<length ms. \<exists>q. ms' ! i = (?ms ! i)\<lparr>mqueue := q\<rparr> \<and> intel_inv LG2_CAPACITY q
         \<and> intel_list LG2_CAPACITY q = intel_list LG2_CAPACITY (mqueue (?ms ! i)) @ filter (\<lambda>f. ?t f = i) fs"
      "\<forall>i<length ms. view' ! i = ?view ! i + of_nat (length (filter (\<lambda>f. ?t f = i) fs))"
    by auto
  have "\<exists>q'. ms' ! i = (ms ! i)\<lparr>mqueue := q'\<rparr> \<and> intel_inv LG2_CAPACITY q'
      \<and> intel_list LG2_CAPACITY q' = intel_list LG2_CAPACITY (mqueue (ms ! i)) @ filter (\<lambda>f. ?t f = i) (f # fs)"
    if i: "i < length ms" for i
    using R(4) [rule_format, OF i] at(1) [OF i] q(3) by (cases "i = ?x") auto
  moreover have "view' ! i = view ! i + of_nat (length (filter (\<lambda>f. ?t f = i) (f # fs)))"
    if i: "i < length ms" for i
    using R(5) [rule_format, OF i] at(2) [OF i] by (cases "i = ?x") (auto simp: add.assoc)
  ultimately show ?case unfolding step using R(1-3) by blast
next
  case Nil
  have "\<exists>q. ms ! i = (ms ! i)\<lparr>mqueue := q\<rparr> \<and> intel_inv LG2_CAPACITY q
      \<and> intel_list LG2_CAPACITY q = intel_list LG2_CAPACITY (mqueue (ms ! i)) @ []" if "i < length ms" for i
    using Nil that by (intro exI [of _ "mqueue (ms ! i)"]) simp
  then show ?case by simp
qed

section \<open>A pass of the parser\<close>

text \<open>Batches of 64 can be taken from \<open>q\<close> (the 32-bit counter copy does not wrap).\<close>

definition has_batch :: "nat intel_queue \<Rightarrow> bool" where
  "has_batch q \<longleftrightarrow> intel_inv LG2_CAPACITY q \<and> COUNT \<le> length (intel_list LG2_CAPACITY q)
     \<and> unat (dequeue_count q) + COUNT < 2 ^ 32"

lemma take_batch:
  assumes "has_batch q"
  obtains q' where "intel_dequeue_multiple LG2_CAPACITY q (of_nat COUNT) = Some (take COUNT (intel_list LG2_CAPACITY q), q')"
    "intel_inv LG2_CAPACITY q'" "intel_list LG2_CAPACITY q' = drop COUNT (intel_list LG2_CAPACITY q)"
    "unat (dequeue_count q') = unat (dequeue_count q) + COUNT"
proof -
  have c: "unat (of_nat COUNT :: u32) = COUNT" by (simp add: COUNT_def)
  have b: "intel_inv LG2_CAPACITY q" "unat (dequeue_count q) < 2 ^ 32"
    "COUNT \<le> length (intel_list LG2_CAPACITY q)" "unat (dequeue_count q) + unat (of_nat COUNT :: u32) < 2 ^ 32"
    using assms unfolding has_batch_def c by auto
  have "unat (of_nat COUNT :: u32) \<le> length (intel_list LG2_CAPACITY q)" unfolding c by (rule b(3))
  from intel_dequeue_multiple_eq [OF LG2_CAPACITY_less b(1,2) this] obtain q'
    where q': "intel_dequeue_multiple LG2_CAPACITY q (of_nat COUNT) = Some (take COUNT (intel_list LG2_CAPACITY q), q')"
      and d: "dequeue_count q' = ucast (ucast (dequeue_count q) + of_nat COUNT :: u32)"
    unfolding c by simp
  have "unat (dequeue_count q') = unat (dequeue_count q) + COUNT"
    unfolding d using b(2,4) c by (simp add: unat_ucast_up unat_add_small unat_ucast_small)
  moreover
  from intel_dequeue_multiple_Some [OF LG2_CAPACITY_less b(1,4) q']
  have "intel_inv LG2_CAPACITY q'" "intel_list LG2_CAPACITY q = take COUNT (intel_list LG2_CAPACITY q) @ intel_list LG2_CAPACITY q'"
    by auto
  then have "intel_list LG2_CAPACITY q' = drop COUNT (intel_list LG2_CAPACITY q)"
    by (metis append_take_drop_id same_append_eq)
  ultimately show thesis using q' that \<open>intel_inv LG2_CAPACITY q'\<close> by blast
qed

lemma no_batch:
  assumes "intel_inv LG2_CAPACITY q" "unat (dequeue_count q) + COUNT < 2 ^ 32" "\<not> has_batch q"
  shows "intel_dequeue_multiple LG2_CAPACITY q (of_nat COUNT) = None"
proof -
  have "unat (of_nat COUNT :: u32) = COUNT" by (simp add: COUNT_def)
  then show ?thesis
    using intel_dequeue_multiple_None [OF LG2_CAPACITY_less assms(1), of "of_nat COUNT"] assms by (simp add: has_batch_def)
qed

text \<open>Handing over waits when some manager's queue has no room for what is meant for it.\<close>

lemma dispatch_waits:
  assumes "length ms \<le> length view" "length view < 2 ^ 32" "\<forall>j<length ms. intel_inv LG2_CAPACITY (mqueue (ms ! j))"
    and "i < length ms" "2 ^ LG2_CAPACITY < length (intel_list LG2_CAPACITY (mqueue (ms ! i)))
      + length (filter (\<lambda>f. target w (length ms) f = i) fs)"
  shows "dispatch fs w ms view = Spin"
  using assms
proof (induction fs arbitrary: ms view)
  case Nil
  then show ?case using iq.bounded [of "mqueue (ms ! i)"] by (simp del: length_intel_list)
next
  case (Cons f fs)
  let ?x = "target w (length ms) f"
  have x: "?x < length ms" using Cons.prems(1,2,4) by (intro target_less) auto
  have h: "unat (hash_index (flows w f) (of_nat (length ms))) = ?x" by (simp add: target_def)
  show ?case
  proof (cases "intel_enqueue LG2_CAPACITY (mqueue (ms ! ?x)) f")
    case None
    then show ?thesis using Cons.prems(1) x by (auto simp: h Let_def)
  next
    case (Some q)
    have q: "intel_inv LG2_CAPACITY q" "intel_list LG2_CAPACITY q = intel_list LG2_CAPACITY (mqueue (ms ! ?x)) @ [f]"
      using intel_enqueue_Some [OF LG2_CAPACITY_less _ Some] Cons.prems(3) x by auto
    let ?ms = "ms[?x := (ms ! ?x)\<lparr>mqueue := q\<rparr>]" and ?view = "view[?x := view ! ?x + 1]"
    have "dispatch fs w ?ms ?view = Spin"
      by (rule Cons.IH) (use Cons.prems q x in \<open>auto simp: nth_list_update simp del: length_intel_list\<close>)
    then show ?thesis using Cons.prems(1) x by (auto simp: h Let_def Some)
  qed
qed

text \<open>A pass that finds its batch: everything up to the handing over.\<close>

lemma parser_pass_decodes:
  assumes depth: "3 < pipe_depth cfg"
    and q: "has_batch (pqueue pr)" "has_batch (flow_pools w i)" "distinct (intel_list LG2_CAPACITY (flow_pools w i))"
  defines "ps \<equiv> take COUNT (intel_list LG2_CAPACITY (pqueue pr))"
    and "fs \<equiv> take COUNT (intel_list LG2_CAPACITY (flow_pools w i))"
  assumes hdr: "\<forall>p\<in>set ps. headers_inside (data (packets w p))"
  shows "\<exists>q1 q2 w2. parser_pass cfg i (pr, w, ms, view) = run_bind (dispatch fs w2 ms view) (\<lambda>(ms', view').
        Ret (pr\<lparr>p_alive := p_alive pr + 1, pqueue := q1\<rparr>, w2, ms', view'))
    \<and> intel_inv LG2_CAPACITY q1 \<and> intel_list LG2_CAPACITY q1 = drop COUNT (intel_list LG2_CAPACITY (pqueue pr))
    \<and> unat (dequeue_count q1) = unat (dequeue_count (pqueue pr)) + COUNT
    \<and> intel_inv LG2_CAPACITY q2 \<and> intel_list LG2_CAPACITY q2 = drop COUNT (intel_list LG2_CAPACITY (flow_pools w i))
    \<and> unat (dequeue_count q2) = unat (dequeue_count (flow_pools w i)) + COUNT
    \<and> packets w2 = packets w \<and> packet_pools w2 = packet_pools w \<and> flow_pools w2 = (flow_pools w)(i := q2)
    \<and> (\<forall>k<COUNT. make_flow_item_tcp (ps ! k) (packets w (ps ! k)) (flows w (fs ! k)) = Ret (flows w2 (fs ! k)))
    \<and> (\<forall>f. f \<notin> set fs \<longrightarrow> flows w2 f = flows w f)"
proof -
  obtain q1 where q1: "intel_dequeue_multiple LG2_CAPACITY (pqueue pr) (of_nat COUNT) = Some (ps, q1)"
    "intel_inv LG2_CAPACITY q1" "intel_list LG2_CAPACITY q1 = drop COUNT (intel_list LG2_CAPACITY (pqueue pr))"
    "unat (dequeue_count q1) = unat (dequeue_count (pqueue pr)) + COUNT"
    using take_batch [OF q(1)] unfolding ps_def by metis
  obtain q2 where q2: "intel_dequeue_multiple LG2_CAPACITY (flow_pools w i) (of_nat COUNT) = Some (fs, q2)"
    "intel_inv LG2_CAPACITY q2" "intel_list LG2_CAPACITY q2 = drop COUNT (intel_list LG2_CAPACITY (flow_pools w i))"
    "unat (dequeue_count q2) = unat (dequeue_count (flow_pools w i)) + COUNT"
    using take_batch [OF q(2)] unfolding fs_def by metis
  have len: "length ps = COUNT" "length fs = COUNT" "distinct fs"
    using q by (simp_all add: ps_def fs_def has_batch_def del: length_intel_list)
  let ?w1 = "w\<lparr>flow_pools := (flow_pools w)(i := q2)\<rparr>"
  obtain w2 where w2: "make_flows (zip fs ps) ?w1 = Ret w2" "packets w2 = packets w"
    "packet_pools w2 = packet_pools w" "flow_pools w2 = (flow_pools w)(i := q2)"
    "\<forall>k<COUNT. make_flow_item_tcp (ps ! k) (packets w (ps ! k)) (flows w (fs ! k)) = Ret (flows w2 (fs ! k))"
    "\<forall>f. f \<notin> set fs \<longrightarrow> flows w2 f = flows w f"
    using make_flows_result [of fs ps ?w1] hdr len by auto
  have "parser_pass cfg i (pr, w, ms, view) = run_bind (dispatch fs w2 ms view) (\<lambda>(ms', view').
      Ret (pr\<lparr>p_alive := p_alive pr + 1, pqueue := q1\<rparr>, w2, ms', view'))"
    using depth by (simp add: parser_pass_def q1(1) q2(1) w2(1))
  with q1 q2 w2 show ?thesis by blast
qed

lemma parser_pass_dispatches:
  assumes depth: "3 < pipe_depth cfg"
    and q: "has_batch (pqueue pr)" "has_batch (flow_pools w i)" "distinct (intel_list LG2_CAPACITY (flow_pools w i))"
    and ms: "ms \<noteq> []" "length ms \<le> length view" "length view < 2 ^ 32"
  defines "ps \<equiv> take COUNT (intel_list LG2_CAPACITY (pqueue pr))"
    and "fs \<equiv> take COUNT (intel_list LG2_CAPACITY (flow_pools w i))"
  assumes hdr: "\<forall>p\<in>set ps. headers_inside (data (packets w p))"
    and room: "\<forall>m\<in>set ms. intel_inv LG2_CAPACITY (mqueue m)
      \<and> length (intel_list LG2_CAPACITY (mqueue m)) + COUNT \<le> 2 ^ LG2_CAPACITY"
  shows "\<exists>pr' w' ms' view'. parser_pass cfg i (pr, w, ms, view) = Ret (pr', w', ms', view')
    \<and> intel_list LG2_CAPACITY (pqueue pr') = drop COUNT (intel_list LG2_CAPACITY (pqueue pr))
    \<and> intel_list LG2_CAPACITY (flow_pools w' i) = drop COUNT (intel_list LG2_CAPACITY (flow_pools w i))
    \<and> intel_inv LG2_CAPACITY (flow_pools w' i) \<and> packets w' = packets w \<and> packet_pools w' = packet_pools w
    \<and> (\<forall>k<COUNT. make_flow_item_tcp (ps ! k) (packets w (ps ! k)) (flows w (fs ! k)) = Ret (flows w' (fs ! k)))
    \<and> length ms' = length ms
    \<and> (\<forall>j<length ms. \<exists>q. ms' ! j = (ms ! j)\<lparr>mqueue := q\<rparr> \<and> intel_inv LG2_CAPACITY q
         \<and> intel_list LG2_CAPACITY q = intel_list LG2_CAPACITY (mqueue (ms ! j))
             @ filter (\<lambda>f. target w' (length ms) f = j) fs)"
proof -
  obtain q1 q2 w2 where P: "parser_pass cfg i (pr, w, ms, view) = run_bind (dispatch fs w2 ms view) (\<lambda>(ms', view').
        Ret (pr\<lparr>p_alive := p_alive pr + 1, pqueue := q1\<rparr>, w2, ms', view'))"
    "intel_list LG2_CAPACITY q1 = drop COUNT (intel_list LG2_CAPACITY (pqueue pr))"
    "intel_inv LG2_CAPACITY q2" "intel_list LG2_CAPACITY q2 = drop COUNT (intel_list LG2_CAPACITY (flow_pools w i))"
    "packets w2 = packets w" "packet_pools w2 = packet_pools w" "flow_pools w2 = (flow_pools w)(i := q2)"
    "\<forall>k<COUNT. make_flow_item_tcp (ps ! k) (packets w (ps ! k)) (flows w (fs ! k)) = Ret (flows w2 (fs ! k))"
    using parser_pass_decodes [OF depth q hdr [unfolded ps_def], of ms view] unfolding ps_def fs_def by blast
  have "length fs \<le> COUNT" by (simp add: fs_def)
  then have "length (filter P fs) \<le> COUNT" for P using length_filter_le order_trans by blast
  then have "\<forall>j<length ms. intel_inv LG2_CAPACITY (mqueue (ms ! j))
      \<and> length (intel_list LG2_CAPACITY (mqueue (ms ! j)))
        + length (filter (\<lambda>f. target w2 (length ms) f = j) fs) \<le> 2 ^ LG2_CAPACITY"
    using room nth_mem by (metis add_left_mono order_trans)
  from dispatch_result [OF ms this] obtain ms' view' where D: "dispatch fs w2 ms view = Ret (ms', view')"
    "length ms' = length ms"
    "\<forall>j<length ms. \<exists>q. ms' ! j = (ms ! j)\<lparr>mqueue := q\<rparr> \<and> intel_inv LG2_CAPACITY q
       \<and> intel_list LG2_CAPACITY q = intel_list LG2_CAPACITY (mqueue (ms ! j))
           @ filter (\<lambda>f. target w2 (length ms) f = j) fs" by blast
  let ?pr = "pr\<lparr>p_alive := p_alive pr + 1, pqueue := q1\<rparr>"
  have "parser_pass cfg i (pr, w, ms, view) = Ret (?pr, w2, ms', view')" by (simp add: P(1) D(1))
  then show ?thesis using P D by (intro exI [of _ ?pr] exI [of _ w2] exI) auto
qed

section \<open>Initialisation\<close>

lemma fill_flow_pool_result:
  assumes "intel_inv LG2_CAPACITY (flow_pools w i)" "intel_list LG2_CAPACITY (flow_pools w i) = []"
    and "n \<le> 2 ^ LG2_CAPACITY"
  shows "intel_inv LG2_CAPACITY (flow_pools (fill_flow_pool i base n w) i)
    \<and> intel_list LG2_CAPACITY (flow_pools (fill_flow_pool i base n w) i) = [base..<base + n]
    \<and> dequeue_count (flow_pools (fill_flow_pool i base n w) i) = dequeue_count (flow_pools w i)
    \<and> (\<forall>j<n. fpool (flows (fill_flow_pool i base n w) (base + j)) = i)
    \<and> (\<forall>k. k \<noteq> i \<longrightarrow> flow_pools (fill_flow_pool i base n w) k = flow_pools w k)
    \<and> (\<forall>f. f < base \<longrightarrow> flows (fill_flow_pool i base n w) f = flows w f)
    \<and> packets (fill_flow_pool i base n w) = packets w"
  using assms(3)
proof (induction n)
  case (Suc n)
  let ?w = "fill_flow_pool i base n w"
  have IH: "intel_inv LG2_CAPACITY (flow_pools ?w i)" "intel_list LG2_CAPACITY (flow_pools ?w i) = [base..<base + n]"
    using Suc by auto
  have "length (intel_list LG2_CAPACITY (flow_pools ?w i)) < 2 ^ LG2_CAPACITY" unfolding IH(2) using Suc.prems by simp
  then obtain q where q: "intel_enqueue LG2_CAPACITY (flow_pools ?w i) (base + n) = Some q"
    "intel_inv LG2_CAPACITY q" "intel_list LG2_CAPACITY q = intel_list LG2_CAPACITY (flow_pools ?w i) @ [base + n]"
    by (rule iq.enq_room [OF IH(1)])
  let ?w' = "?w\<lparr>flows := (flows ?w)(base + n := (flows ?w (base + n))\<lparr>fpool := i\<rparr>),
      flow_pools := (flow_pools ?w)(i := q)\<rparr>"
  have w': "fill_flow_pool i base (Suc n) w = ?w'" by (simp add: Let_def q(1))
  have l: "[base..<base + n] @ [base + n] = [base..<base + Suc n]" by simp
  have IHs: "\<forall>j<n. fpool (flows ?w (base + j)) = i" "\<forall>k. k \<noteq> i \<longrightarrow> flow_pools ?w k = flow_pools w k"
    "packets ?w = packets w" "\<forall>f. f < base \<longrightarrow> flows ?w f = flows w f"
    "dequeue_count (flow_pools ?w i) = dequeue_count (flow_pools w i)" using Suc by auto
  have "fpool (flows ?w' (base + j)) = i" if "j < Suc n" for j
    using IHs(1) that by (cases "j = n") auto
  moreover have "flow_pools ?w' k = flow_pools w k" if "k \<noteq> i" for k using IHs(2) that by simp
  moreover have "intel_list LG2_CAPACITY q = [base..<base + Suc n]" unfolding q(3) IH(2) by (rule l)
  moreover have "flows ?w' f = flows w f" if "f < base" for f using IHs(4) that by simp
  ultimately show ?case unfolding w' using q(2) IHs(3,5) intel_enqueue_dequeue_count [OF q(1)] by simp
qed (use assms in simp)

lemma init_single_parser_ok:
  assumes "length junk = 2 ^ LG2_CAPACITY" "init_single_parser null junk base i (pr, w) = (pr', w')"
  shows "intel_inv LG2_CAPACITY (pqueue pr') \<and> intel_list LG2_CAPACITY (pqueue pr') = []
    \<and> intel_inv LG2_CAPACITY (flow_pools w' i) \<and> intel_list LG2_CAPACITY (flow_pools w' i) = [base..<base + 1024]
    \<and> (\<forall>j<1024. fpool (flows w' (base + j)) = i)
    \<and> (\<forall>k. k \<noteq> i \<longrightarrow> flow_pools w' k = flow_pools w k) \<and> (\<forall>f. f < base \<longrightarrow> flows w' f = flows w f)
    \<and> dequeue_count (pqueue pr') = 0 \<and> dequeue_count (flow_pools w' i) = 0"
proof -
  have I: "intel_inv LG2_CAPACITY (intel_init LG2_CAPACITY null junk)
      \<and> intel_list LG2_CAPACITY (intel_init LG2_CAPACITY null junk) = []"
    by (rule intel_init_inv) (simp_all add: LG2_CAPACITY_def assms(1) [unfolded LG2_CAPACITY_def])
  let ?w = "w\<lparr>flow_pools := (flow_pools w)(i := intel_init LG2_CAPACITY null junk)\<rparr>"
  have n: "1024 \<le> (2::nat) ^ LG2_CAPACITY" by (simp add: LG2_CAPACITY_def)
  have "intel_inv LG2_CAPACITY (flow_pools ?w i)" "intel_list LG2_CAPACITY (flow_pools ?w i) = []"
    using I by simp_all
  note F = fill_flow_pool_result [OF this n, of base]
  have e: "pqueue pr' = intel_init LG2_CAPACITY null junk" "w' = fill_flow_pool i base 1024 ?w"
    using assms(2) unfolding init_single_parser_def Let_def prod.case prod.inject by auto
  have d: "dequeue_count (intel_init LG2_CAPACITY null junk) = 0" by (simp add: intel_init_def Let_def)
  then have "dequeue_count (flow_pools ?w i) = 0" by simp
  moreover have "\<forall>k. k \<noteq> i \<longrightarrow> flow_pools ?w k = flow_pools w k" "flows ?w = flows w" by simp_all
  ultimately show ?thesis using F I d unfolding e by metis
qed

text \<open>Every parser starts with an empty queue and a pool of 1024 flows of its own.\<close>

definition parser_fresh :: "world \<Rightarrow> nat \<Rightarrow> parser \<Rightarrow> bool" where
  "parser_fresh w i pr \<longleftrightarrow> intel_inv LG2_CAPACITY (pqueue pr) \<and> intel_list LG2_CAPACITY (pqueue pr) = []
     \<and> intel_inv LG2_CAPACITY (flow_pools w i) \<and> intel_list LG2_CAPACITY (flow_pools w i) = [1024 * i..<1024 * i + 1024]
     \<and> (\<forall>j<1024. fpool (flows w (1024 * i + j)) = i)
     \<and> dequeue_count (pqueue pr) = 0 \<and> dequeue_count (flow_pools w i) = 0"

lemma init_parsers_fresh:
  assumes "length junk = 2 ^ LG2_CAPACITY" "init_parsers null junk pr0 n ([], w) = (prs, w')"
  shows "length prs = n \<and> (\<forall>i<n. parser_fresh w' i (prs ! i))"
  using assms(2)
proof (induction n arbitrary: prs w')
  case (Suc n)
  obtain prs1 w1 where p: "init_parsers null junk pr0 n ([], w) = (prs1, w1)" by (metis prod.exhaust)
  obtain pr w2 where q: "init_single_parser null junk (1024 * n) n (pr0, w1) = (pr, w2)" by (metis prod.exhaust)
  have e: "prs = prs1 @ [pr]" "w' = w2" using Suc.prems by (simp_all add: p q)
  note IH = Suc.IH [OF p] and S = init_single_parser_ok [OF assms(1) q]
  have "parser_fresh w' i (prs1 ! i)" if "i < n" for i
  proof -
    have "1024 * i + j < 1024 * n" if "j < 1024" for j using \<open>i < n\<close> that by linarith
    then show ?thesis using IH S that unfolding parser_fresh_def e(2) by (metis less_irrefl)
  qed
  moreover have "parser_fresh w' n pr" using S unfolding parser_fresh_def e(2) by blast
  ultimately show ?case using IH unfolding e(1) by (auto simp: nth_append less_Suc_eq)
qed simp

section \<open>Concrete packets\<close>

text \<open>A TCP packet of 58 bytes (two bytes of padding, 14 Ethernet, 20 IP, 20 TCP, 2 of payload) with
  addresses \<open>10.0.0.s\<close> and \<open>10.0.0.d\<close> and the low bytes of its ports.\<close>

definition demo_bytes :: "u8 \<Rightarrow> u8 \<Rightarrow> u8 \<Rightarrow> u8 \<Rightarrow> u8 list" where
  "demo_bytes s sp d dp =
     [0, 0, 1, 1, 1, 1, 1, 1, 2, 2, 2, 2, 2, 2, 8, 0,
      0x45, 0, 0, 42, 0, 0, 0, 0, 64, 6, 0, 0, 10, 0, 0, s, 10, 0, 0, d,
      0, sp, 0, dp, 0, 0, 0, 0, 0, 0, 0, 0, 0x50, 0, 0, 0, 0, 0, 0, 0, 7, 8]"

lemma demo_bytes_fields:
  "headers_inside (demo_bytes s sp d dp)" "ip_hdr_len (demo_bytes s sp d dp) = 20"
  "tcp_hdr_len (demo_bytes s sp d dp) = 20" "l4_at (demo_bytes s sp d dp) = 36"
  "src_ip (demo_bytes s sp d dp) = le32 [10, 0, 0, s]" "dst_ip (demo_bytes s sp d dp) = le32 [10, 0, 0, d]"
  "src_port (demo_bytes s sp d dp) = le16 [0, sp]" "dst_port (demo_bytes s sp d dp) = le16 [0, dp]"
  by (simp_all add: headers_inside_def l4_at_def ip_hdr_len_def tcp_hdr_len_def src_ip_def dst_ip_def
      src_port_def dst_port_def demo_bytes_def)

lemma length_demo_bytes: "length (demo_bytes s sp d dp) = 58"
  by (simp add: demo_bytes_def)

definition demo_packet :: "u8 \<Rightarrow> u8 \<Rightarrow> u8 \<Rightarrow> u8 \<Rightarrow> packet" where
  "demo_packet s sp d dp = \<lparr>data = demo_bytes s sp d dp, plength = 56, ppool = 0\<rparr>"

definition no_flow :: flow_item where
  "no_flow = \<lparr>upper_ip = 0, lower_ip = 0, upper_port = 0, lower_port = 0, protocol = 0, fpacket = 0,
     payload = (0, 0), payload_len = 0, fpool = 0\<rparr>"

lemma demo_decodes: "\<exists>a. make_flow_item_tcp i (demo_packet s sp d dp) f = Ret a"
  using make_flow_item_tcp_eq [of "demo_packet s sp d dp" i f]
  by (simp add: demo_packet_def demo_bytes_fields(1) Let_def)

section \<open>Properties\<close>

text \<open>C12. Two decoded packets belong to the same session exactly when their two addresses are the same
  pair, their two ports are the same pair, and the protocol is the same, whatever the direction;
  packets of one session always go to the same manager.\<close>

theorem same_session_iff:
  assumes "headers_inside (data p)" "headers_inside (data q)"
    and "make_flow_item_tcp i p f = Ret a" "make_flow_item_tcp j q g = Ret b"
  shows "(flow_key a = flow_key b) =
     ({src_ip (data p), dst_ip (data p)} = {src_ip (data q), dst_ip (data q)}
      \<and> {src_port (data p), dst_port (data p)} = {src_port (data q), dst_port (data q)}
      \<and> data p ! 25 = data q ! 25)
   \<and> (flow_key a \<noteq> flow_key b \<or> hash_index a n = hash_index b n)"
  using decoded_key_iff [OF assms] hash_index_cong [of a b n] by blast

theorem same_session_iff_witness:
  "\<exists>a b. make_flow_item_tcp 0 (demo_packet 1 11 2 22) no_flow = Ret a
     \<and> make_flow_item_tcp 1 (demo_packet 2 22 1 11) no_flow = Ret b \<and> flow_key a = flow_key b"
proof -
  obtain a b where ab: "make_flow_item_tcp 0 (demo_packet 1 11 2 22) no_flow = Ret a"
    "make_flow_item_tcp 1 (demo_packet 2 22 1 11) no_flow = Ret b" using demo_decodes by metis
  from same_session_iff [OF _ _ ab, of 0] have "flow_key a = flow_key b"
    by (simp add: demo_packet_def demo_bytes_fields insert_commute) (simp add: demo_bytes_def)
  with ab show ?thesis by blast
qed

text \<open>Addresses and ports are ordered independently of each other, so two different connections
  between the same hosts are merged into one session when their ports are crossed: from port 11 of
  host 1 to port 22 of host 2, and from port 22 of host 1 to port 11 of host 2.\<close>

theorem crossed_connections_merge:
  "\<exists>a b. make_flow_item_tcp 0 (demo_packet 1 11 2 22) no_flow = Ret a
     \<and> make_flow_item_tcp 1 (demo_packet 1 22 2 11) no_flow = Ret b
     \<and> flow_key a = flow_key b
     \<and> src_ip (demo_bytes 1 11 2 22) = src_ip (demo_bytes 1 22 2 11)
     \<and> src_port (demo_bytes 1 11 2 22) \<noteq> src_port (demo_bytes 1 22 2 11)
     \<and> src_ip (demo_bytes 1 11 2 22) \<noteq> dst_ip (demo_bytes 1 11 2 22)"
proof -
  obtain a b where ab: "make_flow_item_tcp 0 (demo_packet 1 11 2 22) no_flow = Ret a"
    "make_flow_item_tcp 1 (demo_packet 1 22 2 11) no_flow = Ret b" using demo_decodes by metis
  from decoded_key_iff [OF _ _ ab] have "flow_key a = flow_key b"
    by (simp add: demo_packet_def demo_bytes_fields insert_commute) (simp add: demo_bytes_def)
  moreover have "le16 [0, 11] \<noteq> le16 [0, 22]" "le32 [10, 0, 0, 1] \<noteq> le32 [10, 0, 0, 2]"
    by (simp_all add: le16_def le32_def)
  ultimately show ?thesis using ab by (simp add: demo_bytes_fields)
qed

text \<open>The payload of a decoded packet is exactly what follows the three headers, up to the length of
  the packet, and lies inside the packet's buffer.\<close>

theorem decoded_payload_exact:
  assumes "headers_inside (data (packets w p))" "make_flow_item_tcp p (packets w p) f = Ret a"
    and "16 + ip_hdr_len (data (packets w p)) + tcp_hdr_len (data (packets w p)) \<le> unat (plength (packets w p)) + 2"
    and "unat (plength (packets w p)) + 2 \<le> length (data (packets w p))"
    and "unat (plength (packets w p)) + 2 < 2 ^ 32"
  shows "payload_inside w a \<and> flow_bytes w a =
     drop (16 + ip_hdr_len (data (packets w p)) + tcp_hdr_len (data (packets w p)))
       (take (unat (plength (packets w p)) + 2) (data (packets w p)))"
  using assms by (rule decoded_payload)

definition one_packet_world :: world where
  "one_packet_world = \<lparr>packets = \<lambda>_. demo_packet 1 11 2 22, flows = \<lambda>_. no_flow,
     packet_pools = \<lambda>_. intel_init LG2_CAPACITY 0 [], flow_pools = \<lambda>_. intel_init LG2_CAPACITY 0 []\<rparr>"

theorem decoded_payload_exact_witness:
  "\<exists>a. make_flow_item_tcp 0 (demo_packet 1 11 2 22) no_flow = Ret a \<and> flow_bytes one_packet_world a = [7, 8]"
proof -
  obtain a where a: "make_flow_item_tcp 0 (demo_packet 1 11 2 22) no_flow = Ret a" using demo_decodes by blast
  have w: "packets one_packet_world 0 = demo_packet 1 11 2 22" by (simp add: one_packet_world_def)
  have "payload_inside one_packet_world a \<and> flow_bytes one_packet_world a = drop 56 (take 58 (demo_bytes 1 11 2 22))"
    using decoded_payload_exact [of one_packet_world 0 no_flow a] a demo_bytes_fields(1) [of 1 11 2 22]
    by (simp add: w demo_packet_def demo_bytes_fields(2,3) length_demo_bytes)
  then have "flow_bytes one_packet_world a = [7, 8]" by (simp add: demo_bytes_def)
  with a show ?thesis by blast
qed

text \<open>A packet whose length is smaller than its headers is not rejected: its payload length wraps to
  more than \<open>2 ^ 31\<close> bytes.\<close>

theorem short_packet_wraps:
  assumes "headers_inside (data pkt)" "make_flow_item_tcp p pkt f = Ret a"
    and "unat (plength pkt) + 2 < 16 + ip_hdr_len (data pkt) + tcp_hdr_len (data pkt)"
  shows "2 ^ 31 \<le> unat (payload_len a)"
  using assms by (rule short_packet_payload_len)

theorem short_packet_wraps_witness:
  "\<exists>a. make_flow_item_tcp 0 ((demo_packet 1 11 2 22)\<lparr>plength := 40\<rparr>) no_flow = Ret a
     \<and> 2 ^ 31 \<le> unat (payload_len a)"
proof -
  let ?p = "(demo_packet 1 11 2 22)\<lparr>plength := 40\<rparr>"
  have d: "data ?p = demo_bytes 1 11 2 22" by (simp add: demo_packet_def)
  obtain a where a: "make_flow_item_tcp 0 ?p no_flow = Ret a"
    using make_flow_item_tcp_eq [of ?p 0 no_flow] unfolding d Let_def by (simp add: demo_bytes_fields(1))
  have "headers_inside (data ?p)" unfolding d by (rule demo_bytes_fields(1))
  from short_packet_wraps [OF this a] have "2 ^ 31 \<le> unat (payload_len a)"
    unfolding d demo_bytes_fields(2,3) by simp
  with a show ?thesis by blast
qed

text \<open>C13. One pass of a parser at full pipeline depth, with 64 packets queued, 64 free flows and room in
  the managers' queues: the packets are taken in order, the \<open>k\<close>-th flow taken from the pool becomes
  the decoding of the \<open>k\<close>-th packet, and every manager receives, behind what its queue held and in
  order, exactly the flows that hash to it; the tables of the managers and the packets are
  untouched.\<close>

theorem parser_distributes:
  assumes "3 < pipe_depth cfg"
    and "has_batch (pqueue pr)" "has_batch (flow_pools w i)" "distinct (intel_list LG2_CAPACITY (flow_pools w i))"
    and "ms \<noteq> []" "length ms \<le> length view" "length view < 2 ^ 32"
    and "\<forall>p\<in>set (take COUNT (intel_list LG2_CAPACITY (pqueue pr))). headers_inside (data (packets w p))"
    and "\<forall>m\<in>set ms. intel_inv LG2_CAPACITY (mqueue m)
      \<and> length (intel_list LG2_CAPACITY (mqueue m)) + COUNT \<le> 2 ^ LG2_CAPACITY"
  shows "\<exists>pr' w' ms' view'. parser_pass cfg i (pr, w, ms, view) = Ret (pr', w', ms', view')
    \<and> intel_list LG2_CAPACITY (pqueue pr') = drop COUNT (intel_list LG2_CAPACITY (pqueue pr))
    \<and> intel_list LG2_CAPACITY (flow_pools w' i) = drop COUNT (intel_list LG2_CAPACITY (flow_pools w i))
    \<and> packets w' = packets w \<and> packet_pools w' = packet_pools w
    \<and> (\<forall>k<COUNT. make_flow_item_tcp (intel_list LG2_CAPACITY (pqueue pr) ! k)
          (packets w (intel_list LG2_CAPACITY (pqueue pr) ! k))
          (flows w (intel_list LG2_CAPACITY (flow_pools w i) ! k))
        = Ret (flows w' (intel_list LG2_CAPACITY (flow_pools w i) ! k)))
    \<and> length ms' = length ms
    \<and> (\<forall>j<length ms. \<exists>q. ms' ! j = (ms ! j)\<lparr>mqueue := q\<rparr> \<and> intel_inv LG2_CAPACITY q
         \<and> intel_list LG2_CAPACITY q = intel_list LG2_CAPACITY (mqueue (ms ! j))
             @ filter (\<lambda>f. target w' (length ms) f = j) (take COUNT (intel_list LG2_CAPACITY (flow_pools w i))))"
proof -
  have "take COUNT xs ! k = xs ! k" if "k < COUNT" for xs :: "nat list" and k using that by simp
  then show ?thesis using parser_pass_dispatches [OF assms] by (elim exE conjE) (intro exI conjI; simp)
qed

text \<open>A queue of capacity 1024 that holds \<open>0, \<dots>, 63\<close>.\<close>

definition demo_queue :: "nat intel_queue" where
  "demo_queue = \<lparr>enqueue_count = 64, dequeue_count = 0, node = [0..<2 ^ LG2_CAPACITY], item_size = 8,
     total = 1024, qlength = 64\<rparr>"

lemma ring_slice_upt: "n \<le> N \<Longrightarrow> ring_slice [0..<N] 0 n = [0..<n]"
  by (auto simp: ring_slice_def intro!: nth_equalityI)

lemma demo_queue_list: "intel_list LG2_CAPACITY demo_queue = [0..<64]"
  using ring_slice_upt [of 64 "2 ^ LG2_CAPACITY"]
  by (simp add: intel_list_def demo_queue_def LG2_CAPACITY_def del: upt_rec_numeral)

lemma demo_queue_batch: "has_batch demo_queue" "distinct (intel_list LG2_CAPACITY demo_queue)"
proof -
  have "intel_inv LG2_CAPACITY demo_queue"
    by (simp add: intel_inv_def demo_queue_def LG2_CAPACITY_def del: upt_rec_numeral)
  then show "has_batch demo_queue"
    unfolding has_batch_def demo_queue_list by (simp add: COUNT_def demo_queue_def)
  show "distinct (intel_list LG2_CAPACITY demo_queue)" unfolding demo_queue_list by (rule distinct_upt)
qed

definition demo_parser :: parser where
  "demo_parser = \<lparr>p_total = 0, pqueue = demo_queue, p_alive = 0, p_drop_cause_pool_empty = 0,
     p_drop_cause_no_payload = 0, p_drop_cause_unsupport_protocol = 0\<rparr>"

theorem parser_distributes_witness:
  "\<exists>pr' w' ms' view'. parser_pass demo_cfg 0
      (demo_parser, one_packet_world\<lparr>flow_pools := \<lambda>_. demo_queue\<rparr>,
       [demo_manager\<lparr>mqueue := intel_init LG2_CAPACITY 0 (replicate (2 ^ LG2_CAPACITY) 0)\<rparr>], replicate 36 0)
      = Ret (pr', w', ms', view') \<and> intel_list LG2_CAPACITY (pqueue pr') = []"
proof -
  let ?w = "one_packet_world\<lparr>flow_pools := \<lambda>_. demo_queue\<rparr>"
  let ?m = "demo_manager\<lparr>mqueue := intel_init LG2_CAPACITY 0 (replicate (2 ^ LG2_CAPACITY) 0)\<rparr>"
  have q: "pqueue demo_parser = demo_queue" "flow_pools ?w 0 = demo_queue" by (simp_all add: demo_parser_def)
  have hb: "has_batch (pqueue demo_parser)" "has_batch (flow_pools ?w 0)"
    "distinct (intel_list LG2_CAPACITY (flow_pools ?w 0))"
    unfolding q by (rule demo_queue_batch)+
  have h: "headers_inside (data (packets ?w p))" for p
    by (simp add: one_packet_world_def demo_packet_def demo_bytes_fields(1))
  have "intel_inv LG2_CAPACITY (mqueue ?m) \<and> intel_list LG2_CAPACITY (mqueue ?m) = []"
    using intel_init_inv [of LG2_CAPACITY "replicate (2 ^ LG2_CAPACITY) 0" "0::nat"]
    by (simp add: LG2_CAPACITY_def)
  then have m: "intel_inv LG2_CAPACITY (mqueue ?m)
      \<and> length (intel_list LG2_CAPACITY (mqueue ?m)) + COUNT \<le> 2 ^ LG2_CAPACITY"
    by (simp add: COUNT_def LG2_CAPACITY_def del: length_intel_list)
  have "\<exists>pr' w' ms' view'. parser_pass demo_cfg 0 (demo_parser, ?w, [?m], replicate 36 0) = Ret (pr', w', ms', view')
      \<and> intel_list LG2_CAPACITY (pqueue pr') = drop COUNT (intel_list LG2_CAPACITY (pqueue demo_parser))"
    using parser_distributes [OF _ hb, of demo_cfg "[?m]" "replicate 36 0"] h m by (auto simp del: length_intel_list)
  then show ?thesis unfolding q demo_queue_list by (simp add: COUNT_def)
qed

end
