(* ===== verification/Packet_Build.thy ===== *)
theory Packet_Build
  imports Packet_Parser
begin

unbundle bit_operations_syntax

text \<open>
  The part of \<^verbatim>\<open>src/packet_generator.c\<close> that builds a packet: the addresses and ports that run
  through their ranges, the payload, and the three headers, written into the buffer of a packet.
  Every function takes the buffer and the offset the code's pointer has in it; \<^verbatim>\<open>config\<close> is threaded
  through, since the macros update it.
\<close>

section \<open>Running through the ranges\<close>

definition GET_NEXT_SRCIP :: "sim_config \<Rightarrow> u32 \<times> sim_config" where
  "GET_NEXT_SRCIP config =
     (if saddr_cur config = saddr_max config
      then (saddr_min config, config\<lparr>saddr_cur := saddr_min config\<rparr>)
      else (saddr_cur config + 1, config\<lparr>saddr_cur := saddr_cur config + 1\<rparr>))"

definition GET_NEXT_DSTIP :: "sim_config \<Rightarrow> u32 \<times> sim_config" where
  "GET_NEXT_DSTIP config =
     (if daddr_cur config = daddr_max config
      then (daddr_min config, config\<lparr>daddr_cur := daddr_min config\<rparr>)
      else (daddr_cur config + 1, config\<lparr>daddr_cur := daddr_cur config + 1\<rparr>))"

definition GET_NEXT_SRCPORT :: "sim_config \<Rightarrow> u32 \<times> sim_config" where
  "GET_NEXT_SRCPORT config =
     (if sport_cur config = sport_max config
      then (sport_min config, config\<lparr>sport_cur := sport_min config\<rparr>)
      else (sport_cur config + 1, config\<lparr>sport_cur := sport_cur config + 1\<rparr>))"

definition GET_NEXT_DSTPORT :: "sim_config \<Rightarrow> u32 \<times> sim_config" where
  "GET_NEXT_DSTPORT config =
     (if dport_cur config = dport_max config
      then (dport_min config, config\<lparr>dport_cur := dport_min config\<rparr>)
      else (dport_cur config + 1, config\<lparr>dport_cur := dport_cur config + 1\<rparr>))"

text \<open>The inline functions with the same names in lower case; the ports are cut to 16 bits.\<close>

definition get_next_srcip :: "sim_config \<Rightarrow> u32 \<times> sim_config" where
  "get_next_srcip config =
     (if saddr_cur config = saddr_max config
      then (saddr_min config, config\<lparr>saddr_cur := saddr_min config\<rparr>)
      else (saddr_cur config + 1, config\<lparr>saddr_cur := saddr_cur config + 1\<rparr>))"

definition get_next_dstip :: "sim_config \<Rightarrow> u32 \<times> sim_config" where
  "get_next_dstip config =
     (if daddr_cur config = daddr_max config
      then (daddr_min config, config\<lparr>daddr_cur := daddr_min config\<rparr>)
      else (daddr_cur config + 1, config\<lparr>daddr_cur := daddr_cur config + 1\<rparr>))"

definition get_next_srcport :: "sim_config \<Rightarrow> u16 \<times> sim_config" where
  "get_next_srcport config =
     (if sport_cur config = sport_max config
      then (ucast (sport_min config), config\<lparr>sport_cur := sport_min config\<rparr>)
      else (ucast (sport_cur config + 1), config\<lparr>sport_cur := sport_cur config + 1\<rparr>))"

definition get_next_dstport :: "sim_config \<Rightarrow> u16 \<times> sim_config" where
  "get_next_dstport config =
     (if dport_cur config = dport_max config
      then (ucast (dport_min config), config\<lparr>dport_cur := dport_min config\<rparr>)
      else (ucast (dport_cur config + 1), config\<lparr>dport_cur := dport_cur config + 1\<rparr>))"

section \<open>Payload\<close>

text \<open>\<^verbatim>\<open>memcpy(payload + start, data, n)\<close> with an \<^verbatim>\<open>int\<close> length: a negative one is a huge \<^verbatim>\<open>size_t\<close>.\<close>

definition copy_text :: "u8 list \<Rightarrow> nat \<Rightarrow> u8 list \<Rightarrow> int \<Rightarrow> u8 list run" where
  "copy_text d at str n = (if n < 0 \<or> length str < nat n then Fault else put_bytes d at (take (nat n) str))"

text \<open>The \<^verbatim>\<open>while (j > i)\<close> loop and the copy after it. With an empty text the loop changes nothing and
  never ends.\<close>

function payload_loop :: "u8 list \<Rightarrow> nat \<Rightarrow> int \<Rightarrow> u8 list \<Rightarrow> u8 list run" where
  "payload_loop d at j str =
     (if int (length str) < j
      then if str = [] then Spin
           else run_bind (copy_text d at str (int (length str))) (\<lambda>d'.
                payload_loop d' (at + length str) (j - int (length str)) str)
      else copy_text d at str j)"
  by pat_completeness auto

termination payload_loop
  by (relation "measure (\<lambda>(d, at, j, str). nat j)") auto

declare payload_loop.simps [simp del]

definition pop_payload :: "u8 list \<Rightarrow> nat \<Rightarrow> u8 list option \<Rightarrow> sim_config \<Rightarrow> u8 list run" where
  "pop_payload d at str config =
     (case str of None \<Rightarrow> Fault
      | Some t \<Rightarrow>
          let i = int (length t); j = pktlen config - 54
          in run_bind (if i > j then copy_text d at t j else Ret d) (\<lambda>d'. payload_loop d' at j t))"

section \<open>Headers\<close>

definition pop_transmission_tcp :: "u8 list \<Rightarrow> nat \<Rightarrow> sim_config \<Rightarrow> (u8 list \<times> sim_config) run" where
  "pop_transmission_tcp d at config =
     (let (sp, c1) = GET_NEXT_SRCPORT config
      in run_bind (store16 d at (htons (ucast sp))) (\<lambda>d1.
         let (dp, c2) = GET_NEXT_DSTPORT c1
         in run_bind (store16 d1 (at + 2) (htons (ucast dp))) (\<lambda>d2.
            run_bind (load8 d2 (at + 12)) (\<lambda>b.
            run_bind (store8 d2 (at + 12) ((b AND 0x0F) OR push_bit 4 5)) (\<lambda>d3.
            Ret (d3, c2))))))"

definition pop_transmission_udp :: "u8 list \<Rightarrow> nat \<Rightarrow> sim_config \<Rightarrow> (u8 list \<times> sim_config) run" where
  "pop_transmission_udp d at config =
     (let (sp, c1) = GET_NEXT_SRCPORT config
      in run_bind (store16 d at (htons (ucast sp))) (\<lambda>d1.
         let (dp, c2) = GET_NEXT_DSTPORT c1
         in run_bind (store16 d1 (at + 2) (htons (ucast dp))) (\<lambda>d2.
            run_bind (store16 d2 (at + 4) (htons (word_of_int (pktlen c2 - 36)))) (\<lambda>d3.
            Ret (d3, c2)))))"

text \<open>\<^verbatim>\<open>ip->version = IPVERSION\<close>: the upper half of the first byte; \<^verbatim>\<open>ip->ihl = 5\<close>: the lower half.\<close>

definition pop_iplayer_tcp :: "u8 list \<Rightarrow> nat \<Rightarrow> sim_config \<Rightarrow> (u8 list \<times> sim_config) run" where
  "pop_iplayer_tcp d at config =
     run_bind (load8 d at) (\<lambda>b.
     run_bind (store8 d at ((((b AND 0x0F) OR push_bit 4 4) AND 0xF0) OR 5)) (\<lambda>d1.
     run_bind (store16 d1 (at + 2) (htons (word_of_int (pktlen config - 16)))) (\<lambda>d2.
     run_bind (store8 d2 (at + 8) 64) (\<lambda>d3.
     run_bind (store8 d3 (at + 9) 6) (\<lambda>d4.
     let (sa, c1) = GET_NEXT_SRCIP config
     in run_bind (store32 d4 (at + 12) (htonl sa)) (\<lambda>d5.
        let (da, c2) = GET_NEXT_DSTIP c1
        in run_bind (store32 d5 (at + 16) (htonl da)) (\<lambda>d6.
           Ret (d6, c2))))))))"

definition pop_iplayer_udp :: "u8 list \<Rightarrow> nat \<Rightarrow> sim_config \<Rightarrow> (u8 list \<times> sim_config) run" where
  "pop_iplayer_udp d at config =
     run_bind (load8 d at) (\<lambda>b.
     run_bind (store8 d at ((b AND 0xF0) OR 5)) (\<lambda>d1.
     run_bind (store16 d1 (at + 2) (htons (word_of_int (pktlen config - 16)))) (\<lambda>d2.
     run_bind (store8 d2 (at + 9) 17) (\<lambda>d3.
     let (sa, c1) = GET_NEXT_SRCIP config
     in run_bind (store32 d3 (at + 12) (htonl sa)) (\<lambda>d4.
        let (da, c2) = GET_NEXT_DSTIP c1
        in run_bind (store32 d4 (at + 16) (htonl da)) (\<lambda>d5.
           Ret (d5, c2)))))))"

definition pop_datalink :: "u8 list \<Rightarrow> nat \<Rightarrow> sim_config \<Rightarrow> u8 list run" where
  "pop_datalink d at config =
     run_bind (put_bytes d at (take 6 (dstmac config))) (\<lambda>d1.
     run_bind (put_bytes d1 (at + 6) (take 6 (srcmac config))) (\<lambda>d2.
     store16 d2 (at + 12) (htons 0x0800)))"

definition generator_tcp_packet :: "u8 list \<Rightarrow> sim_config \<Rightarrow> (u8 list \<times> sim_config) run" where
  "generator_tcp_packet d config =
     run_bind (pop_payload d 56 (pkt_data config) config) (\<lambda>d1.
     run_bind (pop_transmission_tcp d1 36 config) (\<lambda>(d2, c2).
     run_bind (pop_iplayer_tcp d2 16 c2) (\<lambda>(d3, c3).
     run_bind (pop_datalink d3 2 c3) (\<lambda>d4. Ret (d4, c3)))))"

definition generator_udp_packet :: "u8 list \<Rightarrow> sim_config \<Rightarrow> (u8 list \<times> sim_config) run" where
  "generator_udp_packet d config =
     run_bind (pop_payload d 44 (pkt_data config) config) (\<lambda>d1.
     run_bind (pop_transmission_udp d1 36 config) (\<lambda>(d2, c2).
     run_bind (pop_iplayer_udp d2 16 c2) (\<lambda>(d3, c3).
     run_bind (pop_datalink d3 2 c3) (\<lambda>d4. Ret (d4, c3)))))"

section \<open>Writing inside a region\<close>

definition same_outside :: "u8 list \<Rightarrow> u8 list \<Rightarrow> nat \<Rightarrow> nat \<Rightarrow> bool" where
  "same_outside d d' lo hi \<longleftrightarrow>
     length d' = length d \<and> (\<forall>j n. j + n \<le> lo \<or> hi \<le> j \<longrightarrow> get_bytes d' j n = get_bytes d j n)"

lemma same_outside_refl [simp]: "same_outside d d lo hi"
  by (simp add: same_outside_def)

lemma same_outside_trans:
  "same_outside d d1 lo hi \<Longrightarrow> same_outside d1 d2 lo hi \<Longrightarrow> same_outside d d2 lo hi"
  by (simp add: same_outside_def)

lemma same_outside_wider:
  "same_outside d d' lo hi \<Longrightarrow> lo' \<le> lo \<Longrightarrow> hi \<le> hi' \<Longrightarrow> same_outside d d' lo' hi'"
  by (auto simp: same_outside_def)

lemma same_outside_put:
  "put_bytes d i xs = Ret d' \<Longrightarrow> same_outside d d' i (i + length xs)"
  by (auto simp: same_outside_def put_bytes_length dest: get_put_other)

lemma same_outside_get:
  "same_outside d d' lo hi \<Longrightarrow> j + n \<le> lo \<or> hi \<le> j \<Longrightarrow> get_bytes d' j n = get_bytes d j n"
  unfolding same_outside_def by blast

lemma same_outside_loads:
  assumes "same_outside d d' lo hi"
  shows "i + 1 \<le> lo \<or> hi \<le> i \<Longrightarrow> load8 d' i = load8 d i"
    and "i + 2 \<le> lo \<or> hi \<le> i \<Longrightarrow> load16 d' i = load16 d i"
    and "i + 4 \<le> lo \<or> hi \<le> i \<Longrightarrow> load32 d' i = load32 d i"
  using same_outside_get [OF assms, of i] unfolding load8_def load16_def load32_def by metis+

lemma same_outside_stores:
  "store8 d i b = Ret d' \<Longrightarrow> same_outside d d' i (i + 1)"
  "store16 d i v = Ret d' \<Longrightarrow> same_outside d d' i (i + 2)"
  "store32 d i u = Ret d' \<Longrightarrow> same_outside d d' i (i + 4)"
  using same_outside_put [of d i] unfolding store8_def store16_def store32_def by fastforce+

lemma load_store:
  "store8 d i b = Ret d' \<Longrightarrow> load8 d' i = Ret b"
  "store16 d i v = Ret d' \<Longrightarrow> load16 d' i = Ret v"
  "store32 d i u = Ret d' \<Longrightarrow> load32 d' i = Ret u"
  using get_put_same [of d i] unfolding store8_def store16_def store32_def load8_def load16_def load32_def
  by fastforce+

lemma stores_return:
  "i + 1 \<le> length d \<Longrightarrow> \<exists>d'. store8 d i b = Ret d'"
  "i + 2 \<le> length d \<Longrightarrow> \<exists>d'. store16 d i v = Ret d'"
  "i + 4 \<le> length d \<Longrightarrow> \<exists>d'. store32 d i u = Ret d'"
  by (simp_all add: store8_def store16_def store32_def put_bytes_returns)

lemma same_outside_length: "same_outside d d' lo hi \<Longrightarrow> length d' = length d"
  by (simp add: same_outside_def)

section \<open>What the layers write\<close>

lemma nibbles: "drop_bit 4 ((b AND 0x0F) OR push_bit 4 5 :: u8) = 5" "((c AND 0xF0) OR 5) AND 0xF = (5::u8)"
proof -
  have m: "(0xF :: u8) = mask 4" "(0xF0 :: u8) = push_bit 4 (mask 4)" by (simp_all add: mask_eq_exp_minus_1)
  have "drop_bit 4 ((b AND 0x0F) :: u8) = 0"
    by (rule bit_word_eqI) (auto simp: bit_simps m)
  moreover have "drop_bit 4 (push_bit 4 5 :: u8) = 5" by simp
  ultimately show "drop_bit 4 ((b AND 0x0F) OR push_bit 4 5 :: u8) = 5" by (simp add: drop_bit_or)
  have "(c AND 0xF0) AND 0xF = (0::u8)" by (rule bit_word_eqI) (auto simp: bit_simps m)
  then show "((c AND 0xF0) OR 5) AND 0xF = (5::u8)" by (simp add: bit.conj_disj_distrib2)
qed

lemma pop_transmission_tcp_ok:
  assumes "at + 20 \<le> length d" "GET_NEXT_SRCPORT config = (sp, c1)" "GET_NEXT_DSTPORT c1 = (dp, c2)"
  obtains d' b where "pop_transmission_tcp d at config = Ret (d', c2)" "same_outside d d' at (at + 20)"
    "load16 d' at = Ret (htons (ucast sp))" "load16 d' (at + 2) = Ret (htons (ucast dp))"
    "load8 d' (at + 12) = Ret b" "drop_bit 4 b = 5"
proof -
  obtain d1 where d1: "store16 d at (htons (ucast sp)) = Ret d1" using stores_return(2) assms(1) by fastforce
  note s1 = same_outside_stores(2) [OF d1]
  then have l1: "length d1 = length d" by (rule same_outside_length)
  obtain d2 where d2: "store16 d1 (at + 2) (htons (ucast dp)) = Ret d2"
    using stores_return(2) [of "at + 2" d1] assms(1) l1 by auto
  note s2 = same_outside_stores(2) [OF d2]
  then have l2: "length d2 = length d" using l1 same_outside_length by simp
  have ld: "load8 d2 (at + 12) = Ret (d2 ! (at + 12))" using assms(1) l2 by (intro loads(1)) simp
  let ?b = "(d2 ! (at + 12) AND 0x0F) OR push_bit 4 5"
  obtain d3 where d3: "store8 d2 (at + 12) ?b = Ret d3"
    using stores_return(1) [of "at + 12" d2] assms(1) l2 by auto
  note s3 = same_outside_stores(1) [OF d3]
  have "pop_transmission_tcp d at config = Ret (d3, c2)"
    unfolding pop_transmission_tcp_def assms(2) Let_def prod.case d1 run_bind.simps assms(3) d2 ld d3 ..
  moreover have "same_outside d d3 at (at + 20)"
    by (rule same_outside_trans [OF same_outside_trans])
       (rule same_outside_wider [OF s1] same_outside_wider [OF s2] same_outside_wider [OF s3]; simp)+
  moreover have "load16 d3 at = Ret (htons (ucast sp))"
    using load_store(2) [OF d1] same_outside_loads(2) [OF s2, of at] same_outside_loads(2) [OF s3, of at] by simp
  moreover have "load16 d3 (at + 2) = Ret (htons (ucast dp))"
    using load_store(2) [OF d2] same_outside_loads(2) [OF s3, of "at + 2"] by simp
  moreover have "load8 d3 (at + 12) = Ret ?b" by (rule load_store(1) [OF d3])
  ultimately show thesis using that nibbles(1) by blast
qed

lemma store_in:
  assumes "lo \<le> i" "i + n \<le> hi" "hi \<le> length d"
  shows "n = 1 \<Longrightarrow> \<exists>d'. store8 d i b = Ret d' \<and> same_outside d d' lo hi"
    and "n = 2 \<Longrightarrow> \<exists>d'. store16 d i v = Ret d' \<and> same_outside d d' lo hi"
    and "n = 4 \<Longrightarrow> \<exists>d'. store32 d i u = Ret d' \<and> same_outside d d' lo hi"
proof -
  have w: "same_outside d d' lo hi" if "same_outside d d' i (i + n)" for d'
    using that assms(1,2) by (rule same_outside_wider)
  show "\<exists>d'. store8 d i b = Ret d' \<and> same_outside d d' lo hi" if "n = 1"
    using stores_return(1) [of i d b] assms that w same_outside_stores(1) by fastforce
  show "\<exists>d'. store16 d i v = Ret d' \<and> same_outside d d' lo hi" if "n = 2"
    using stores_return(2) [of i d v] assms that w same_outside_stores(2) by fastforce
  show "\<exists>d'. store32 d i u = Ret d' \<and> same_outside d d' lo hi" if "n = 4"
    using stores_return(3) [of i d u] assms that w same_outside_stores(3) by fastforce
qed

lemma pop_iplayer_tcp_ok:
  assumes "at + 20 \<le> length d" "GET_NEXT_SRCIP config = (sa, c1)" "GET_NEXT_DSTIP c1 = (da, c2)"
  obtains d' b where "pop_iplayer_tcp d at config = Ret (d', c2)" "same_outside d d' at (at + 20)"
    "load8 d' at = Ret b" "b AND 0xF = 5" "load8 d' (at + 9) = Ret 6"
    "load32 d' (at + 12) = Ret (htonl sa)" "load32 d' (at + 16) = Ret (htonl da)"
proof -
  let ?hi = "at + 20"
  have ld: "load8 d at = Ret (d ! at)" using assms(1) by (intro loads(1)) simp
  let ?b = "(((d ! at AND 0x0F) OR push_bit 4 4) AND 0xF0) OR 5"
  obtain d1 where d1: "store8 d at ?b = Ret d1" "same_outside d d1 at ?hi"
    using store_in(1) [of at at 1 ?hi d ?b] assms(1) by auto
  have l1: "?hi \<le> length d1" using d1(2) assms(1) same_outside_length by metis
  obtain d2 where d2: "store16 d1 (at + 2) (htons (word_of_int (pktlen config - 16))) = Ret d2" "same_outside d1 d2 at ?hi"
    using store_in(2) [of at "at + 2" 2 ?hi d1] l1 by auto
  have l2: "?hi \<le> length d2" using d2(2) l1 same_outside_length by metis
  obtain d3 where d3: "store8 d2 (at + 8) 64 = Ret d3" "same_outside d2 d3 at ?hi"
    using store_in(1) [of at "at + 8" 1 ?hi d2] l2 by auto
  have l3: "?hi \<le> length d3" using d3(2) l2 same_outside_length by metis
  obtain d4 where d4: "store8 d3 (at + 9) 6 = Ret d4" "same_outside d3 d4 at ?hi"
    using store_in(1) [of at "at + 9" 1 ?hi d3] l3 by auto
  have l4: "?hi \<le> length d4" using d4(2) l3 same_outside_length by metis
  obtain d5 where d5: "store32 d4 (at + 12) (htonl sa) = Ret d5" "same_outside d4 d5 at ?hi"
    using store_in(3) [of at "at + 12" 4 ?hi d4] l4 by auto
  have l5: "?hi \<le> length d5" using d5(2) l4 same_outside_length by metis
  obtain d6 where d6: "store32 d5 (at + 16) (htonl da) = Ret d6" "same_outside d5 d6 at ?hi"
    using store_in(3) [of at "at + 16" 4 ?hi d5] l5 by auto
  have run: "pop_iplayer_tcp d at config = Ret (d6, c2)"
    unfolding pop_iplayer_tcp_def ld run_bind.simps d1(1) d2(1) d3(1) d4(1) assms(2) Let_def prod.case d5(1) assms(3) d6(1) ..
  note s2 = same_outside_stores(2) [OF d2(1)] and s3 = same_outside_stores(1) [OF d3(1)]
    and s4 = same_outside_stores(1) [OF d4(1)] and s5 = same_outside_stores(3) [OF d5(1)]
    and s6 = same_outside_stores(3) [OF d6(1)]
  have "load8 d6 at = Ret ?b"
    using load_store(1) [OF d1(1)] same_outside_loads(1) [OF s2, of at] same_outside_loads(1) [OF s3, of at]
      same_outside_loads(1) [OF s4, of at] same_outside_loads(1) [OF s5, of at] same_outside_loads(1) [OF s6, of at]
    by simp
  moreover have "load8 d6 (at + 9) = Ret 6"
    using load_store(1) [OF d4(1)] same_outside_loads(1) [OF s5, of "at + 9"]
      same_outside_loads(1) [OF s6, of "at + 9"] by simp
  moreover have "load32 d6 (at + 12) = Ret (htonl sa)"
    using load_store(3) [OF d5(1)] same_outside_loads(3) [OF s6, of "at + 12"] by simp
  moreover have "load32 d6 (at + 16) = Ret (htonl da)" by (rule load_store(3) [OF d6(1)])
  moreover have "same_outside d d6 at ?hi"
    using d1(2) d2(2) d3(2) d4(2) d5(2) d6(2) by (meson same_outside_trans)
  ultimately show thesis using that run nibbles(2) by blast
qed

lemma pop_datalink_ok:
  assumes "at + 14 \<le> length d" "length (dstmac config) = 6" "length (srcmac config) = 6"
  obtains d' where "pop_datalink d at config = Ret d'" "same_outside d d' at (at + 14)"
proof -
  obtain d1 where d1: "put_bytes d at (take 6 (dstmac config)) = Ret d1"
    using put_bytes_returns [of at "take 6 (dstmac config)" d] assms by auto
  note s1 = same_outside_put [OF d1]
  have l1: "length d1 = length d" using s1 by (rule same_outside_length)
  obtain d2 where d2: "put_bytes d1 (at + 6) (take 6 (srcmac config)) = Ret d2"
    using put_bytes_returns [of "at + 6" "take 6 (srcmac config)" d1] assms l1 by auto
  note s2 = same_outside_put [OF d2]
  have l2: "length d2 = length d" using s2 l1 same_outside_length by metis
  obtain d3 where d3: "store16 d2 (at + 12) (htons 0x0800) = Ret d3" "same_outside d2 d3 at (at + 14)"
    using store_in(2) [of at "at + 12" 2 "at + 14" d2 "htons 0x0800"] assms(1) l2 by auto
  have "same_outside d d1 at (at + 14)" "same_outside d1 d2 at (at + 14)"
    using s1 s2 assms(2,3) by (auto intro: same_outside_wider)
  with d3(2) have "same_outside d d3 at (at + 14)" by (meson same_outside_trans)
  moreover have "pop_datalink d at config = Ret d3"
    unfolding pop_datalink_def d1 run_bind.simps d2 d3(1) ..
  ultimately show thesis using that by blast
qed

section \<open>The payload is the text, repeated\<close>

definition cycle_text :: "u8 list \<Rightarrow> nat \<Rightarrow> u8 list" where
  "cycle_text str n = map (\<lambda>t. str ! (t mod length str)) [0..<n]"

lemma cycle_text_short: "n \<le> length str \<Longrightarrow> cycle_text str n = take n str"
  by (auto simp: cycle_text_def intro!: nth_equalityI)

lemma cycle_text_add: "cycle_text str (length str + n) = str @ cycle_text str n"
proof (cases "str = []")
  case False
  show ?thesis
  proof (rule nth_equalityI)
    fix t assume t: "t < length (cycle_text str (length str + n))"
    show "cycle_text str (length str + n) ! t = (str @ cycle_text str n) ! t"
    proof (cases "t < length str")
      case ge: False
      then have "t mod length str = (t - length str) mod length str" using False by (simp add: le_mod_geq)
      moreover have "t - length str < n" using t ge by (simp add: cycle_text_def)
      ultimately show ?thesis using t ge by (simp add: cycle_text_def nth_append)
    qed (use t in \<open>simp add: cycle_text_def nth_append\<close>)
  qed (simp add: cycle_text_def)
qed simp

lemma get_bytes_join:
  "get_bytes d i m = Ret xs \<Longrightarrow> get_bytes d (i + m) n = Ret ys \<Longrightarrow> get_bytes d i (m + n) = Ret (xs @ ys)"
  by (auto simp: get_bytes_def take_add add.commute split: if_splits)

lemma copy_text_ok:
  assumes "0 \<le> n" "nat n \<le> length str" "at + nat n \<le> length d"
  obtains d' where "copy_text d at str n = Ret d'" "same_outside d d' at (at + nat n)"
    "get_bytes d' at (nat n) = Ret (take (nat n) str)"
proof -
  have l: "length (take (nat n) str) = nat n" using assms(2) by simp
  obtain d' where d': "put_bytes d at (take (nat n) str) = Ret d'"
    using put_bytes_returns [of at "take (nat n) str" d] assms l by auto
  moreover have "copy_text d at str n = Ret d'" using assms d' by (simp add: copy_text_def)
  ultimately show thesis
    using that same_outside_put [OF d'] get_put_same [OF d'] unfolding l by blast
qed

lemma payload_loop_ok:
  assumes "str \<noteq> []" "0 \<le> j" "at + nat j \<le> length d"
  shows "\<exists>d'. payload_loop d at j str = Ret d' \<and> same_outside d d' at (at + nat j)
           \<and> get_bytes d' at (nat j) = Ret (cycle_text str (nat j))"
  using assms
proof (induction d at j str rule: payload_loop.induct)
  case (1 d at j str)
  let ?i = "length str"
  show ?case
  proof (cases "int ?i < j")
    case False
    obtain d' where "copy_text d at str j = Ret d'" "same_outside d d' at (at + nat j)"
      "get_bytes d' at (nat j) = Ret (take (nat j) str)"
      by (rule copy_text_ok [of j str at d]) (use 1 False in auto)
    with False show ?thesis by (simp add: payload_loop.simps [of d] cycle_text_short)
  next
    case True
    have a: "at + ?i \<le> length d" using 1(4) True by linarith
    obtain d1 where d1: "copy_text d at str (int ?i) = Ret d1" "same_outside d d1 at (at + ?i)"
      "get_bytes d1 at ?i = Ret str"
      using copy_text_ok [of "int ?i" str at d] a by auto
    have "length d1 = length d" using d1(2) by (rule same_outside_length)
    then have pre: "0 \<le> j - int ?i" "at + ?i + nat (j - int ?i) \<le> length d1" using 1(4) True by linarith+
    from 1(1) [OF True 1(2) 1(2) pre] obtain d2
      where d2: "payload_loop d1 (at + ?i) (j - int ?i) str = Ret d2"
        "same_outside d1 d2 (at + ?i) (at + ?i + nat (j - int ?i))"
        "get_bytes d2 (at + ?i) (nat (j - int ?i)) = Ret (cycle_text str (nat (j - int ?i)))" by blast
    have n: "nat j = ?i + nat (j - int ?i)" using True by linarith
    have "get_bytes d2 at ?i = Ret str" using same_outside_get [OF d2(2), of at ?i] d1(3) by simp
    from get_bytes_join [OF this d2(3)] have g: "get_bytes d2 at (nat j) = Ret (cycle_text str (nat j))"
      unfolding n cycle_text_add .
    have "same_outside d d2 at (at + nat j)"
      by (rule same_outside_trans [OF same_outside_wider [OF d1(2)] same_outside_wider [OF d2(2)]]) (use n in auto)
    with g d1(1) d2(1) True 1(2) show ?thesis by (simp add: payload_loop.simps [of d])
  qed
qed

lemma pop_payload_ok:
  assumes "str \<noteq> []" "54 \<le> pktlen config" "at + nat (pktlen config - 54) \<le> length d"
  obtains d' where "pop_payload d at (Some str) config = Ret d'"
    "same_outside d d' at (at + nat (pktlen config - 54))"
    "get_bytes d' at (nat (pktlen config - 54)) = Ret (cycle_text str (nat (pktlen config - 54)))"
proof -
  let ?j = "pktlen config - 54"
  obtain d1 where d1: "(if int (length str) > ?j then copy_text d at str ?j else Ret d) = Ret d1"
    "same_outside d d1 at (at + nat ?j)"
  proof (cases "int (length str) > ?j")
    case True
    obtain d1 where "copy_text d at str ?j = Ret d1" "same_outside d d1 at (at + nat ?j)"
      by (rule copy_text_ok [of ?j str at d]) (use assms True in auto)
    with True that show thesis by simp
  qed (use that in simp)
  have "at + nat ?j \<le> length d1" using d1(2) assms(3) same_outside_length by metis
  from payload_loop_ok [OF assms(1) _ this] assms(2) obtain d2
    where d2: "payload_loop d1 at ?j str = Ret d2" "same_outside d1 d2 at (at + nat ?j)"
      "get_bytes d2 at (nat ?j) = Ret (cycle_text str (nat ?j))" by auto
  have "pop_payload d at (Some str) config = Ret d2"
    unfolding pop_payload_def option.case Let_def d1(1) run_bind.simps by (rule d2(1))
  with that same_outside_trans [OF d1(2) d2(2)] d2(3) show thesis by blast
qed

text \<open>Without text the loop does not end; with a packet too short for its headers the copy length is negative.\<close>

lemma pop_payload_empty: "54 < pktlen config \<Longrightarrow> pop_payload d at (Some []) config = Spin"
  by (simp add: pop_payload_def payload_loop.simps)

lemma pop_payload_short: "pktlen config < 54 \<Longrightarrow> pop_payload d at (Some str) config = Fault"
  by (simp add: pop_payload_def copy_text_def)

section \<open>A generated packet decodes to what was put in\<close>

text \<open>Reading the decoder's fields off loads.\<close>

lemma fields_of_loads:
  "load32 d 28 = Ret x \<Longrightarrow> src_ip d = x" "load32 d 32 = Ret x \<Longrightarrow> dst_ip d = x"
  "load8 d i = Ret y \<Longrightarrow> d ! i = y \<and> i < length d"
  "load16 d (l4_at d) = Ret z \<Longrightarrow> src_port d = z" "load16 d (l4_at d + 2) = Ret z \<Longrightarrow> dst_port d = z"
  by (auto simp: load8_def load16_def load32_def get_bytes_def src_ip_def dst_ip_def src_port_def dst_port_def
      split: if_splits)

text \<open>The shape of a generated TCP packet: 20-byte headers and protocol 6.\<close>

definition tcp_shape :: "u8 list \<Rightarrow> bool" where
  "tcp_shape d \<longleftrightarrow> headers_inside d \<and> ip_hdr_len d = 20 \<and> tcp_hdr_len d = 20 \<and> d ! 25 = 6"

lemma tcp_shapeI:
  assumes "56 \<le> length d" "load8 d 16 = Ret b" "b AND 0xF = 5" "load8 d 48 = Ret c" "drop_bit 4 c = 5"
    and "load8 d 25 = Ret 6"
  shows "tcp_shape d" "l4_at d = 36"
proof -
  have "d ! 16 AND 0xF = 5" "drop_bit 4 (d ! 48) = 5" "d ! 25 = 6" using assms fields_of_loads(3) by blast+
  then have ih: "ip_hdr_len d = 20" and b: "drop_bit 4 (d ! 48) = 5" "d ! 25 = 6" by (simp_all add: ip_hdr_len_def)
  then show l4: "l4_at d = 36" by (simp add: l4_at_def)
  have "tcp_hdr_len d = 20" unfolding tcp_hdr_len_def l4 using b(1) by simp
  then show "tcp_shape d" using ih b(2) assms(1) l4 by (simp add: tcp_shape_def headers_inside_def)
qed

lemma generator_tcp_packet_ok:
  assumes str: "pkt_data config = Some str" "str \<noteq> []"
    and len: "54 \<le> pktlen config" "length d = nat (pktlen config) + 2"
    and mac: "length (dstmac config) = 6" "length (srcmac config) = 6"
    and nx: "GET_NEXT_SRCPORT config = (sp, c1)" "GET_NEXT_DSTPORT c1 = (dp, c2)"
      "GET_NEXT_SRCIP c2 = (sa, c3)" "GET_NEXT_DSTIP c3 = (da, c4)"
  shows "\<exists>d'. generator_tcp_packet d config = Ret (d', c4) \<and> length d' = length d \<and> tcp_shape d'
    \<and> src_ip d' = htonl sa \<and> dst_ip d' = htonl da
    \<and> src_port d' = htons (ucast sp) \<and> dst_port d' = htons (ucast dp)
    \<and> drop 56 d' = cycle_text str (nat (pktlen config) - 54)"
proof -
  have mac4: "dstmac c4 = dstmac config" "srcmac c4 = srcmac config"
    using nx unfolding GET_NEXT_SRCPORT_def GET_NEXT_DSTPORT_def GET_NEXT_SRCIP_def GET_NEXT_DSTIP_def
    by (auto split: if_splits)
  have n: "nat (pktlen config - 54) = nat (pktlen config) - 54" "56 + (nat (pktlen config) - 54) = length d"
    and ge: "56 \<le> length d" using len by auto
  obtain d1 where d1: "pop_payload d 56 (Some str) config = Ret d1" "same_outside d d1 56 (length d)"
    "get_bytes d1 56 (nat (pktlen config) - 54) = Ret (cycle_text str (nat (pktlen config) - 54))"
    using pop_payload_ok [OF str(2) len(1), of 56 d] unfolding n by auto
  have l1: "length d1 = length d" using d1(2) by (rule same_outside_length)
  obtain d2 b where d2: "pop_transmission_tcp d1 36 config = Ret (d2, c2)" "same_outside d1 d2 36 56"
    "load16 d2 36 = Ret (htons (ucast sp))" "load16 d2 38 = Ret (htons (ucast dp))"
    "load8 d2 48 = Ret b" "drop_bit 4 b = 5"
    using pop_transmission_tcp_ok [OF _ nx(1,2), of 36 d1] l1 ge by auto
  have l2: "length d2 = length d" using d2(2) l1 same_outside_length by metis
  obtain d3 a where d3: "pop_iplayer_tcp d2 16 c2 = Ret (d3, c4)" "same_outside d2 d3 16 36"
    "load8 d3 16 = Ret a" "a AND 0xF = 5" "load8 d3 25 = Ret 6" "load32 d3 28 = Ret (htonl sa)" "load32 d3 32 = Ret (htonl da)"
    using pop_iplayer_tcp_ok [OF _ nx(3,4), of 16 d2] l2 ge by auto
  have l3: "length d3 = length d" using d3(2) l2 same_outside_length by metis
  obtain d4 where d4: "pop_datalink d3 2 c4 = Ret d4" "same_outside d3 d4 2 16"
    using pop_datalink_ok [of 2 d3 c4] mac mac4 l3 ge by auto
  have l4: "length d4 = length d" using d4(2) l3 same_outside_length by metis
  have run: "generator_tcp_packet d config = Ret (d4, c4)"
    unfolding generator_tcp_packet_def str(1) d1(1) run_bind.simps d2(1) prod.case d3(1) d4(1) ..
  have ip: "load8 d4 16 = Ret a" "load8 d4 25 = Ret 6" "load32 d4 28 = Ret (htonl sa)" "load32 d4 32 = Ret (htonl da)"
    using d3 same_outside_loads [OF d4(2)] by simp_all
  have tcp: "load16 d4 36 = Ret (htons (ucast sp))" "load16 d4 38 = Ret (htons (ucast dp))" "load8 d4 48 = Ret b"
    using d2 same_outside_loads [OF d3(2)] same_outside_loads [OF d4(2)] by simp_all
  have sh: "tcp_shape d4" "l4_at d4 = 36"
    using tcp_shapeI [OF _ ip(1) d3(4) tcp(3) d2(6) ip(2)] l4 ge by auto
  have "get_bytes d4 56 (nat (pktlen config) - 54) = Ret (cycle_text str (nat (pktlen config) - 54))"
    using d1(3) same_outside_get [OF d2(2), of 56] same_outside_get [OF d3(2), of 56]
      same_outside_get [OF d4(2), of 56] by simp
  then have "take (nat (pktlen config) - 54) (drop 56 d4) = cycle_text str (nat (pktlen config) - 54)"
    by (simp add: get_bytes_def split: if_splits)
  then have "drop 56 d4 = cycle_text str (nat (pktlen config) - 54)" using l4 len by simp
  with run l4 sh fields_of_loads(1) [OF ip(3)] fields_of_loads(2) [OF ip(4)] fields_of_loads(4,5) [of d4] tcp
  show ?thesis by simp
qed

section \<open>Counters that run through a range\<close>

text \<open>What the four macros have in common.\<close>

locale range_counter =
  fixes nxt :: "'c \<Rightarrow> 'w::len word \<times> 'c"
    and cur lo hi :: "'c \<Rightarrow> 'w word"
  assumes nxt_value: "fst (nxt c) = cur (snd (nxt c))"
    and nxt_cur: "cur (snd (nxt c)) = (if cur c = hi c then lo c else cur c + 1)"
    and nxt_range: "lo (snd (nxt c)) = lo c" "hi (snd (nxt c)) = hi c"
begin

lemma range_kept: "lo (((snd \<circ> nxt) ^^ k) c) = lo c" "hi (((snd \<circ> nxt) ^^ k) c) = hi c"
  by (induction k) (simp_all add: nxt_range)

lemma cur_after:
  assumes "lo c \<le> cur c" "cur c \<le> hi c"
  shows "unat (cur (((snd \<circ> nxt) ^^ k) c)) =
    unat (lo c) + (unat (cur c) - unat (lo c) + k) mod (unat (hi c) - unat (lo c) + 1)"
proof (induction k)
  case 0
  then show ?case using assms by (simp add: word_le_nat_alt less_Suc_eq_le)
next
  case (Suc k)
  let ?c = "((snd \<circ> nxt) ^^ k) c" and ?n = "unat (hi c) - unat (lo c) + 1"
  let ?r = "(unat (cur c) - unat (lo c) + k) mod ?n"
  have le: "unat (lo c) \<le> unat (hi c)" using assms by (simp add: word_le_nat_alt)
  have succ: "(unat (cur c) - unat (lo c) + Suc k) mod ?n = (if Suc ?r = ?n then 0 else Suc ?r)"
    by (simp only: add_Suc_right mod_Suc)
  have "unat (cur ((snd \<circ> nxt) ?c)) = unat (lo c) + (if Suc ?r = ?n then 0 else Suc ?r)"
  proof (cases "cur ?c = hi c")
    case True
    then have "unat (lo c) + ?r = unat (hi c)" using Suc.IH by (simp only:)
    then have "Suc ?r = ?n" using le by simp
    with True show ?thesis by (simp add: nxt_cur range_kept)
  next
    case False
    then have "unat (lo c) + ?r \<noteq> unat (hi c)" using Suc unsigned_word_eqI by metis
    moreover have "?r < ?n" by simp
    ultimately have r: "Suc ?r \<noteq> ?n" "unat (lo c) + ?r < unat (hi c)" using le by linarith+
    have "unat (cur ?c) < unat (hi c)" using Suc.IH r(2) by (simp only:)
    then have "unat (cur ?c) + 1 < 2 ^ LENGTH('w)" using unsigned_less [of "hi c", where 'a = nat] by linarith
    then have "unat (cur ?c + 1) = unat (cur ?c) + 1" using unat_add_small [of "cur ?c" 1] by simp
    then have "unat (cur ?c + 1) = unat (lo c) + Suc ?r" using Suc.IH by (simp only: add_Suc_right Suc_eq_plus1 add.assoc)
    with False r(1) show ?thesis by (simp add: nxt_cur range_kept)
  qed
  then show ?case unfolding succ funpow.simps(2) o_apply [of "snd \<circ> nxt"] .
qed

lemma value_after:
  assumes "lo c \<le> cur c" "cur c \<le> hi c"
  shows "unat (fst (nxt (((snd \<circ> nxt) ^^ k) c))) =
    unat (lo c) + (unat (cur c) - unat (lo c) + Suc k) mod (unat (hi c) - unat (lo c) + 1)"
  using cur_after [OF assms, of "Suc k"] by (simp add: nxt_value)

end

lemmas GET_NEXT_defs = GET_NEXT_SRCIP_def GET_NEXT_DSTIP_def GET_NEXT_SRCPORT_def GET_NEXT_DSTPORT_def

interpretation srcip: range_counter GET_NEXT_SRCIP saddr_cur saddr_min saddr_max
  by unfold_locales (simp_all add: GET_NEXT_defs)

interpretation dstip: range_counter GET_NEXT_DSTIP daddr_cur daddr_min daddr_max
  by unfold_locales (simp_all add: GET_NEXT_defs)

interpretation srcport: range_counter GET_NEXT_SRCPORT sport_cur sport_min sport_max
  by unfold_locales (simp_all add: GET_NEXT_defs)

interpretation dstport: range_counter GET_NEXT_DSTPORT dport_cur dport_min dport_max
  by unfold_locales (simp_all add: GET_NEXT_defs)

text \<open>The inline functions do the same, up to the width of a port.\<close>

lemma get_next_inline:
  "get_next_srcip c = GET_NEXT_SRCIP c" "get_next_dstip c = GET_NEXT_DSTIP c"
  "get_next_srcport c = (ucast (fst (GET_NEXT_SRCPORT c)), snd (GET_NEXT_SRCPORT c))"
  "get_next_dstport c = (ucast (fst (GET_NEXT_DSTPORT c)), snd (GET_NEXT_DSTPORT c))"
  by (simp_all add: GET_NEXT_defs get_next_srcip_def get_next_dstip_def get_next_srcport_def get_next_dstport_def)

text \<open>The four counters are independent, and nothing else of the configuration changes.\<close>

definition next_config :: "sim_config \<Rightarrow> sim_config" where
  "next_config c =
     c\<lparr>sport_cur := fst (GET_NEXT_SRCPORT c), dport_cur := fst (GET_NEXT_DSTPORT c),
       saddr_cur := fst (GET_NEXT_SRCIP c), daddr_cur := fst (GET_NEXT_DSTIP c)\<rparr>"

lemma next_steps:
  "\<exists>c1 c2 c3. GET_NEXT_SRCPORT c = (fst (GET_NEXT_SRCPORT c), c1) \<and> GET_NEXT_DSTPORT c1 = (fst (GET_NEXT_DSTPORT c), c2)
     \<and> GET_NEXT_SRCIP c2 = (fst (GET_NEXT_SRCIP c), c3) \<and> GET_NEXT_DSTIP c3 = (fst (GET_NEXT_DSTIP c), next_config c)"
  by (simp add: GET_NEXT_defs next_config_def)

text \<open>A configuration for TCP packets with the text \<open>str\<close>, and a packet built under configuration \<open>c\<close>.\<close>

definition tcp_ready :: "sim_config \<Rightarrow> u8 list \<Rightarrow> bool" where
  "tcp_ready c str \<longleftrightarrow> pkt_data c = Some str \<and> str \<noteq> [] \<and> 54 \<le> pktlen c
     \<and> length (dstmac c) = 6 \<and> length (srcmac c) = 6"

definition generated :: "sim_config \<Rightarrow> u8 list \<Rightarrow> u8 list \<Rightarrow> bool" where
  "generated c str d \<longleftrightarrow> length d = nat (pktlen c) + 2 \<and> tcp_shape d
     \<and> src_ip d = htonl (fst (GET_NEXT_SRCIP c)) \<and> dst_ip d = htonl (fst (GET_NEXT_DSTIP c))
     \<and> src_port d = htons (ucast (fst (GET_NEXT_SRCPORT c))) \<and> dst_port d = htons (ucast (fst (GET_NEXT_DSTPORT c)))
     \<and> drop 56 d = cycle_text str (nat (pktlen c) - 54)"

lemma generator_tcp_packet_next:
  assumes "tcp_ready c str" "length d = nat (pktlen c) + 2"
  shows "\<exists>d'. generator_tcp_packet d c = Ret (d', next_config c) \<and> generated c str d'"
proof -
  obtain c1 c2 c3 where nx: "GET_NEXT_SRCPORT c = (fst (GET_NEXT_SRCPORT c), c1)"
    "GET_NEXT_DSTPORT c1 = (fst (GET_NEXT_DSTPORT c), c2)" "GET_NEXT_SRCIP c2 = (fst (GET_NEXT_SRCIP c), c3)"
    "GET_NEXT_DSTIP c3 = (fst (GET_NEXT_DSTIP c), next_config c)" using next_steps by blast
  from generator_tcp_packet_ok [OF _ _ _ assms(2) _ _ nx] assms show ?thesis
    unfolding tcp_ready_def generated_def by metis
qed

text \<open>Every counter is inside its range.\<close>

definition ranges_ok :: "sim_config \<Rightarrow> bool" where
  "ranges_ok c \<longleftrightarrow> saddr_min c \<le> saddr_cur c \<and> saddr_cur c \<le> saddr_max c
     \<and> daddr_min c \<le> daddr_cur c \<and> daddr_cur c \<le> daddr_max c
     \<and> sport_min c \<le> sport_cur c \<and> sport_cur c \<le> sport_max c
     \<and> dport_min c \<le> dport_cur c \<and> dport_cur c \<le> dport_max c"

section \<open>Properties\<close>

text \<open>C20. From a configuration whose current addresses and ports are inside their ranges, the \<open>k\<close>-th
  call of each macro yields the value \<open>k + 1\<close> places further, counted round the range: the values
  never leave the range, every value of it is used, and equally often.\<close>

theorem ranges_cycle:
  assumes "ranges_ok c"
  shows "unat (fst (GET_NEXT_SRCIP (((snd \<circ> GET_NEXT_SRCIP) ^^ k) c))) = unat (saddr_min c)
      + (unat (saddr_cur c) - unat (saddr_min c) + Suc k) mod (unat (saddr_max c) - unat (saddr_min c) + 1)
    \<and> unat (fst (GET_NEXT_DSTIP (((snd \<circ> GET_NEXT_DSTIP) ^^ k) c))) = unat (daddr_min c)
      + (unat (daddr_cur c) - unat (daddr_min c) + Suc k) mod (unat (daddr_max c) - unat (daddr_min c) + 1)
    \<and> unat (fst (GET_NEXT_SRCPORT (((snd \<circ> GET_NEXT_SRCPORT) ^^ k) c))) = unat (sport_min c)
      + (unat (sport_cur c) - unat (sport_min c) + Suc k) mod (unat (sport_max c) - unat (sport_min c) + 1)
    \<and> unat (fst (GET_NEXT_DSTPORT (((snd \<circ> GET_NEXT_DSTPORT) ^^ k) c))) = unat (dport_min c)
      + (unat (dport_cur c) - unat (dport_min c) + Suc k) mod (unat (dport_max c) - unat (dport_min c) + 1)"
  using assms srcip.value_after [of c k] dstip.value_after [of c k] srcport.value_after [of c k]
    dstport.value_after [of c k] by (simp add: ranges_ok_def)

text \<open>A configuration that sends the text \<open>abc\<close> in packets of 60 bytes.\<close>

definition tcp_cfg :: sim_config where
  "tcp_cfg = demo_cfg\<lparr>srcmac := [1, 2, 3, 4, 5, 6], dstmac := [6, 5, 4, 3, 2, 1], saddr_min := 10, saddr_cur := 11,
     saddr_max := 12, daddr_min := 20, daddr_cur := 20, daddr_max := 20, sport_min := 1000, sport_cur := 1000,
     sport_max := 1001, dport_min := 80, dport_cur := 80, dport_max := 80, pkt_data := Some [97, 98, 99], pktlen := 60\<rparr>"

theorem ranges_cycle_witness:
  "unat (fst (GET_NEXT_SRCIP (((snd \<circ> GET_NEXT_SRCIP) ^^ 5) tcp_cfg))) = 11
   \<and> unat (fst (GET_NEXT_SRCPORT (((snd \<circ> GET_NEXT_SRCPORT) ^^ 2) tcp_cfg))) = 1001"
proof -
  have r: "ranges_ok tcp_cfg" by (simp add: ranges_ok_def tcp_cfg_def)
  note c = ranges_cycle [OF r]
  have v: "saddr_min tcp_cfg = 10" "saddr_cur tcp_cfg = 11" "saddr_max tcp_cfg = 12"
    "sport_min tcp_cfg = 1000" "sport_cur tcp_cfg = 1000" "sport_max tcp_cfg = 1001" by (simp_all add: tcp_cfg_def)
  have "unat (fst (GET_NEXT_SRCIP (((snd \<circ> GET_NEXT_SRCIP) ^^ 5) tcp_cfg))) = 11"
    by (simp only: c v) simp
  moreover have "unat (fst (GET_NEXT_SRCPORT (((snd \<circ> GET_NEXT_SRCPORT) ^^ 2) tcp_cfg))) = 1001"
    by (simp only: c v) (simp add: mod_Suc numeral_3_eq_3)
  ultimately show ?thesis by simp
qed

text \<open>C8. Round trip between the generator and the parser: for a text that is not empty and a packet that
  has room for its headers, building a packet returns, moves every counter of the configuration one
  place, and the parser decodes the packet to a flow whose addresses and ports are the ones just
  drawn (in network order), whose protocol is TCP, and whose payload is the text repeated up to the
  length of the packet.\<close>

theorem generated_packet_decodes:
  assumes "tcp_ready c str" "pktlen c + 2 < 2 ^ 32" "length (data (packets w p)) = nat (pktlen c) + 2"
  shows "\<exists>d w' a. generator_tcp_packet (data (packets w p)) c = Ret (d, next_config c)
    \<and> w' = w\<lparr>packets := (packets w)(p := (packets w p)\<lparr>data := d, plength := word_of_int (pktlen c)\<rparr>)\<rparr>
    \<and> make_flow_item_tcp p (packets w' p) f = Ret a
    \<and> flow_key a = (let s = htonl (fst (GET_NEXT_SRCIP c)); t = htonl (fst (GET_NEXT_DSTIP c));
          sp = htons (ucast (fst (GET_NEXT_SRCPORT c))); tp = htons (ucast (fst (GET_NEXT_DSTPORT c)))
        in (max s t, min s t, ucast (max sp tp), ucast (min sp tp), 6))
    \<and> payload_inside w' a \<and> flow_bytes w' a = cycle_text str (nat (pktlen c) - 54)"
proof -
  obtain d where run: "generator_tcp_packet (data (packets w p)) c = Ret (d, next_config c)" and d: "generated c str d"
    using generator_tcp_packet_next [OF assms(1,3)] by blast
  define q where "q = (packets w p)\<lparr>data := d, plength := word_of_int (pktlen c)\<rparr>"
  define w' where "w' = w\<lparr>packets := (packets w)(p := q)\<rparr>"
  have q: "data q = d" "packets w' p = q" by (simp_all add: q_def w'_def)
  have sh: "headers_inside (data q)" "ip_hdr_len d = 20" "tcp_hdr_len d = 20" "d ! 25 = 6"
    using d unfolding q by (simp_all add: generated_def tcp_shape_def)
  obtain a where a: "make_flow_item_tcp p q f = Ret a" using make_flow_item_tcp_eq [OF sh(1)] by (auto simp: Let_def)
  have pl: "54 \<le> pktlen c" using assms(1) by (simp add: tcp_ready_def)
  have len: "unat (plength q) = nat (pktlen c)"
    using assms(2) pl by (simp add: q_def unat_eq_nat_uint uint_word_of_int_eq take_bit_int_eq_self)
  have b: "nat (pktlen c) + 2 < 2 ^ 32" "56 \<le> nat (pktlen c) + 2" using assms(2) pl by auto
  have "payload_inside w' a \<and> flow_bytes w' a = drop 56 (take (nat (pktlen c) + 2) d)"
    using decoded_payload [of w' p f a] sh a d b unfolding q len by (simp add: generated_def)
  then have "payload_inside w' a" "flow_bytes w' a = cycle_text str (nat (pktlen c) - 54)"
    using d by (simp_all add: generated_def)
  moreover have "make_flow_item_tcp p (packets w' p) f = Ret a" unfolding q by (rule a)
  moreover note decoded_key [OF sh(1) a, unfolded q sh(4)]
  ultimately show ?thesis unfolding Let_def using run w'_def [unfolded q_def] d by (auto simp: generated_def)
qed

lemma tcp_cfg_ready: "tcp_ready tcp_cfg [97, 98, 99]" "pktlen tcp_cfg = 60"
  by (simp_all add: tcp_cfg_def tcp_ready_def)

theorem generated_packet_decodes_witness:
  "\<exists>d w' a. generator_tcp_packet (replicate 62 0) tcp_cfg = Ret (d, next_config tcp_cfg)
    \<and> make_flow_item_tcp 0 (packets w' 0) no_flow = Ret a
    \<and> flow_bytes w' a = [97, 98, 99, 97, 98, 99]"
proof -
  let ?w = "one_packet_world\<lparr>packets := \<lambda>_. (demo_packet 1 2 3 4)\<lparr>data := replicate 62 0\<rparr>\<rparr>"
  have c: "cycle_text [97, 98, 99] (nat 60 - 54) = [97, 98, 99, 97, 98, 99]"
    by (simp add: cycle_text_def upt_rec)
  have d: "data (packets ?w 0) = replicate 62 0" by simp
  have "pktlen tcp_cfg + 2 < 2 ^ 32" "length (data (packets ?w 0)) = nat (pktlen tcp_cfg) + 2"
    by (simp_all add: tcp_cfg_ready(2))
  from generated_packet_decodes [OF tcp_cfg_ready(1) this, of no_flow]
  show ?thesis unfolding d tcp_cfg_ready(2) c by blast
qed

text \<open>With an empty text \<^verbatim>\<open>pop_payload\<close> copies nothing and does not advance: the generator hangs before
  its first packet, whatever the protocol.\<close>

theorem empty_text_hangs:
  assumes "pkt_data c = Some []" "54 < pktlen c"
  shows "generator_tcp_packet d c = Spin \<and> generator_udp_packet d c = Spin"
  using assms by (simp add: generator_tcp_packet_def generator_udp_packet_def pop_payload_empty)

theorem empty_text_hangs_witness: "generator_tcp_packet (replicate 62 0) (tcp_cfg\<lparr>pkt_data := Some []\<rparr>) = Spin"
proof -
  have "pkt_data (tcp_cfg\<lparr>pkt_data := Some []\<rparr>) = Some []" "54 < pktlen (tcp_cfg\<lparr>pkt_data := Some []\<rparr>)"
    by (simp_all add: tcp_cfg_ready(2))
  from empty_text_hangs [OF this] show ?thesis by blast
qed

text \<open>A packet length below 54, the size of the three headers, makes the copy length negative: building
  a packet faults, whatever the text and the protocol.\<close>

theorem short_pktlen_faults:
  assumes "pktlen c < 54"
  shows "generator_tcp_packet d c = Fault \<and> generator_udp_packet d c = Fault"
  using assms pop_payload_short [of c] unfolding generator_tcp_packet_def generator_udp_packet_def
  by (cases "pkt_data c") (simp_all add: pop_payload_def)

theorem short_pktlen_faults_witness: "generator_tcp_packet (replicate 62 0) (tcp_cfg\<lparr>pktlen := 53\<rparr>) = Fault"
proof -
  have "pktlen (tcp_cfg\<lparr>pktlen := 53\<rparr>) < 54" by simp
  from short_pktlen_faults [OF this] show ?thesis by blast
qed

end
