(* ===== verification/Packet_Generator.thy ===== *)
theory Packet_Generator
  imports Packet_Build
begin

text \<open>
  The threads of \<^verbatim>\<open>src/packet_generator.c\<close>: a generator owns a pool of packets, fills them once,
  and then sends them for ever to its parsers in turn, with new addresses and ports each time; a
  collector copies the frames of a network card into packets and sends them the same way. The
  parsers' queues are declared single-sender, so that two generators must never share a parser.
\<close>

section \<open>State\<close>

text \<open>
  \<open>g_pool\<close> is the number of the generator's pool. \<open>g_ready p\<close> holds once the field \<^verbatim>\<open>data\<close> of packet \<open>p\<close>
  has been set to point behind the struct: until then following it is a fault. The bytes behind
  the struct of packet \<open>p\<close> are \<open>data (packets w p)\<close>. \<open>g_config\<close> is the thread's own copy of the configuration.
\<close>

record generator =
  g_index :: int
  g_next_thread_id :: int
  total_send_byte :: u64
  drop_pempty_total :: u64
  drop_qfull_total :: u64
  drop_total :: u64
  g_config :: sim_config
  g_pool :: nat
  g_rank :: int
  g_alive :: u32
  g_dev_id :: int
  g_ready :: "nat \<Rightarrow> bool"

text \<open>A thread in its loop: its generator, \<^verbatim>\<open>next_thread_id\<close>, the packets and pools, the parsers, and
  \<^verbatim>\<open>global_loss->send_total\<close>.\<close>

type_synonym gen_state = "generator \<times> int \<times> world \<times> parser list \<times> u64"

section \<open>Filling the pool\<close>

type_synonym handler = "u8 list \<Rightarrow> sim_config \<Rightarrow> (u8 list \<times> sim_config) run"

definition set_pool :: "nat \<Rightarrow> nat intel_queue \<Rightarrow> world \<Rightarrow> world" where
  "set_pool i q w = w\<lparr>packet_pools := (packet_pools w)(i := q)\<rparr>"

definition set_packet :: "nat \<Rightarrow> packet \<Rightarrow> world \<Rightarrow> world" where
  "set_packet p pkt w = w\<lparr>packets := (packets w)(p := pkt)\<rparr>"

text \<open>\<^verbatim>\<open>while (mwsr_pool_enqueue(pool, packet) != 0) continue;\<close>\<close>

definition return_packet :: "nat \<Rightarrow> nat \<Rightarrow> world \<Rightarrow> world run" where
  "return_packet i p w =
     run_bind (spin_until (intel_enqueue LG2_CAPACITY (packet_pools w i) p)) (\<lambda>q. Ret (set_pool i q w))"

definition fill_packet :: "handler \<Rightarrow> nat \<Rightarrow> generator \<times> world \<Rightarrow> (generator \<times> world) run" where
  "fill_packet Handler p = (\<lambda>(g, w).
     let pkt = (packets w p)\<lparr>ppool := g_pool g, plength := word_of_int (pktlen (g_config g))\<rparr>;
         g1 = g\<lparr>g_ready := (g_ready g)(p := True)\<rparr>
     in run_bind (Handler (data pkt) (g_config g)) (\<lambda>(d, c).
        run_bind (return_packet (g_pool g) p (set_packet p (pkt\<lparr>data := d\<rparr>) w)) (\<lambda>w'.
        Ret (g1\<lparr>g_config := c\<rparr>, w'))))"

fun make_packets :: "handler \<Rightarrow> nat \<Rightarrow> generator \<times> world \<Rightarrow> (generator \<times> world) run" where
  "make_packets Handler 0 s = Ret s"
| "make_packets Handler (Suc n) (g, w) =
     (case intel_dequeue LG2_CAPACITY (packet_pools w (g_pool g)) of
        None \<Rightarrow> make_packets Handler n (g, w)
      | Some (p, q) \<Rightarrow> run_bind (fill_packet Handler p (g, set_pool (g_pool g) q w)) (make_packets Handler n))"

definition make_all_packet :: "handler \<Rightarrow> generator \<times> world \<Rightarrow> (generator \<times> world) run" where
  "make_all_packet Handler = make_packets Handler (2 ^ LG2_CAPACITY)"

fun clean_packets :: "nat \<Rightarrow> generator \<times> world \<Rightarrow> (generator \<times> world) run" where
  "clean_packets 0 s = Ret s"
| "clean_packets (Suc n) (g, w) =
     (case intel_dequeue LG2_CAPACITY (packet_pools w (g_pool g)) of
        None \<Rightarrow> clean_packets n (g, w)
      | Some (p, q) \<Rightarrow>
          run_bind (return_packet (g_pool g) p (set_pool (g_pool g) q w)) (\<lambda>w'.
          clean_packets n (g\<lparr>g_ready := (g_ready g)(p := True)\<rparr>, w')))"

definition make_clean_packet :: "generator \<times> world \<Rightarrow> (generator \<times> world) run" where
  "make_clean_packet = clean_packets (2 ^ LG2_CAPACITY)"

section \<open>Sending\<close>

text \<open>\<^verbatim>\<open>(next_thread_id + g_nums < p_nums) ? (next_thread_id + g_nums) : generator->index\<close>. The sum is one of
  \<^verbatim>\<open>int\<close>s; both are numbers of threads of one process, far below \<open>2 ^ 30\<close>, so that it is taken without a bound.\<close>

definition next_parser :: "sim_config \<Rightarrow> int \<Rightarrow> int \<Rightarrow> int" where
  "next_parser config index next =
     (if next + generator_nums config < parser_nums config then next + generator_nums config else index)"

text \<open>\<^verbatim>\<open>swsr_queue_enqueue(parser_group->parser[next].queue, packet)\<close>: an index outside the array is a fault.\<close>

definition send_to :: "int \<Rightarrow> nat \<Rightarrow> parser list \<Rightarrow> parser list run" where
  "send_to next p prs =
     (if next < 0 \<or> int (length prs) \<le> next then Fault
      else run_bind (spin_until (intel_enqueue LG2_CAPACITY (pqueue (prs ! nat next)) p)) (\<lambda>q.
           Ret (prs[nat next := (prs ! nat next)\<lparr>pqueue := q\<rparr>])))"

text \<open>The part that the generator and the two collectors share: on to the next parser, or, at pipeline
  depth 1, straight back into the pool.\<close>

definition hand_over :: "sim_config \<Rightarrow> nat \<Rightarrow> gen_state \<Rightarrow> gen_state run" where
  "hand_over gcfg p = (\<lambda>(g, next, w, prs, sent).
     if pipe_depth gcfg > 1
     then run_bind (send_to next p prs) (\<lambda>prs'.
          Ret (g, next_parser (g_config g) (g_index g) next, w, prs', sent))
     else run_bind (return_packet (ppool (packets w p)) p w) (\<lambda>w'. Ret (g, next, w', prs, sent)))"

text \<open>New ports and addresses in the packet.\<close>

definition renew_packet :: "u8 list \<Rightarrow> sim_config \<Rightarrow> (u8 list \<times> sim_config) run" where
  "renew_packet d config =
     (let (sp, c1) = GET_NEXT_SRCPORT config
      in run_bind (store16 d 36 (htons (ucast sp))) (\<lambda>d1.
         let (dp, c2) = GET_NEXT_DSTPORT c1
         in run_bind (store16 d1 38 (htons (ucast dp))) (\<lambda>d2.
            let (sa, c3) = GET_NEXT_SRCIP c2
            in run_bind (store32 d2 28 (htonl sa)) (\<lambda>d3.
               let (da, c4) = GET_NEXT_DSTIP c3
               in run_bind (store32 d3 32 (htonl da)) (\<lambda>d4. Ret (d4, c4))))))"

text \<open>One pass of the loop of \<^verbatim>\<open>packet_generator\<close>.\<close>

definition generator_pass :: "sim_config \<Rightarrow> gen_state \<Rightarrow> gen_state run" where
  "generator_pass gcfg = (\<lambda>(g, next, w, prs, sent).
     run_bind (spin_until (intel_dequeue LG2_CAPACITY (packet_pools w (g_pool g)))) (\<lambda>(p, q).
     let w1 = set_pool (g_pool g) q w
     in if \<not> g_ready g p then Fault
        else run_bind (renew_packet (data (packets w1 p)) (g_config g)) (\<lambda>(d, c).
             run_bind (hand_over gcfg p
                 (g\<lparr>g_config := c\<rparr>, next, set_packet p ((packets w1 p)\<lparr>data := d\<rparr>) w1, prs, sent))
               (\<lambda>(g', next', w', prs', sent').
             Ret (g'\<lparr>total_send_byte := total_send_byte g' + word_of_int (pktlen (g_config g')),
                    g_alive := g_alive g' + 1\<rparr>,
                  next', w', prs', sent' + word_of_int (pktlen (g_config g')))))))"

text \<open>\<^verbatim>\<open>while ((int64_t)new - (int64_t)generator->config->period < 0)\<close>: the loop that slows the sender down
  leaves when \<open>new\<close> cycles have passed.\<close>

definition delay_over :: "u32 \<Rightarrow> u64 \<Rightarrow> bool" where
  "delay_over per new \<longleftrightarrow> \<not> sint new - uint per < 0"

fun generator_passes :: "sim_config \<Rightarrow> nat \<Rightarrow> gen_state \<Rightarrow> gen_state run" where
  "generator_passes gcfg 0 s = Ret s"
| "generator_passes gcfg (Suc n) s = run_bind (generator_pass gcfg s) (generator_passes gcfg n)"

text \<open>
  \<^verbatim>\<open>packet_generator\<close>: its variable \<^verbatim>\<open>times\<close> never changes and the loop never ends; the model gives the
  state after \<open>n\<close> passes. Without a group of parsers the process exits.
\<close>

definition packet_generator ::
    "sim_config \<Rightarrow> handler \<Rightarrow> nat \<Rightarrow> generator \<Rightarrow> world \<Rightarrow> parser list option \<Rightarrow> u64 \<Rightarrow> gen_state run" where
  "packet_generator gcfg Handler n g w grp sent =
     (case grp of None \<Rightarrow> Exits 0
      | Some prs \<Rightarrow>
          run_bind (make_all_packet Handler (g, w)) (\<lambda>(g1, w1).
          generator_passes gcfg n (g1, g_index g1, w1, prs, sent)))"

text \<open>\<^verbatim>\<open>generator_mode\<close>; the process also exits for a protocol that is neither TCP nor UDP.\<close>

definition generator_mode ::
    "sim_config \<Rightarrow> nat \<Rightarrow> generator \<Rightarrow> world \<Rightarrow> parser list option \<Rightarrow> u64 \<Rightarrow> gen_state run" where
  "generator_mode gcfg n g w grp sent =
     (if cfg_protocol (g_config g) = 6 then packet_generator gcfg generator_tcp_packet n g w grp sent
      else if cfg_protocol (g_config g) = 17 then packet_generator gcfg generator_udp_packet n g w grp sent
      else Exits (- 1))"

section \<open>Collecting\<close>

text \<open>A frame of \<open>l2_length\<close> bytes at \<open>va\<close> is copied behind the two bytes of padding.\<close>

definition collect_frame :: "sim_config \<Rightarrow> u8 list \<Rightarrow> nat \<Rightarrow> gen_state \<Rightarrow> gen_state run" where
  "collect_frame gcfg va l2_length = (\<lambda>(g, next, w, prs, sent).
     run_bind (spin_until (intel_dequeue LG2_CAPACITY (packet_pools w (g_pool g)))) (\<lambda>(p, q).
     let w1 = set_pool (g_pool g) q w; pkt = (packets w1 p)\<lparr>ppool := g_pool g\<rparr>
     in if \<not> g_ready g p then Fault
        else run_bind (get_bytes va 0 l2_length) (\<lambda>frame.
             run_bind (put_bytes (data pkt) PAY_LEN frame) (\<lambda>d.
             run_bind (hand_over gcfg p
                 (g, next, set_packet p (pkt\<lparr>data := d, plength := of_nat l2_length\<rparr>) w1, prs, sent))
               (\<lambda>(g', next', w', prs', sent').
             Ret (g'\<lparr>total_send_byte := total_send_byte g' + of_nat l2_length, g_alive := g_alive g' + 1\<rparr>,
                  next', w', prs', sent'))))))"

text \<open>
  One pass of \<^verbatim>\<open>intel_packet_collector\<close>: \<open>va\<close> and \<open>l2_length\<close> are what the card's library returns
  (\<^verbatim>\<open>inac_get_l2_pkt\<close>, \<^verbatim>\<open>inac_get_l2_size\<close>), \<open>None\<close> for a NULL pointer.
\<close>

definition intel_collector_pass :: "sim_config \<Rightarrow> u8 list option \<Rightarrow> int \<Rightarrow> gen_state \<Rightarrow> gen_state run" where
  "intel_collector_pass gcfg va l2_length s =
     run_bind (case va of
         Some frame \<Rightarrow> if l2_length > 40 then collect_frame gcfg frame (nat l2_length) s else Ret s
       | None \<Rightarrow> Ret s)
       (\<lambda>(g, next, w, prs, sent). Ret (g\<lparr>g_alive := g_alive g + 1\<rparr>, next, w, prs, sent))"

text \<open>
  One pass of \<^verbatim>\<open>tilera_packet_collector\<close>; the functions of the card's library are arguments: the peek
  at the queue \<open>iq\<close>, dropping a descriptor that is bad, its address and length, giving back its
  buffer, and removing it from the queue.
\<close>

definition tilera_collector_pass ::
    "('i \<Rightarrow> 'd option) \<Rightarrow> ('i \<Rightarrow> 'd \<Rightarrow> bool \<times> 'i) \<Rightarrow> ('d \<Rightarrow> u8 list) \<Rightarrow> ('d \<Rightarrow> u32) \<Rightarrow> ('i \<Rightarrow> 'd \<Rightarrow> 'i) \<Rightarrow> ('i \<Rightarrow> 'd \<Rightarrow> 'i)
      \<Rightarrow> sim_config \<Rightarrow> 'i \<times> gen_state \<Rightarrow> ('i \<times> gen_state) run" where
  "tilera_collector_pass try_peek drop_if_bad get_va get_l2_length iqueue_drop consume gcfg = (\<lambda>(iq, s).
     case try_peek iq of None \<Rightarrow> Ret (iq, s)
     | Some idesc \<Rightarrow>
         let (bad, iq1) = drop_if_bad iq idesc
         in if bad then Ret (consume iq1 idesc, s)
            else run_bind (collect_frame gcfg (get_va idesc) (unat (get_l2_length idesc)) s) (\<lambda>s'.
                 Ret (consume (iqueue_drop iq1 idesc) idesc, s')))"

section \<open>Initialisation\<close>

text \<open>\<open>room p\<close> are the bytes behind the struct of packet \<open>p\<close> in the fresh buffer; the packets of generator \<open>i\<close>
  are \<open>base, \<dots>, base + 1023\<close>.\<close>

fun fill_packet_pool :: "nat \<Rightarrow> nat \<Rightarrow> nat \<Rightarrow> world \<Rightarrow> world" where
  "fill_packet_pool i base 0 w = w"
| "fill_packet_pool i base (Suc j) w =
     (let w1 = fill_packet_pool i base j w
      in case intel_enqueue LG2_CAPACITY (packet_pools w1 i) (base + j) of
           None \<Rightarrow> w1 | Some q \<Rightarrow> set_pool i q w1)"

text \<open>\<^verbatim>\<open>sizeof(packet_t)\<close> on a 64-bit platform: two pointers, an \<^verbatim>\<open>unsigned int\<close> and its padding.\<close>

definition SIZEOF_PACKET :: int where "SIZEOF_PACKET = 24"

text \<open>
  The size of a packet with its bytes: the sum of the two \<^verbatim>\<open>int\<close>s is an \<^verbatim>\<open>int\<close>, the sum with \<^verbatim>\<open>sizeof\<close> is cut to one.
  The buffer of the pool takes 1024 of them, in \<^verbatim>\<open>int\<close> arithmetic. An item without room for the struct
  would share its memory with the next one, or lie outside the buffer: a fault.
\<close>

definition packet_item_size :: "sim_config \<Rightarrow> int run" where
  "packet_item_size gcfg =
     run_bind (c_int (pktlen gcfg + int PAY_LEN)) (\<lambda>l. Ret (int_of_long (l + SIZEOF_PACKET)))"

definition init_signle_generator ::
    "sim_config \<Rightarrow> nat \<Rightarrow> nat list \<Rightarrow> (nat \<Rightarrow> nat \<Rightarrow> u8) \<Rightarrow> nat \<Rightarrow> nat \<Rightarrow> int \<Rightarrow> generator \<times> world \<Rightarrow> (generator \<times> world) run" where
  "init_signle_generator gcfg null junk room base i dev_id = (\<lambda>(g, w).
     let w1 = set_pool i (intel_init LG2_CAPACITY null junk) w; pool_size = 1024
     in run_bind (packet_item_size gcfg) (\<lambda>item_size.
        run_bind (c_int (pool_size * item_size)) (\<lambda>bytes.
        run_bind (malloc_or_exit bytes) (\<lambda>_.
        if item_size < SIZEOF_PACKET then Fault
        else let w2 = w1\<lparr>packets := \<lambda>p.
                   if base \<le> p \<and> p < base + nat pool_size
                   then (packets w1 p)\<lparr>data := map (room p) [0..<nat (item_size - SIZEOF_PACKET)]\<rparr> else packets w1 p\<rparr>
             in Ret (g\<lparr>g_pool := i, g_config := gcfg, g_index := int i, g_next_thread_id := 0, total_send_byte := 0,
                       g_rank := int i, g_dev_id := dev_id, g_ready := \<lambda>_. False\<rparr>,
                     fill_packet_pool i base (nat pool_size) w2)))))"

fun init_generators ::
    "sim_config \<Rightarrow> nat \<Rightarrow> nat list \<Rightarrow> (nat \<Rightarrow> nat \<Rightarrow> u8) \<Rightarrow> int \<Rightarrow> generator \<Rightarrow> nat \<Rightarrow> generator list \<times> world
      \<Rightarrow> (generator list \<times> world) run" where
  "init_generators gcfg null junk room dev_id g0 0 s = Ret s"
| "init_generators gcfg null junk room dev_id g0 (Suc n) s =
     run_bind (init_generators gcfg null junk room dev_id g0 n s) (\<lambda>(gs, w).
     run_bind (init_signle_generator gcfg null junk room (1024 * n) n dev_id (g0, w)) (\<lambda>(g, w').
     Ret (gs @ [g], w')))"

text \<open>
  \<open>inac_open\<close> is what opening the card returns, its result and the device. \<open>None\<close>: the group exists and
  the code returns NULL; when the card cannot be opened the process exits.
\<close>

definition init_generator_group ::
    "sim_config \<Rightarrow> int \<times> int \<Rightarrow> nat \<Rightarrow> nat list \<Rightarrow> (nat \<Rightarrow> nat \<Rightarrow> u8) \<Rightarrow> generator \<Rightarrow> generator list option \<times> world
      \<Rightarrow> (generator list \<times> world) option run" where
  "init_generator_group cfg inac_open null junk room g0 = (\<lambda>(grp, w).
     case grp of Some gs \<Rightarrow> Ret None
     | None \<Rightarrow>
         let numbers = generator_nums cfg
         in run_bind (malloc_or_exit numbers) (\<lambda>_.
            run_bind (if packet_generator_mode cfg = 0
                      then let (result, dev_id) = inac_open in if result \<noteq> 0 then Exits (- 2) else Ret dev_id
                      else Ret (- 1)) (\<lambda>dev_id.
            run_bind (init_generators cfg null junk room dev_id g0 (nat numbers) ([], w)) (\<lambda>s. Ret (Some s)))))"

section \<open>Whose turn it is\<close>

text \<open>The number of parsers that generator \<open>i\<close> serves.\<close>

definition served :: "sim_config \<Rightarrow> int \<Rightarrow> int" where
  "served c i = (parser_nums c - 1 - i) div generator_nums c + 1"

lemma le_zdiv_iff: "0 < (g::int) \<Longrightarrow> x \<le> a div g \<longleftrightarrow> g * x \<le> a"
proof
  assume g: "0 < g" and "x \<le> a div g"
  then have "g * x \<le> g * (a div g)" by simp
  also have "\<dots> \<le> a" using pos_mod_sign [OF g, of a] mult_div_mod_eq [of g a] by linarith
  finally show "g * x \<le> a" .
next
  assume g: "0 < g" and "g * x \<le> a"
  then have "(g * x) div g \<le> a div g" by (intro zdiv_mono1)
  then show "x \<le> a div g" using g by simp
qed

lemma served_pos: "0 < generator_nums c \<Longrightarrow> i < parser_nums c \<Longrightarrow> 0 < served c i"
  unfolding served_def using le_zdiv_iff [of "generator_nums c" 0 "parser_nums c - 1 - i"] by simp

lemma turn_eq:
  assumes "0 < generator_nums c" "i < parser_nums c"
  shows "(next_parser c i ^^ k) i = i + generator_nums c * (int k mod served c i)"
proof (induction k)
  case (Suc k)
  let ?G = "generator_nums c" and ?m = "served c i" and ?r = "int k mod served c i"
  have r: "0 \<le> ?r" "?r < ?m" using served_pos [OF assms] by simp_all
  have "i + ?G * ?r + ?G < parser_nums c \<longleftrightarrow> ?G * (?r + 1) \<le> parser_nums c - 1 - i"
    unfolding distrib_left by linarith
  then have lt: "i + ?G * ?r + ?G < parser_nums c \<longleftrightarrow> ?r + 1 < ?m"
    unfolding le_zdiv_iff [OF assms(1), symmetric] served_def by linarith
  have "int (Suc k) mod ?m = (?r + 1) mod ?m" by (simp add: mod_add_right_eq add.commute)
  then have s: "int (Suc k) mod ?m = (if ?r + 1 < ?m then ?r + 1 else 0)"
    using r by (cases "?r + 1 = ?m") auto
  have "(next_parser c i ^^ Suc k) i = next_parser c i (i + ?G * ?r)" by (simp add: Suc)
  also have "\<dots> = i + ?G * (if ?r + 1 < ?m then ?r + 1 else 0)"
    unfolding next_parser_def using lt by (auto simp: distrib_left)
  finally show ?case unfolding s .
qed simp

text \<open>A generator beyond the last parser keeps its index.\<close>

lemma turn_surplus:
  assumes "0 < generator_nums c" "parser_nums c \<le> i"
  shows "(next_parser c i ^^ k) i = i"
  using assms by (induction k) (auto simp: next_parser_def)

lemma turn_bounds:
  assumes "0 < generator_nums c" "0 \<le> i" "i < parser_nums c"
  shows "0 \<le> (next_parser c i ^^ k) i" "(next_parser c i ^^ k) i < parser_nums c"
proof -
  let ?r = "int k mod served c i"
  have r: "0 \<le> ?r" "?r + 1 \<le> served c i" using served_pos [OF assms(1,3)] by (auto simp: zless_imp_add1_zle)
  then have "generator_nums c * ?r \<le> parser_nums c - 1 - i"
    using le_zdiv_iff [OF assms(1), of ?r "parser_nums c - 1 - i"] by (simp add: served_def)
  then show "0 \<le> (next_parser c i ^^ k) i" "(next_parser c i ^^ k) i < parser_nums c"
    unfolding turn_eq [OF assms(1,3)] using assms r by simp_all
qed

lemma turn_mod:
  assumes "0 < generator_nums c" "0 \<le> i" "i < generator_nums c"
  shows "(next_parser c i ^^ k) i mod generator_nums c = i"
proof (cases "i < parser_nums c")
  case True
  then show ?thesis using assms by (simp add: turn_eq)
qed (use assms in \<open>simp add: turn_surplus\<close>)

lemma turn_reaches:
  assumes "0 < generator_nums c" "0 \<le> r" "r < parser_nums c"
  shows "\<exists>k. (next_parser c (r mod generator_nums c) ^^ k) (r mod generator_nums c) = r"
proof -
  let ?G = "generator_nums c" and ?i = "r mod generator_nums c"
  have i: "0 \<le> ?i" "?i \<le> r" using assms zmod_le_nonneg_dividend by simp_all
  have d: "?i + ?G * (r div ?G) = r" by simp
  have q: "0 \<le> r div ?G" using assms by (simp add: pos_imp_zdiv_nonneg_iff)
  have "?G * (r div ?G) \<le> parser_nums c - 1 - ?i" using d assms(3) by linarith
  then have "r div ?G < served c ?i" using le_zdiv_iff [OF assms(1)] by (simp add: served_def)
  then have "int (nat (r div ?G)) mod served c ?i = r div ?G" using q by simp
  then have "(next_parser c ?i ^^ nat (r div ?G)) ?i = r"
    using turn_eq [OF assms(1), of ?i "nat (r div ?G)"] i assms(3) d by simp
  then show ?thesis by blast
qed

section \<open>What one pass does\<close>

text \<open>A TCP packet with new ports and addresses, otherwise as before.\<close>

definition renewed :: "sim_config \<Rightarrow> u8 list \<Rightarrow> u8 list \<Rightarrow> bool" where
  "renewed c d d' \<longleftrightarrow> length d' = length d \<and> tcp_shape d'
     \<and> src_ip d' = htonl (fst (GET_NEXT_SRCIP c)) \<and> dst_ip d' = htonl (fst (GET_NEXT_DSTIP c))
     \<and> src_port d' = htons (ucast (fst (GET_NEXT_SRCPORT c))) \<and> dst_port d' = htons (ucast (fst (GET_NEXT_DSTPORT c)))
     \<and> drop 56 d' = drop 56 d"

lemma same_outside_nth:
  assumes "same_outside d d' lo hi" "i < lo \<or> hi \<le> i" "i < length d"
  shows "d' ! i = d ! i"
  using same_outside_loads(1) [OF assms(1), of i] assms(2,3) same_outside_length [OF assms(1)]
  by (auto simp: loads Suc_le_eq)

lemma same_outside_drop:
  assumes "same_outside d d' lo hi" "hi \<le> i"
  shows "drop i d' = drop i d"
  by (rule nth_equalityI) (use assms in \<open>auto simp: same_outside_length same_outside_nth\<close>)

lemma renew_packet_ok:
  assumes "tcp_shape d" "56 \<le> length d"
  shows "\<exists>d'. renew_packet d c = Ret (d', next_config c) \<and> renewed c d d'"
proof -
  obtain c1 c2 c3 where nx: "GET_NEXT_SRCPORT c = (fst (GET_NEXT_SRCPORT c), c1)"
    "GET_NEXT_DSTPORT c1 = (fst (GET_NEXT_DSTPORT c), c2)" "GET_NEXT_SRCIP c2 = (fst (GET_NEXT_SRCIP c), c3)"
    "GET_NEXT_DSTIP c3 = (fst (GET_NEXT_DSTIP c), next_config c)" using next_steps by blast
  let ?sp = "htons (ucast (fst (GET_NEXT_SRCPORT c)))" and ?dp = "htons (ucast (fst (GET_NEXT_DSTPORT c)))"
  obtain d1 where d1: "store16 d 36 ?sp = Ret d1" "same_outside d d1 28 40"
    using store_in(2) [of 28 36 2 40 d ?sp] assms(2) by auto
  have l1: "40 \<le> length d1" using d1(2) assms(2) same_outside_length by force
  obtain d2 where d2: "store16 d1 38 ?dp = Ret d2" "same_outside d1 d2 28 40"
    using store_in(2) [of 28 38 2 40 d1 ?dp] l1 by auto
  have l2: "40 \<le> length d2" using d2(2) l1 same_outside_length by metis
  obtain d3 where d3: "store32 d2 28 (htonl (fst (GET_NEXT_SRCIP c))) = Ret d3" "same_outside d2 d3 28 40"
    using store_in(3) [of 28 28 4 40 d2] l2 by auto
  have l3: "40 \<le> length d3" using d3(2) l2 same_outside_length by metis
  obtain d4 where d4: "store32 d3 32 (htonl (fst (GET_NEXT_DSTIP c))) = Ret d4" "same_outside d3 d4 28 40"
    using store_in(3) [of 28 32 4 40 d3] l3 by auto
  have run: "renew_packet d c = Ret (d4, next_config c)"
    unfolding renew_packet_def
    by (subst nx(1)) (simp only: Let_def prod.case d1(1) run_bind.simps nx(2-4) d2(1) d3(1) d4(1))
  have so: "same_outside d d4 28 40" using d1(2) d2(2) d3(2) d4(2) by (meson same_outside_trans)
  note s2 = same_outside_stores(2) [OF d2(1)] and s3 = same_outside_stores(3) [OF d3(1)]
    and s4 = same_outside_stores(3) [OF d4(1)]
  have ld: "load16 d4 36 = Ret ?sp" "load16 d4 38 = Ret ?dp"
    "load32 d4 28 = Ret (htonl (fst (GET_NEXT_SRCIP c)))" "load32 d4 32 = Ret (htonl (fst (GET_NEXT_DSTIP c)))"
    using load_store(2) [OF d1(1)] load_store(2) [OF d2(1)] load_store(3) [OF d3(1)] load_store(3) [OF d4(1)]
      same_outside_loads [OF s2] same_outside_loads [OF s3] same_outside_loads [OF s4] by simp_all
  have l4: "length d4 = length d" using so by (rule same_outside_length)
  have b: "d4 ! 16 = d ! 16" "d4 ! 25 = d ! 25" "d4 ! 48 = d ! 48"
    using same_outside_nth [OF so] assms(2) by simp_all
  have l4d: "l4_at d = 36" using assms(1) by (simp add: tcp_shape_def l4_at_def)
  have "ip_hdr_len d4 = ip_hdr_len d" "l4_at d4 = l4_at d" using b(1) by (simp_all add: ip_hdr_len_def l4_at_def)
  then have "tcp_shape d4" "l4_at d4 = 36"
    using assms(1) b l4 l4d unfolding tcp_shape_def headers_inside_def tcp_hdr_len_def by simp_all
  then have "renewed c d d4"
    using l4 ld fields_of_loads(1) [OF ld(3)] fields_of_loads(2) [OF ld(4)] fields_of_loads(4,5) [of d4]
      same_outside_drop [OF so, of 56] by (simp add: renewed_def)
  with run show ?thesis by blast
qed

text \<open>A queue that can take one more object.\<close>

definition has_room :: "nat \<Rightarrow> nat intel_queue \<Rightarrow> bool" where
  "has_room n q \<longleftrightarrow> intel_inv LG2_CAPACITY q \<and> length (intel_list LG2_CAPACITY q) + n \<le> 2 ^ LG2_CAPACITY"

lemma send_to_ok:
  assumes "0 \<le> next" "next < int (length prs)" "has_room 1 (pqueue (prs ! nat next))"
  obtains q where "send_to next p prs = Ret (prs[nat next := (prs ! nat next)\<lparr>pqueue := q\<rparr>])"
    "intel_inv LG2_CAPACITY q" "intel_list LG2_CAPACITY q = intel_list LG2_CAPACITY (pqueue (prs ! nat next)) @ [p]"
    "dequeue_count q = dequeue_count (pqueue (prs ! nat next))"
proof -
  have q: "intel_inv LG2_CAPACITY (pqueue (prs ! nat next))"
    "length (intel_list LG2_CAPACITY (pqueue (prs ! nat next))) < 2 ^ LG2_CAPACITY"
    using assms(3) by (auto simp: has_room_def)
  obtain q' where q': "intel_enqueue LG2_CAPACITY (pqueue (prs ! nat next)) p = Some q'" "intel_inv LG2_CAPACITY q'"
    "intel_list LG2_CAPACITY q' = intel_list LG2_CAPACITY (pqueue (prs ! nat next)) @ [p]"
    by (rule iq.enq_room [OF q])
  have "send_to next p prs = Ret (prs[nat next := (prs ! nat next)\<lparr>pqueue := q'\<rparr>])"
    using assms(1,2) by (simp add: send_to_def q'(1))
  with q'(2,3) intel_enqueue_dequeue_count [OF q'(1)] that show thesis by blast
qed

definition counted :: "sim_config \<Rightarrow> generator \<Rightarrow> generator" where
  "counted c g = g\<lparr>g_config := c, total_send_byte := total_send_byte g + word_of_int (pktlen c), g_alive := g_alive g + 1\<rparr>"

lemma next_config_fixed [simp]:
  "pktlen (next_config c) = pktlen c" "generator_nums (next_config c) = generator_nums c"
  "parser_nums (next_config c) = parser_nums c"
  by (simp_all add: next_config_def)

lemma next_parser_cong [simp]: "next_parser (next_config c) = next_parser c"
  by (intro ext) (simp add: next_parser_def)

lemma generator_pass_ok:
  assumes "1 < pipe_depth gcfg" "intel_inv LG2_CAPACITY (packet_pools w (g_pool g))"
    and "intel_list LG2_CAPACITY (packet_pools w (g_pool g)) = p # free"
    and "g_ready g p" "tcp_shape (data (packets w p))" "56 \<le> length (data (packets w p))"
    and "0 \<le> next" "next < int (length prs)" "has_room 1 (pqueue (prs ! nat next))"
  shows "\<exists>d q r. generator_pass gcfg (g, next, w, prs, sent) =
      Ret (counted (next_config (g_config g)) g, next_parser (g_config g) (g_index g) next,
           set_packet p ((packets w p)\<lparr>data := d\<rparr>) (set_pool (g_pool g) q w),
           prs[nat next := (prs ! nat next)\<lparr>pqueue := r\<rparr>], sent + word_of_int (pktlen (g_config g)))
    \<and> renewed (g_config g) (data (packets w p)) d
    \<and> intel_inv LG2_CAPACITY q \<and> intel_list LG2_CAPACITY q = free
    \<and> intel_inv LG2_CAPACITY r \<and> intel_list LG2_CAPACITY r = intel_list LG2_CAPACITY (pqueue (prs ! nat next)) @ [p]
    \<and> dequeue_count r = dequeue_count (pqueue (prs ! nat next))"
proof -
  obtain q where q: "intel_dequeue LG2_CAPACITY (packet_pools w (g_pool g)) = Some (p, q)"
    "intel_inv LG2_CAPACITY q" "intel_list LG2_CAPACITY q = free"
    by (rule iq.deq_nonempty [OF assms(2,3)])
  obtain d where d: "renew_packet (data (packets w p)) (g_config g) = Ret (d, next_config (g_config g))"
    "renewed (g_config g) (data (packets w p)) d" using renew_packet_ok [OF assms(5,6)] by blast
  obtain r where r: "send_to next p prs = Ret (prs[nat next := (prs ! nat next)\<lparr>pqueue := r\<rparr>])"
    "intel_inv LG2_CAPACITY r" "intel_list LG2_CAPACITY r = intel_list LG2_CAPACITY (pqueue (prs ! nat next)) @ [p]"
    "dequeue_count r = dequeue_count (pqueue (prs ! nat next))"
    by (rule send_to_ok [OF assms(7-9)])
  have e: "packets (set_pool i x w) = packets w" for i x by (simp add: set_pool_def)
  have "generator_pass gcfg (g, next, w, prs, sent) =
      Ret (counted (next_config (g_config g)) g, next_parser (g_config g) (g_index g) next,
           set_packet p ((packets w p)\<lparr>data := d\<rparr>) (set_pool (g_pool g) q w),
           prs[nat next := (prs ! nat next)\<lparr>pqueue := r\<rparr>], sent + word_of_int (pktlen (g_config g)))"
    using assms(1,4) by (simp add: generator_pass_def hand_over_def q(1) e d(1) r(1) counted_def Let_def)
  with d(2) q(2,3) r(2-4) show ?thesis by blast
qed

text \<open>Otherwise the generator waits: for a packet, or for room in the queue of the parser.\<close>

lemma generator_starved:
  assumes "intel_list LG2_CAPACITY (packet_pools w (g_pool g)) = []"
  shows "generator_pass gcfg (g, next, w, prs, sent) = Spin"
proof -
  have "intel_dequeue LG2_CAPACITY (packet_pools w (g_pool g)) = None" using assms intel_dequeue_None by blast
  then show ?thesis by (simp add: generator_pass_def)
qed

lemma generator_blocked:
  assumes "1 < pipe_depth gcfg" "intel_inv LG2_CAPACITY (packet_pools w (g_pool g))"
    and "intel_list LG2_CAPACITY (packet_pools w (g_pool g)) = p # free"
    and "g_ready g p" "tcp_shape (data (packets w p))" "56 \<le> length (data (packets w p))"
    and "0 \<le> next" "next < int (length prs)" "intel_inv LG2_CAPACITY (pqueue (prs ! nat next))"
    and "\<not> has_room 1 (pqueue (prs ! nat next))"
  shows "generator_pass gcfg (g, next, w, prs, sent) = Spin"
proof -
  obtain q where q: "intel_dequeue LG2_CAPACITY (packet_pools w (g_pool g)) = Some (p, q)"
    "intel_inv LG2_CAPACITY q" "intel_list LG2_CAPACITY q = free"
    by (rule iq.deq_nonempty [OF assms(2,3)])
  obtain d where d: "renew_packet (data (packets w p)) (g_config g) = Ret (d, next_config (g_config g))"
    using renew_packet_ok [OF assms(5,6)] by blast
  have "2 ^ LG2_CAPACITY \<le> length (intel_list LG2_CAPACITY (pqueue (prs ! nat next)))"
    using assms(9,10) unfolding has_room_def by (simp only: simp_thms not_le Suc_eq_plus1 [symmetric] less_Suc_eq_le)
  then have "intel_enqueue LG2_CAPACITY (pqueue (prs ! nat next)) p = None"
    by (rule iffD2 [OF intel_enqueue_None [OF LG2_CAPACITY_less]])
  then have s: "send_to next p prs = Spin" using assms(7,8) by (simp add: send_to_def)
  have e: "packets (set_pool i x w) = packets w" for i x by (simp add: set_pool_def)
  show ?thesis using assms(1,4) by (simp add: generator_pass_def hand_over_def q(1) e d s Let_def)
qed

section \<open>What many passes do\<close>

lemma generator_passes_Suc:
  "generator_passes gcfg (Suc n) s = run_bind (generator_passes gcfg n s) (generator_pass gcfg)"
proof (induction n arbitrary: s)
  case (Suc n)
  have "generator_passes gcfg (Suc (Suc n)) s = run_bind (generator_pass gcfg s) (generator_passes gcfg (Suc n))"
    by simp
  also have "\<dots> = run_bind (generator_pass gcfg s) (\<lambda>s'. run_bind (generator_passes gcfg n s') (generator_pass gcfg))"
    by (cases "generator_pass gcfg s") (simp_all only: run_bind.simps Suc)
  finally show ?case by (simp add: run_bind_assoc)
next
  case 0
  show ?case by (cases "generator_pass gcfg s") simp_all
qed

text \<open>The packets a generator can send: distinct, filled in, with a TCP header.\<close>

definition stocked :: "generator \<Rightarrow> world \<Rightarrow> bool" where
  "stocked g w \<longleftrightarrow> intel_inv LG2_CAPACITY (packet_pools w (g_pool g))
     \<and> distinct (intel_list LG2_CAPACITY (packet_pools w (g_pool g)))
     \<and> (\<forall>p\<in>set (intel_list LG2_CAPACITY (packet_pools w (g_pool g))).
          g_ready g p \<and> tcp_shape (data (packets w p)) \<and> 56 \<le> length (data (packets w p)))"

abbreviation pool_list :: "generator \<Rightarrow> world \<Rightarrow> nat list" where
  "pool_list g w \<equiv> intel_list LG2_CAPACITY (packet_pools w (g_pool g))"

abbreviation queue_list :: "parser \<Rightarrow> nat list" where
  "queue_list pr \<equiv> intel_list LG2_CAPACITY (pqueue pr)"

text \<open>The packets among the first \<open>n\<close> that go to parser \<open>r\<close>, and the configuration before the \<open>k\<close>-th pass.\<close>

definition sent_to :: "generator \<Rightarrow> nat list \<Rightarrow> nat \<Rightarrow> nat \<Rightarrow> nat list" where
  "sent_to g ps n r =
     map (\<lambda>k. ps ! k) (filter (\<lambda>k. (next_parser (g_config g) (g_index g) ^^ k) (g_index g) = int r) [0..<n])"

definition config_at :: "generator \<Rightarrow> nat \<Rightarrow> sim_config" where
  "config_at g k = (next_config ^^ k) (g_config g)"

lemma config_at_fixed [simp]:
  "pktlen (config_at g k) = pktlen (g_config g)" "next_parser (config_at g k) = next_parser (g_config g)"
  by (induction k) (simp_all add: config_at_def)

lemma config_at_nums:
  "generator_nums (config_at g k) = generator_nums (g_config g)" "parser_nums (config_at g k) = parser_nums (g_config g)"
  by (induction k) (simp_all add: config_at_def)

lemma config_at_Suc: "next_config (config_at g k) = config_at g (Suc k)"
  by (simp add: config_at_def)

lemma sent_to_Suc:
  "sent_to g ps (Suc n) r = sent_to g ps n r
     @ (if (next_parser (g_config g) (g_index g) ^^ n) (g_index g) = int r then [ps ! n] else [])"
  by (simp add: sent_to_def)

text \<open>The state after \<open>n\<close> passes from \<open>(g, w, prs, sent)\<close>.\<close>

definition after_passes :: "nat \<Rightarrow> generator \<Rightarrow> world \<Rightarrow> parser list \<Rightarrow> u64 \<Rightarrow> gen_state \<Rightarrow> bool" where
  "after_passes n g w prs sent = (\<lambda>(g', nxt, w', prs', sent').
     nxt = (next_parser (g_config g) (g_index g) ^^ n) (g_index g)
     \<and> g_config g' = config_at g n \<and> g_pool g' = g_pool g \<and> g_ready g' = g_ready g \<and> g_index g' = g_index g
     \<and> total_send_byte g' = total_send_byte g + of_nat n * word_of_int (pktlen (g_config g))
     \<and> sent' = sent + of_nat n * word_of_int (pktlen (g_config g))
     \<and> intel_inv LG2_CAPACITY (packet_pools w' (g_pool g)) \<and> pool_list g w' = drop n (pool_list g w)
     \<and> (\<forall>k<n. renewed (config_at g k) (data (packets w (pool_list g w ! k))) (data (packets w' (pool_list g w ! k))))
     \<and> (\<forall>p. p \<notin> set (take n (pool_list g w)) \<longrightarrow> packets w' p = packets w p)
     \<and> (\<forall>p. plength (packets w' p) = plength (packets w p) \<and> ppool (packets w' p) = ppool (packets w p))
     \<and> length prs' = length prs
     \<and> (\<forall>r<length prs. intel_inv LG2_CAPACITY (pqueue (prs' ! r))
          \<and> queue_list (prs' ! r) = queue_list (prs ! r) @ sent_to g (pool_list g w) n r))"

lemma after_passesD:
  assumes "after_passes n g w prs sent (g1, nxt, w1, prs1, sent1)"
  shows "nxt = (next_parser (g_config g) (g_index g) ^^ n) (g_index g)" "g_config g1 = config_at g n"
    "g_pool g1 = g_pool g" "g_ready g1 = g_ready g" "g_index g1 = g_index g"
    "total_send_byte g1 = total_send_byte g + of_nat n * word_of_int (pktlen (g_config g))"
    "sent1 = sent + of_nat n * word_of_int (pktlen (g_config g))"
    "intel_inv LG2_CAPACITY (packet_pools w1 (g_pool g))" "pool_list g w1 = drop n (pool_list g w)" "length prs1 = length prs"
    "plength (packets w1 p) = plength (packets w p)" "ppool (packets w1 p) = ppool (packets w p)"
    and "k < n \<Longrightarrow> renewed (config_at g k) (data (packets w (pool_list g w ! k))) (data (packets w1 (pool_list g w ! k)))"
    and "p \<notin> set (take n (pool_list g w)) \<Longrightarrow> packets w1 p = packets w p"
    and "r < length prs \<Longrightarrow> intel_inv LG2_CAPACITY (pqueue (prs1 ! r))"
    and "r < length prs \<Longrightarrow> queue_list (prs1 ! r) = queue_list (prs ! r) @ sent_to g (pool_list g w) n r"
  using assms by (simp_all add: after_passes_def)

lemma after_update:
  assumes A: "after_passes n g w prs sent (g1, nxt, w1, prs1, sent1)"
    and n: "n < length (pool_list g w)" and st: "stocked g w" and nx: "0 \<le> nxt" "nxt < int (length prs)"
  defines "p \<equiv> pool_list g w ! n"
  assumes d: "renewed (config_at g n) (data (packets w p)) d"
    and q: "intel_inv LG2_CAPACITY q" "intel_list LG2_CAPACITY q = drop (Suc n) (pool_list g w)"
    and r: "intel_inv LG2_CAPACITY r" "intel_list LG2_CAPACITY r = queue_list (prs1 ! nat nxt) @ [p]"
  shows "after_passes (Suc n) g w prs sent (counted (next_config (config_at g n)) g1, next_parser (g_config g) (g_index g) nxt,
    set_packet p ((packets w1 p)\<lparr>data := d\<rparr>) (set_pool (g_pool g) q w1),
    prs1[nat nxt := (prs1 ! nat nxt)\<lparr>pqueue := r\<rparr>], sent1 + word_of_int (pktlen (g_config g)))"
proof -
  let ?ps = "pool_list g w" and ?prs = "prs1[nat nxt := (prs1 ! nat nxt)\<lparr>pqueue := r\<rparr>]"
  let ?w = "set_packet p ((packets w1 p)\<lparr>data := d\<rparr>) (set_pool (g_pool g) q w1)"
  note D = after_passesD [OF A]
  have ni: "nat nxt < length prs" using nx by linarith
  have dist: "distinct ?ps" using st by (simp add: stocked_def)
  have w: "packets ?w x = (if x = p then (packets w1 p)\<lparr>data := d\<rparr> else packets w1 x)" "packet_pools ?w (g_pool g) = q" for x
    by (simp_all add: set_packet_def set_pool_def)
  have turn: "(next_parser (g_config g) (g_index g) ^^ n) (g_index g) = int j \<longleftrightarrow> nat nxt = j" for j
    unfolding D(1) [symmetric] using nx(1) by linarith
  have "renewed (config_at g k) (data (packets w (?ps ! k))) (data (packets ?w (?ps ! k)))" if "k < Suc n" for k
    using D(13) [of k] d that dist n unfolding w unfolding p_def by (cases "k = n") (auto simp: nth_eq_iff_index_eq)
  moreover have "packets ?w x = packets w x" if "x \<notin> set (take (Suc n) ?ps)" for x
    using D(14) [of x] that n unfolding w unfolding p_def by (auto simp: take_Suc_conv_app_nth)
  moreover have "plength (packets ?w x) = plength (packets w x) \<and> ppool (packets ?w x) = ppool (packets w x)" for x
    unfolding w using D(11,12) by simp
  moreover have "intel_inv LG2_CAPACITY (pqueue (?prs ! j)) \<and> queue_list (?prs ! j) = queue_list (prs ! j) @ sent_to g ?ps (Suc n) j"
    if "j < length prs" for j
    using D(15,16) [OF that] D(16) [OF ni] r that D(10) turn [of j] unfolding p_def
    by (cases "j = nat nxt") (simp_all add: sent_to_Suc)
  ultimately show ?thesis
    using D(1-10) q w(2) unfolding after_passes_def by (simp add: counted_def config_at_Suc algebra_simps)
qed

lemma after_step:
  assumes A: "after_passes n g w prs sent (g1, nxt, w1, prs1, sent1)"
    and n: "n < length (pool_list g w)" and st: "stocked g w" and depth: "1 < pipe_depth gcfg"
    and nums: "0 < generator_nums (g_config g)" "0 \<le> g_index g" "g_index g < parser_nums (g_config g)"
      "parser_nums (g_config g) \<le> int (length prs)"
    and room: "\<forall>r<length prs. has_room (length (sent_to g (pool_list g w) (Suc n) r)) (pqueue (prs ! r))"
  shows "\<exists>s. generator_pass gcfg (g1, nxt, w1, prs1, sent1) = Ret s \<and> after_passes (Suc n) g w prs sent s"
proof -
  let ?ps = "pool_list g w" and ?c = "config_at g n"
  let ?p = "?ps ! n"
  note D = after_passesD [OF A]
  have nx: "0 \<le> nxt" "nxt < int (length prs)"
    unfolding D(1) using turn_bounds [OF nums(1-3), of n] nums(4) by linarith+
  have ni: "nat nxt < length prs" using nx by linarith
  have turn: "(next_parser (g_config g) (g_index g) ^^ n) (g_index g) = int (nat nxt)"
    unfolding D(1) [symmetric] using nx(1) by linarith
  have new: "?p \<notin> set (take n ?ps)"
    using st n by (auto simp: stocked_def in_set_conv_nth nth_eq_iff_index_eq)
  have p: "g_ready g ?p" "tcp_shape (data (packets w ?p))" "56 \<le> length (data (packets w ?p))"
    using st n by (auto simp: stocked_def)
  have "has_room 1 (pqueue (prs1 ! nat nxt))"
    using room [rule_format, OF ni] D(15,16) [OF ni] turn
    unfolding has_room_def sent_to_Suc by (simp del: length_intel_list)
  from generator_pass_ok [of gcfg w1 g1 ?p "drop (Suc n) ?ps" nxt prs1 sent1, OF depth] this D(1-10) p D(14) [OF new] nx
  obtain d q r where
    run: "generator_pass gcfg (g1, nxt, w1, prs1, sent1) = Ret (counted (next_config ?c) g1,
        next_parser (g_config g) (g_index g) nxt, set_packet ?p ((packets w1 ?p)\<lparr>data := d\<rparr>) (set_pool (g_pool g) q w1),
        prs1[nat nxt := (prs1 ! nat nxt)\<lparr>pqueue := r\<rparr>], sent1 + word_of_int (pktlen (g_config g)))"
    and res: "renewed ?c (data (packets w ?p)) d" "intel_inv LG2_CAPACITY q" "intel_list LG2_CAPACITY q = drop (Suc n) ?ps"
      "intel_inv LG2_CAPACITY r" "intel_list LG2_CAPACITY r = queue_list (prs1 ! nat nxt) @ [?p]"
    using n by (auto simp: Cons_nth_drop_Suc [symmetric])
  from after_update [OF A n st nx res] run show ?thesis by blast
qed

lemma generator_passes_ok:
  assumes "stocked g w" "1 < pipe_depth gcfg" "n \<le> length (pool_list g w)"
    and "0 < generator_nums (g_config g)" "0 \<le> g_index g" "g_index g < parser_nums (g_config g)"
      "parser_nums (g_config g) \<le> int (length prs)"
    and "\<forall>r<length prs. has_room (length (sent_to g (pool_list g w) n r)) (pqueue (prs ! r))"
  shows "\<exists>s. generator_passes gcfg n (g, g_index g, w, prs, sent) = Ret s \<and> after_passes n g w prs sent s"
  using assms(3,8)
proof (induction n)
  case 0
  then show ?case using assms(1)
    by (simp add: after_passes_def config_at_def stocked_def sent_to_def has_room_def)
next
  case (Suc n)
  have "has_room (length (sent_to g (pool_list g w) n r)) (pqueue (prs ! r))" if "r < length prs" for r
    using Suc.prems(2) that unfolding sent_to_Suc has_room_def by fastforce
  with Suc obtain s where s: "generator_passes gcfg n (g, g_index g, w, prs, sent) = Ret s" "after_passes n g w prs sent s"
    by (auto simp del: generator_passes.simps)
  obtain g1 nxt w1 prs1 sent1 where e: "s = (g1, nxt, w1, prs1, sent1)" by (cases s) auto
  have "n < length (pool_list g w)" using Suc.prems(1) by simp
  from after_step [OF s(2) [unfolded e] this assms(1,2,4-7) Suc.prems(2)] s(1) show ?case
    unfolding generator_passes_Suc e by simp
qed

section \<open>Filling the pool\<close>

lemma tcp_ready_next [simp]: "tcp_ready (next_config c) str = tcp_ready c str"
  by (simp add: tcp_ready_def next_config_def)

lemma tcp_ready_at [simp]: "tcp_ready (config_at g k) str = tcp_ready (g_config g) str"
  by (induction k) (simp_all add: config_at_def)

text \<open>A packet of generator \<open>g\<close> built under the configuration of its \<open>k\<close>-th turn.\<close>

definition built :: "generator \<Rightarrow> u8 list \<Rightarrow> nat \<Rightarrow> packet \<Rightarrow> bool" where
  "built g str k pkt \<longleftrightarrow> generated (config_at g k) str (data pkt)
     \<and> ppool pkt = g_pool g \<and> plength pkt = word_of_int (pktlen (g_config g))"

lemma fill_packet_ok:
  assumes "tcp_ready (g_config g) str" "length (data (packets w p)) = nat (pktlen (g_config g)) + 2"
    and "has_room 1 (packet_pools w (g_pool g))"
  shows "\<exists>d q. fill_packet generator_tcp_packet p (g, w) =
      Ret (g\<lparr>g_ready := (g_ready g)(p := True), g_config := next_config (g_config g)\<rparr>,
           set_pool (g_pool g) q (set_packet p ((packets w p)\<lparr>ppool := g_pool g,
             plength := word_of_int (pktlen (g_config g)), data := d\<rparr>) w))
    \<and> generated (g_config g) str d \<and> intel_inv LG2_CAPACITY q \<and> intel_list LG2_CAPACITY q = pool_list g w @ [p]"
proof -
  obtain d where d: "generator_tcp_packet (data (packets w p)) (g_config g) = Ret (d, next_config (g_config g))"
    "generated (g_config g) str d" using generator_tcp_packet_next [OF assms(1,2)] by blast
  have q: "intel_inv LG2_CAPACITY (packet_pools w (g_pool g))" "length (pool_list g w) < 2 ^ LG2_CAPACITY"
    using assms(3) by (auto simp: has_room_def)
  obtain q where q: "intel_enqueue LG2_CAPACITY (packet_pools w (g_pool g)) p = Some q" "intel_inv LG2_CAPACITY q"
    "intel_list LG2_CAPACITY q = pool_list g w @ [p]" by (rule iq.enq_room [OF q])
  have "packet_pools (set_packet p x w) = packet_pools w" for x by (simp add: set_packet_def)
  then have "fill_packet generator_tcp_packet p (g, w) =
      Ret (g\<lparr>g_ready := (g_ready g)(p := True), g_config := next_config (g_config g)\<rparr>,
           set_pool (g_pool g) q (set_packet p ((packets w p)\<lparr>ppool := g_pool g,
             plength := word_of_int (pktlen (g_config g)), data := d\<rparr>) w))"
    by (simp add: fill_packet_def return_packet_def Let_def d(1) q(1))
  with d(2) q(2,3) show ?thesis by blast
qed

text \<open>One round: the packet at the front is built and goes to the end.\<close>

definition build_in :: "generator \<Rightarrow> nat \<Rightarrow> u8 list \<Rightarrow> nat intel_queue \<Rightarrow> world \<Rightarrow> world" where
  "build_in g p d q w = set_pool (g_pool g) q (set_packet p ((packets w p)\<lparr>ppool := g_pool g,
     plength := word_of_int (pktlen (g_config g)), data := d\<rparr>) w)"

lemma build_in_simps [simp]:
  "packet_pools (build_in g p d q w) = (packet_pools w)(g_pool g := q)"
  "packets (build_in g p d q w) = (packets w)(p := (packets w p)\<lparr>ppool := g_pool g,
     plength := word_of_int (pktlen (g_config g)), data := d\<rparr>)"
  "flows (build_in g p d q w) = flows w" "flow_pools (build_in g p d q w) = flow_pools w"
  by (simp_all add: build_in_def set_pool_def set_packet_def)

lemma make_packets_step:
  assumes "tcp_ready (g_config g) str" "intel_inv LG2_CAPACITY (packet_pools w (g_pool g))" "pool_list g w = x # rest"
    and "length (data (packets w x)) = nat (pktlen (g_config g)) + 2"
  shows "\<exists>d r. make_packets generator_tcp_packet (Suc n) (g, w) = make_packets generator_tcp_packet n
      (g\<lparr>g_ready := (g_ready g)(x := True), g_config := next_config (g_config g)\<rparr>, build_in g x d r w)
    \<and> generated (g_config g) str d \<and> intel_inv LG2_CAPACITY r \<and> intel_list LG2_CAPACITY r = rest @ [x]"
proof -
  obtain q where q: "intel_dequeue LG2_CAPACITY (packet_pools w (g_pool g)) = Some (x, q)"
    "intel_inv LG2_CAPACITY q" "intel_list LG2_CAPACITY q = rest" by (rule iq.deq_nonempty [OF assms(2,3)])
  let ?w = "set_pool (g_pool g) q w"
  have w: "packets ?w = packets w" "packet_pools ?w (g_pool g) = q" by (simp_all add: set_pool_def)
  have "length (x # rest) \<le> 2 ^ LG2_CAPACITY" using iq.bounded [OF assms(2)] unfolding assms(3) .
  then have "has_room 1 (packet_pools ?w (g_pool g))" unfolding w has_room_def using q(2) unfolding q(3) by simp
  from fill_packet_ok [OF assms(1) _ this, of x] assms(4) obtain d r where
    "fill_packet generator_tcp_packet x (g, ?w) =
      Ret (g\<lparr>g_ready := (g_ready g)(x := True), g_config := next_config (g_config g)\<rparr>,
           set_pool (g_pool g) r (set_packet x ((packets w x)\<lparr>ppool := g_pool g,
             plength := word_of_int (pktlen (g_config g)), data := d\<rparr>) ?w))"
    "generated (g_config g) str d" "intel_inv LG2_CAPACITY r" "intel_list LG2_CAPACITY r = rest @ [x]"
    unfolding w q(3) by auto
  then show ?thesis
    by (intro exI [of _ d] exI [of _ r]) (simp add: q(1) build_in_def set_pool_def set_packet_def)
qed

text \<open>After \<open>n\<close> rounds the first \<open>n\<close> packets are built and have moved to the end of the pool.\<close>

lemma make_packets_ok:
  assumes "tcp_ready (g_config g) str" "intel_inv LG2_CAPACITY (packet_pools w (g_pool g))"
    and "pool_list g w = xs @ ys" "distinct (xs @ ys)"
    and "\<forall>p\<in>set (xs @ ys). length (data (packets w p)) = nat (pktlen (g_config g)) + 2"
  shows "\<exists>g' w'. make_packets generator_tcp_packet (length xs) (g, w) = Ret (g', w')
    \<and> g' = g\<lparr>g_ready := \<lambda>p. g_ready g p \<or> p \<in> set xs, g_config := config_at g (length xs)\<rparr>
    \<and> intel_inv LG2_CAPACITY (packet_pools w' (g_pool g)) \<and> pool_list g w' = ys @ xs
    \<and> (\<forall>k<length xs. built g str k (packets w' (xs ! k)))
    \<and> (\<forall>p. p \<notin> set xs \<longrightarrow> packets w' p = packets w p)
    \<and> (\<forall>i. i \<noteq> g_pool g \<longrightarrow> packet_pools w' i = packet_pools w i) \<and> flows w' = flows w \<and> flow_pools w' = flow_pools w"
  using assms
proof (induction xs arbitrary: g w ys)
  case Nil
  then show ?case by (simp add: config_at_def)
next
  case (Cons x xs)
  have pl: "pool_list g w = x # (xs @ ys)" using Cons.prems(3) by simp
  define g1 where "g1 = g\<lparr>g_ready := (g_ready g)(x := True), g_config := next_config (g_config g)\<rparr>"
  from make_packets_step [OF Cons.prems(1,2) pl, of "length xs"] Cons.prems(5) obtain d r
    where step: "make_packets generator_tcp_packet (length (x # xs)) (g, w)
        = make_packets generator_tcp_packet (length xs) (g1, build_in g x d r w)"
      and d: "generated (g_config g) str d" "intel_inv LG2_CAPACITY r" "intel_list LG2_CAPACITY r = xs @ (ys @ [x])"
    by (auto simp: g1_def)
  let ?w1 = "build_in g x d r w"
  have g1: "g_config g1 = next_config (g_config g)" "g_pool g1 = g_pool g" by (simp_all add: g1_def)
  have x: "x \<notin> set xs" "x \<notin> set ys" using Cons.prems(4) by auto
  have at: "config_at g1 k = config_at g (Suc k)" for k
    unfolding config_at_def g1 by (simp only: funpow_Suc_right o_apply)
  have "pool_list g1 ?w1 = xs @ (ys @ [x])" "distinct (xs @ (ys @ [x]))"
    "\<forall>p\<in>set (xs @ (ys @ [x])). length (data (packets ?w1 p)) = nat (pktlen (g_config g1)) + 2"
    using Cons.prems(4,5) d(1,3) g1 x by (auto simp: generated_def)
  from Cons.IH [of g1 ?w1 "ys @ [x]", OF _ _ this] Cons.prems(1) d(2) g1
  obtain g' w' where R: "make_packets generator_tcp_packet (length xs) (g1, ?w1) = Ret (g', w')"
    "g' = g1\<lparr>g_ready := \<lambda>p. g_ready g1 p \<or> p \<in> set xs, g_config := config_at g1 (length xs)\<rparr>"
    "intel_inv LG2_CAPACITY (packet_pools w' (g_pool g1))" "pool_list g1 w' = (ys @ [x]) @ xs"
    "\<forall>k<length xs. built g1 str k (packets w' (xs ! k))" "\<forall>p. p \<notin> set xs \<longrightarrow> packets w' p = packets ?w1 p"
    "\<forall>i. i \<noteq> g_pool g1 \<longrightarrow> packet_pools w' i = packet_pools ?w1 i" "flows w' = flows w" "flow_pools w' = flow_pools w" by auto
  have "built g str k (packets w' ((x # xs) ! k))" if "k < length (x # xs)" for k
    using R(5,6) x(1) d(1) that g1 by (cases k) (auto simp: built_def at config_at_def [of g 0])
  moreover have "g' = g\<lparr>g_ready := \<lambda>p. g_ready g p \<or> p \<in> set (x # xs), g_config := config_at g (length (x # xs))\<rparr>"
    unfolding R(2) at by (auto simp: g1_def fun_eq_iff)
  ultimately show ?case unfolding step using R(1,3,4,6-9) g1(2) by (intro exI [of _ g'] exI [of _ w']) auto
qed

lemma clean_packets_ok:
  assumes "intel_inv LG2_CAPACITY (packet_pools w (g_pool g))" "pool_list g w = xs @ ys"
  shows "\<exists>w'. clean_packets (length xs) (g, w) = Ret (g\<lparr>g_ready := \<lambda>p. g_ready g p \<or> p \<in> set xs\<rparr>, w')
    \<and> intel_inv LG2_CAPACITY (packet_pools w' (g_pool g)) \<and> pool_list g w' = ys @ xs \<and> packets w' = packets w"
  using assms
proof (induction xs arbitrary: g w ys)
  case (Cons x xs)
  have pl: "pool_list g w = x # (xs @ ys)" using Cons.prems(2) by simp
  obtain q where q: "intel_dequeue LG2_CAPACITY (packet_pools w (g_pool g)) = Some (x, q)"
    "intel_inv LG2_CAPACITY q" "intel_list LG2_CAPACITY q = xs @ ys"
    by (rule iq.deq_nonempty [OF Cons.prems(1) pl])
  have "length (x # (xs @ ys)) \<le> 2 ^ LG2_CAPACITY" using iq.bounded [OF Cons.prems(1)] unfolding pl .
  then have "length (intel_list LG2_CAPACITY q) < 2 ^ LG2_CAPACITY" unfolding q(3) by simp
  then obtain r where r: "intel_enqueue LG2_CAPACITY q x = Some r" "intel_inv LG2_CAPACITY r"
    "intel_list LG2_CAPACITY r = intel_list LG2_CAPACITY q @ [x]" by (rule iq.enq_room [OF q(2)])
  let ?g = "g\<lparr>g_ready := (g_ready g)(x := True)\<rparr>"
  define w1 where "w1 = set_pool (g_pool g) r (set_pool (g_pool g) q w)"
  have w1: "packet_pools w1 (g_pool ?g) = r" "packets w1 = packets w" by (simp_all add: w1_def set_pool_def)
  have "pool_list ?g w1 = xs @ (ys @ [x])" unfolding w1 r(3) q(3) by simp
  from Cons.IH [OF _ this] r(2) w1 obtain w'
    where R: "clean_packets (length xs) (?g, w1) = Ret (?g\<lparr>g_ready := \<lambda>p. g_ready ?g p \<or> p \<in> set xs\<rparr>, w')"
      "intel_inv LG2_CAPACITY (packet_pools w' (g_pool ?g))" "pool_list ?g w' = (ys @ [x]) @ xs" "packets w' = packets w1"
    by auto
  have "packet_pools (set_pool (g_pool g) q w) (g_pool g) = q" by (simp add: set_pool_def)
  then have "clean_packets (length (x # xs)) (g, w) = clean_packets (length xs) (?g, w1)"
    by (simp add: q(1) return_packet_def r(1) w1_def)
  moreover have "?g\<lparr>g_ready := \<lambda>p. g_ready ?g p \<or> p \<in> set xs\<rparr> = g\<lparr>g_ready := \<lambda>p. g_ready g p \<or> p \<in> set (x # xs)\<rparr>"
    by (auto simp: fun_eq_iff)
  ultimately show ?case using R w1(2) by simp
qed simp

section \<open>Initialisation\<close>

lemma fill_packet_pool_result:
  assumes "intel_inv LG2_CAPACITY (packet_pools w i)" "intel_list LG2_CAPACITY (packet_pools w i) = []"
    and "n \<le> 2 ^ LG2_CAPACITY"
  shows "intel_inv LG2_CAPACITY (packet_pools (fill_packet_pool i base n w) i)
    \<and> intel_list LG2_CAPACITY (packet_pools (fill_packet_pool i base n w) i) = [base..<base + n]
    \<and> packets (fill_packet_pool i base n w) = packets w
    \<and> (\<forall>k. k \<noteq> i \<longrightarrow> packet_pools (fill_packet_pool i base n w) k = packet_pools w k)
    \<and> flows (fill_packet_pool i base n w) = flows w \<and> flow_pools (fill_packet_pool i base n w) = flow_pools w"
  using assms(3)
proof (induction n)
  case (Suc n)
  let ?w = "fill_packet_pool i base n w"
  have IH: "intel_inv LG2_CAPACITY (packet_pools ?w i)" "intel_list LG2_CAPACITY (packet_pools ?w i) = [base..<base + n]"
    "packets ?w = packets w" "\<forall>k. k \<noteq> i \<longrightarrow> packet_pools ?w k = packet_pools w k" "flows ?w = flows w"
    "flow_pools ?w = flow_pools w" using Suc by auto
  have "length (intel_list LG2_CAPACITY (packet_pools ?w i)) < 2 ^ LG2_CAPACITY" unfolding IH(2) using Suc.prems by simp
  then obtain q where q: "intel_enqueue LG2_CAPACITY (packet_pools ?w i) (base + n) = Some q"
    "intel_inv LG2_CAPACITY q" "intel_list LG2_CAPACITY q = intel_list LG2_CAPACITY (packet_pools ?w i) @ [base + n]"
    by (rule iq.enq_room [OF IH(1)])
  have "fill_packet_pool i base (Suc n) w = set_pool i q ?w" by (simp add: Let_def q(1))
  then show ?case using q(2,3) IH(2-6) by (simp add: set_pool_def)
qed (use assms in simp)

text \<open>The packets fit the \<^verbatim>\<open>int\<close> that holds the size of their buffer.\<close>

definition pool_fits :: "sim_config \<Rightarrow> bool" where
  "pool_fits gcfg \<longleftrightarrow> 0 \<le> pktlen gcfg \<and> 1024 * (pktlen gcfg + 26) < 2 ^ 31"

lemma item_size_fits:
  assumes "pool_fits gcfg"
  shows "packet_item_size gcfg = Ret (pktlen gcfg + 26)" "c_int (1024 * (pktlen gcfg + 26)) = Ret (1024 * (pktlen gcfg + 26))"
    "malloc_or_exit (1024 * (pktlen gcfg + 26)) = Ret ()"
proof -
  have l: "0 \<le> pktlen gcfg" "pktlen gcfg < 2 ^ 21" using assms by (simp_all add: pool_fits_def)
  then have "int_of_long (pktlen gcfg + 26) = pktlen gcfg + 26" by (intro int_of_long_small) simp_all
  then show "packet_item_size gcfg = Ret (pktlen gcfg + 26)"
    using l by (simp add: packet_item_size_def c_int_def int_range_def PAY_LEN_def SIZEOF_PACKET_def add.assoc)
  show "c_int (1024 * (pktlen gcfg + 26)) = Ret (1024 * (pktlen gcfg + 26))" "malloc_or_exit (1024 * (pktlen gcfg + 26)) = Ret ()"
    using assms by (simp_all add: pool_fits_def int_range_def)
qed

lemma item_size_overflows:
  assumes "2 ^ 31 \<le> 1024 * (pktlen gcfg + 26)"
  shows "run_bind (packet_item_size gcfg) (\<lambda>s. run_bind (c_int (1024 * s)) (f s)) = Fault"
proof -
  have "\<not> int_range (1024 * int_of_long (pktlen gcfg + 26))" if "int_range (pktlen gcfg + 2)"
  proof (cases "pktlen gcfg + 26 < 2 ^ 31")
    case True
    then have "int_of_long (pktlen gcfg + 26) = pktlen gcfg + 26" using assms by (intro int_of_long_small) simp_all
    then show ?thesis using assms by (simp add: int_range_def)
  next
    case False
    have "int_of_long (pktlen gcfg + 26) = pktlen gcfg + 26 - 2 ^ 32"
      by (rule int_of_long_wraps) (use False that in \<open>simp_all add: int_range_def\<close>)
    then show ?thesis using that by (simp add: int_range_def)
  qed
  then show ?thesis by (simp add: packet_item_size_def c_int_def PAY_LEN_def SIZEOF_PACKET_def add.assoc)
qed

lemma init_signle_generator_runs:
  assumes "pool_fits gcfg"
  shows "\<exists>g w. init_signle_generator gcfg null junk room base i dev_id (g0, w0) = Ret (g, w)"
  using assms item_size_fits [OF assms] by (simp add: init_signle_generator_def pool_fits_def SIZEOF_PACKET_def Let_def)

lemma init_signle_generator_too_large:
  assumes "2 ^ 31 \<le> 1024 * (pktlen gcfg + 26)"
  shows "init_signle_generator gcfg null junk room base i dev_id (g0, w0) = Fault"
  using item_size_overflows [OF assms] by (simp add: init_signle_generator_def Let_def)

lemma init_signle_generator_fits:
  assumes "init_signle_generator gcfg null junk room base i dev_id (g0, w0) = Ret s" "0 \<le> pktlen gcfg"
  shows "pool_fits gcfg"
proof -
  have "\<not> 2 ^ 31 \<le> 1024 * (pktlen gcfg + 26)"
  proof
    assume "2 ^ 31 \<le> 1024 * (pktlen gcfg + 26)"
    from init_signle_generator_too_large [OF this] assms(1) show False by simp
  qed
  then show ?thesis using assms(2) by (simp add: pool_fits_def)
qed

lemma init_signle_generator_Ret:
  assumes "pool_fits gcfg" "init_signle_generator gcfg null junk room base i dev_id (g0, w0) = Ret (g, w)"
  shows "g_config g = gcfg \<and> g_index g = int i \<and> g_pool g = i \<and> total_send_byte g = 0
    \<and> w = fill_packet_pool i base 1024 ((set_pool i (intel_init LG2_CAPACITY null junk) w0)\<lparr>packets := \<lambda>p.
           if base \<le> p \<and> p < base + 1024
           then (packets w0 p)\<lparr>data := map (room p) [0..<nat (pktlen gcfg) + 2]\<rparr> else packets w0 p\<rparr>)"
proof -
  have l: "0 \<le> pktlen gcfg" using assms(1) by (simp add: pool_fits_def)
  then have n: "nat (pktlen gcfg + 26 - SIZEOF_PACKET) = nat (pktlen gcfg) + 2" "\<not> pktlen gcfg + 26 < SIZEOF_PACKET"
    by (simp_all add: SIZEOF_PACKET_def)
  have p: "packets (set_pool i q w0) = packets w0" for q by (simp add: set_pool_def)
  have "Ret (g, w) = Ret (g0\<lparr>g_pool := i, g_config := gcfg, g_index := int i, g_next_thread_id := 0, total_send_byte := 0,
       g_rank := int i, g_dev_id := dev_id, g_ready := \<lambda>_. False\<rparr>,
     fill_packet_pool i base 1024 ((set_pool i (intel_init LG2_CAPACITY null junk) w0)\<lparr>packets := \<lambda>p.
           if base \<le> p \<and> p < base + 1024
           then (packets w0 p)\<lparr>data := map (room p) [0..<nat (pktlen gcfg) + 2]\<rparr> else packets w0 p\<rparr>))"
    unfolding assms(2) [symmetric] init_signle_generator_def Let_def prod.case item_size_fits [OF assms(1)] run_bind.simps
    using n(2) by (simp only: p n(1) if_False nat_numeral)
  then show ?thesis by simp
qed

lemma init_signle_generator_ok:
  assumes "pool_fits gcfg" "length junk = 2 ^ LG2_CAPACITY"
    "init_signle_generator gcfg null junk room base i dev_id (g0, w0) = Ret (g, w)"
  shows "g_config g = gcfg \<and> g_index g = int i \<and> g_pool g = i \<and> total_send_byte g = 0
    \<and> intel_inv LG2_CAPACITY (packet_pools w i) \<and> pool_list g w = [base..<base + 1024]
    \<and> (\<forall>p\<in>set [base..<base + 1024]. length (data (packets w p)) = nat (pktlen gcfg) + 2)
    \<and> (\<forall>k. k \<noteq> i \<longrightarrow> packet_pools w k = packet_pools w0 k) \<and> (\<forall>p. p < base \<longrightarrow> packets w p = packets w0 p)
    \<and> flows w = flows w0 \<and> flow_pools w = flow_pools w0"
proof -
  have I: "intel_inv LG2_CAPACITY (intel_init LG2_CAPACITY null junk)
      \<and> intel_list LG2_CAPACITY (intel_init LG2_CAPACITY null junk) = []"
    by (rule intel_init_inv) (simp_all add: LG2_CAPACITY_def assms(2) [unfolded LG2_CAPACITY_def])
  let ?w1 = "set_pool i (intel_init LG2_CAPACITY null junk) w0"
  let ?w2 = "?w1\<lparr>packets := \<lambda>p.
           if base \<le> p \<and> p < base + 1024
           then (packets w0 p)\<lparr>data := map (room p) [0..<nat (pktlen gcfg) + 2]\<rparr> else packets w0 p\<rparr>"
  have n: "1024 \<le> (2::nat) ^ LG2_CAPACITY" by (simp add: LG2_CAPACITY_def)
  have "intel_inv LG2_CAPACITY (packet_pools ?w2 i)" "intel_list LG2_CAPACITY (packet_pools ?w2 i) = []"
    using I by (simp_all add: set_pool_def)
  note F = fill_packet_pool_result [OF this n, of base]
  have w: "w = fill_packet_pool i base 1024 ?w2" and g: "g_config g = gcfg" "g_index g = int i" "g_pool g = i" "total_send_byte g = 0"
    using init_signle_generator_Ret [OF assms(1,3)] by blast+
  have "length (data (packets w p)) = nat (pktlen gcfg) + 2" if "p \<in> set [base..<base + 1024]" for p
    using F that unfolding w by auto
  moreover have "\<forall>k. k \<noteq> i \<longrightarrow> packet_pools w k = packet_pools w0 k" "\<forall>p. p < base \<longrightarrow> packets w p = packets w0 p"
    "flows w = flows w0" "flow_pools w = flow_pools w0"
    using F unfolding w by (simp_all add: set_pool_def)
  ultimately show ?thesis using F g unfolding w by auto
qed

text \<open>Every generator starts with a pool of 1024 packets of its own.\<close>

definition generator_fresh :: "sim_config \<Rightarrow> world \<Rightarrow> nat \<Rightarrow> generator \<Rightarrow> bool" where
  "generator_fresh gcfg w i g \<longleftrightarrow> g_config g = gcfg \<and> g_index g = int i \<and> g_pool g = i \<and> total_send_byte g = 0
     \<and> intel_inv LG2_CAPACITY (packet_pools w i) \<and> pool_list g w = [1024 * i..<1024 * i + 1024]
     \<and> (\<forall>p\<in>set [1024 * i..<1024 * i + 1024]. length (data (packets w p)) = nat (pktlen gcfg) + 2)"

lemma init_generators_runs:
  assumes "pool_fits gcfg"
  shows "\<exists>s'. init_generators gcfg null junk room dev g0 n s = Ret s'"
proof (induction n)
  case (Suc n)
  then obtain gs w where "init_generators gcfg null junk room dev g0 n s = Ret (gs, w)" by auto
  then show ?case using init_signle_generator_runs [OF assms, of null junk room "1024 * n" n dev g0 w] by auto
qed simp

lemma init_generators_fresh:
  assumes "pool_fits gcfg" "length junk = 2 ^ LG2_CAPACITY" "init_generators gcfg null junk room dev g0 n ([], w) = Ret (gs, w')"
  shows "length gs = n \<and> (\<forall>i<n. generator_fresh gcfg w' i (gs ! i)) \<and> flows w' = flows w \<and> flow_pools w' = flow_pools w"
  using assms(3)
proof (induction n arbitrary: gs w')
  case (Suc n)
  then obtain gs1 w1 g w2 where p: "init_generators gcfg null junk room dev g0 n ([], w) = Ret (gs1, w1)"
    and q: "init_signle_generator gcfg null junk room (1024 * n) n dev (g0, w1) = Ret (g, w2)"
    and e: "gs = gs1 @ [g]" "w' = w2" by auto
  note IH = Suc.IH [OF p] and S = init_signle_generator_ok [OF assms(1,2) q]
  have "generator_fresh gcfg w' i (gs1 ! i)" if i: "i < n" for i
  proof -
    have "p < 1024 * n" if "p \<in> set [1024 * i..<1024 * i + 1024]" for p using i that by auto
    then have "packets w2 p = packets w1 p" if "p \<in> set [1024 * i..<1024 * i + 1024]" for p using S that by blast
    moreover have "packet_pools w2 i = packet_pools w1 i" using S i by auto
    ultimately show ?thesis using IH i unfolding generator_fresh_def e(2) by metis
  qed
  moreover have "generator_fresh gcfg w' n g" using S unfolding generator_fresh_def e(2) by blast
  ultimately show ?case using IH S unfolding e by (auto simp: nth_append less_Suc_eq)
qed simp

text \<open>A generator that has filled its pool can send every packet of it.\<close>

lemma make_all_packet_stocks:
  assumes "tcp_ready (g_config g) str" "intel_inv LG2_CAPACITY (packet_pools w (g_pool g))"
    and "pool_list g w = ps" "length ps = 2 ^ LG2_CAPACITY" "distinct ps"
    and "\<forall>p\<in>set ps. length (data (packets w p)) = nat (pktlen (g_config g)) + 2"
  shows "\<exists>g' w'. make_all_packet generator_tcp_packet (g, w) = Ret (g', w')
    \<and> g' = g\<lparr>g_ready := \<lambda>p. g_ready g p \<or> p \<in> set ps, g_config := config_at g (2 ^ LG2_CAPACITY)\<rparr>
    \<and> pool_list g' w' = ps \<and> stocked g' w' \<and> (\<forall>k<length ps. built g str k (packets w' (ps ! k)))
    \<and> (\<forall>p. p \<notin> set ps \<longrightarrow> packets w' p = packets w p)
    \<and> (\<forall>i. i \<noteq> g_pool g \<longrightarrow> packet_pools w' i = packet_pools w i) \<and> flows w' = flows w \<and> flow_pools w' = flow_pools w"
proof -
  from make_packets_ok [OF assms(1,2), of ps "[]"] assms(3-6) obtain g' w'
    where R: "make_packets generator_tcp_packet (2 ^ LG2_CAPACITY) (g, w) = Ret (g', w')"
      "g' = g\<lparr>g_ready := \<lambda>p. g_ready g p \<or> p \<in> set ps, g_config := config_at g (2 ^ LG2_CAPACITY)\<rparr>"
      "intel_inv LG2_CAPACITY (packet_pools w' (g_pool g))" "pool_list g w' = ps"
      "\<forall>k<length ps. built g str k (packets w' (ps ! k))" "\<forall>p. p \<notin> set ps \<longrightarrow> packets w' p = packets w p"
      "\<forall>i. i \<noteq> g_pool g \<longrightarrow> packet_pools w' i = packet_pools w i" "flows w' = flows w" "flow_pools w' = flow_pools w" by auto
  have l: "54 \<le> pktlen (g_config g)" using assms(1) by (simp add: tcp_ready_def)
  have "tcp_shape (data (packets w' p)) \<and> 56 \<le> length (data (packets w' p))" if "p \<in> set ps" for p
  proof -
    from that obtain k where "k < length ps" "ps ! k = p" by (auto simp: in_set_conv_nth)
    then have "generated (config_at g k) str (data (packets w' p))" using R(5) by (auto simp: built_def)
    then show ?thesis using l by (auto simp: generated_def)
  qed
  then have "stocked g' w'" using R(2-4) assms(5) by (simp add: stocked_def)
  with R show ?thesis by (simp add: make_all_packet_def)
qed

lemma delay_over_iff: "unat new < 2 ^ 63 \<Longrightarrow> delay_over per new \<longleftrightarrow> unat per \<le> unat new"
proof -
  assume "unat new < 2 ^ 63"
  then have "int (unat new) < int (2 ^ 63)" by (simp only: of_nat_less_iff)
  then have "uint new < 2 ^ 63" by (simp only: uint_nat of_nat_power of_nat_numeral)
  then have "sint new = uint new"
    unfolding sint_uint by (intro signed_take_bit_int_eq_self) (simp_all add: order_trans [OF _ uint_ge_0])
  then show ?thesis unfolding delay_over_def uint_nat by linarith
qed

text \<open>From the initialisation to the start of the sending loop.\<close>

lemma generator_starts:
  assumes "tcp_ready gcfg str" "length junk = 2 ^ LG2_CAPACITY"
    and "init_signle_generator gcfg null junk room base i dev_id (g0, w0) = Ret (g, w)"
  shows "\<exists>g1 w1. make_all_packet generator_tcp_packet (g, w) = Ret (g1, w1) \<and> g_config g = gcfg
    \<and> g_config g1 = config_at g 1024 \<and> g_index g1 = int i \<and> total_send_byte g1 = 0
    \<and> pool_list g1 w1 = [base..<base + 1024] \<and> stocked g1 w1
    \<and> (\<forall>k<1024. built g str k (packets w1 (base + k))) \<and> g_pool g = i"
proof -
  have fits: "pool_fits gcfg" using init_signle_generator_fits [OF assms(3)] assms(1) by (simp add: tcp_ready_def)
  have I: "g_config g = gcfg" "g_index g = int i" "g_pool g = i" "total_send_byte g = 0"
    "intel_inv LG2_CAPACITY (packet_pools w i)" "pool_list g w = [base..<base + 1024]"
    "\<forall>p\<in>set [base..<base + 1024]. length (data (packets w p)) = nat (pktlen gcfg) + 2"
    using init_signle_generator_ok [OF fits assms(2,3)] by blast+
  have cap: "(2::nat) ^ LG2_CAPACITY = 1024" by (simp add: LG2_CAPACITY_def)
  from make_all_packet_stocks [of g str w "[base..<base + 1024]"] assms(1) I cap obtain g1 w1
    where M: "make_all_packet generator_tcp_packet (g, w) = Ret (g1, w1)"
      "g1 = g\<lparr>g_ready := \<lambda>p. g_ready g p \<or> p \<in> set [base..<base + 1024], g_config := config_at g 1024\<rparr>"
      "pool_list g1 w1 = [base..<base + 1024]" "stocked g1 w1"
      "\<forall>k<1024. built g str k (packets w1 ([base..<base + 1024] ! k))" by auto
  then have "\<forall>k<1024. built g str k (packets w1 (base + k))" by simp
  with M I show ?thesis by (intro exI [of _ g1] exI [of _ w1]) simp
qed

section \<open>Properties\<close>

text \<open>C18. Every parser is served by exactly one generator: for each parser there is exactly one generator
  whose turns reach it, whatever the numbers of generators and parsers. The parsers' queues are
  single-sender queues, and this is what makes their use of the enqueue operation sound.\<close>

theorem one_sender_per_parser:
  assumes "0 < generator_nums c" "0 \<le> r" "r < parser_nums c"
  shows "\<exists>!i. 0 \<le> i \<and> i < generator_nums c \<and> (\<exists>k. (next_parser c i ^^ k) i = r)"
proof (rule ex1I [of _ "r mod generator_nums c"])
  show "0 \<le> r mod generator_nums c \<and> r mod generator_nums c < generator_nums c
    \<and> (\<exists>k. (next_parser c (r mod generator_nums c) ^^ k) (r mod generator_nums c) = r)"
    using turn_reaches [OF assms] assms(1) by simp
next
  fix i
  assume "0 \<le> i \<and> i < generator_nums c \<and> (\<exists>k. (next_parser c i ^^ k) i = r)"
  then show "i = r mod generator_nums c" using turn_mod [OF assms(1), of i] by auto
qed

theorem one_sender_per_parser_witness:
  "\<exists>!i. 0 \<le> i \<and> i < 3 \<and> (\<exists>k. (next_parser (demo_cfg\<lparr>generator_nums := 3, parser_nums := 8\<rparr>) i ^^ k) i = 7)"
  using one_sender_per_parser [of "demo_cfg\<lparr>generator_nums := 3, parser_nums := 8\<rparr>" 7] by simp

text \<open>The sending loop from the initialisation: what is sent, to whom, and what the packets then are.\<close>

lemma generator_mode_result:
  assumes "tcp_ready gcfg str" "cfg_protocol gcfg = 6" "1 < pipe_depth gcfg" "length junk = 2 ^ LG2_CAPACITY"
    and "0 < generator_nums gcfg" "int i < parser_nums gcfg" "parser_nums gcfg \<le> int (length prs)"
    and "\<forall>pr\<in>set prs. intel_inv LG2_CAPACITY (pqueue pr) \<and> queue_list pr = []" "n \<le> 1024"
    and "init_signle_generator gcfg null junk room base i dev_id (g0, w0) = Ret (g, w)"
  shows "\<exists>g' nxt w' prs' sent'. generator_mode gcfg n g w (Some prs) sent = Ret (g', nxt, w', prs', sent')
    \<and> pool_list g' w' = [base + n..<base + 1024]
    \<and> (\<forall>r<length prs. queue_list (prs' ! r) =
         map (\<lambda>k. base + k) (filter (\<lambda>k. (next_parser gcfg (int i) ^^ k) (int i) = int r) [0..<n]))
    \<and> (\<forall>k<n. \<exists>d. generated (config_at g k) str d \<and> renewed (config_at g (k + 1024)) d (data (packets w' (base + k))))
    \<and> (\<forall>k<n. plength (packets w' (base + k)) = word_of_int (pktlen gcfg) \<and> ppool (packets w' (base + k)) = i)
    \<and> total_send_byte g' = of_nat n * word_of_int (pktlen gcfg)
    \<and> sent' = sent + of_nat n * word_of_int (pktlen gcfg)"
proof -
  obtain g1 w1 where M: "make_all_packet generator_tcp_packet (g, w) = Ret (g1, w1)" "g_config g = gcfg"
    "g_config g1 = config_at g 1024" "g_index g1 = int i" "total_send_byte g1 = 0"
    "pool_list g1 w1 = [base..<base + 1024]" "stocked g1 w1"
    "\<forall>k<1024. built g str k (packets w1 (base + k))" "g_pool g = i"
    using generator_starts [OF assms(1,4,10)] by blast
  have g1: "next_parser (g_config g1) = next_parser gcfg" "pktlen (g_config g1) = pktlen gcfg"
    "generator_nums (g_config g1) = generator_nums gcfg" "parser_nums (g_config g1) = parser_nums gcfg"
    using M(2,3) by (simp_all add: config_at_nums)
  have s: "sent_to g1 [base..<base + 1024] n r =
      map (\<lambda>k. base + k) (filter (\<lambda>k. (next_parser gcfg (int i) ^^ k) (int i) = int r) [0..<n])" for r
    unfolding sent_to_def g1 M(4) using assms(9) by (auto intro!: map_cong)
  have "length (sent_to g1 [base..<base + 1024] n r) \<le> 1024" for r
    unfolding s length_map by (rule le_trans [OF length_filter_le]) (use assms(9) in simp)
  then have "has_room (length (sent_to g1 (pool_list g1 w1) n r)) (pqueue (prs ! r))" if "r < length prs" for r
    unfolding M(6) has_room_def using assms(8) that by (auto simp: LG2_CAPACITY_def simp del: length_intel_list)
  then obtain g' nxt w' prs' sent'
    where P: "generator_passes gcfg n (g1, g_index g1, w1, prs, sent) = Ret (g', nxt, w', prs', sent')"
      "after_passes n g1 w1 prs sent (g', nxt, w', prs', sent')"
    using generator_passes_ok [OF M(7) assms(3), of n prs sent] assms(5-7,9) M(4,6) g1 by auto
  have run: "generator_mode gcfg n g w (Some prs) sent = Ret (g', nxt, w', prs', sent')"
    using assms(2) M(1,2) P(1) by (simp add: generator_mode_def packet_generator_def)
  have A: "pool_list g' w' = drop n [base..<base + 1024]" "total_send_byte g' = of_nat n * word_of_int (pktlen gcfg)"
    "sent' = sent + of_nat n * word_of_int (pktlen gcfg)"
    "\<forall>k<n. renewed (config_at g1 k) (data (packets w1 ([base..<base + 1024] ! k))) (data (packets w' ([base..<base + 1024] ! k)))"
    "\<forall>r<length prs. queue_list (prs' ! r) = queue_list (prs ! r) @ sent_to g1 [base..<base + 1024] n r"
    "\<And>p. plength (packets w' p) = plength (packets w1 p) \<and> ppool (packets w' p) = ppool (packets w1 p)"
    using P(2) g1 M(5,6) unfolding after_passes_def by auto
  have c: "config_at g1 k = config_at g (k + 1024)" for k
    using M(3) by (simp add: funpow_add config_at_def)
  have "\<exists>d. generated (config_at g k) str d \<and> renewed (config_at g (k + 1024)) d (data (packets w' (base + k)))"
    if "k < n" for k
    using A(4) M(8) that assms(9) unfolding c by (intro exI [of _ "data (packets w1 (base + k))"]) (auto simp: built_def)
  moreover have "plength (packets w' (base + k)) = word_of_int (pktlen gcfg) \<and> ppool (packets w' (base + k)) = i"
    if "k < n" for k using A(6) [of "base + k"] M(2,8,9) that assms(9) by (simp add: built_def)
  moreover have "pool_list g' w' = [base + n..<base + 1024]" unfolding A(1) by (rule drop_upt)
  moreover have "queue_list (prs' ! r) =
      map (\<lambda>k. base + k) (filter (\<lambda>k. (next_parser gcfg (int i) ^^ k) (int i) = int r) [0..<n])" if "r < length prs" for r
    using A(5) assms(8) that unfolding s [symmetric] by auto
  ultimately show ?thesis using run A(2,3) by blast
qed

text \<open>C9. A generator from its initialisation: under a TCP configuration with a text, enough parsers with
  empty queues and a pipeline depth above 1, \<^verbatim>\<open>generator_mode\<close> returns from its first \<open>n \<le> 1024\<close> passes.
  It has sent the packets of its pool in order, each to the parser whose turn it was; the \<open>k\<close>-th
  packet has the headers and the text of the filling phase, and the addresses and ports of turn
  \<open>1024 + k\<close>; the counters have advanced by \<open>n\<close> packet lengths.\<close>

theorem generator_mode_sends:
  assumes "tcp_ready gcfg str" "cfg_protocol gcfg = 6" "1 < pipe_depth gcfg" "length junk = 2 ^ LG2_CAPACITY"
    and "0 < generator_nums gcfg" "int i < parser_nums gcfg" "parser_nums gcfg \<le> int (length prs)"
    and "\<forall>pr\<in>set prs. intel_inv LG2_CAPACITY (pqueue pr) \<and> queue_list pr = []" "n \<le> 1024"
    and "init_signle_generator gcfg null junk room base i dev_id (g0, w0) = Ret (g, w)"
  shows "\<exists>g' nxt w' prs' sent'. generator_mode gcfg n g w (Some prs) sent = Ret (g', nxt, w', prs', sent')
    \<and> pool_list g' w' = [base + n..<base + 1024]
    \<and> (\<forall>r<length prs. queue_list (prs' ! r) =
         map (\<lambda>k. base + k) (filter (\<lambda>k. (next_parser gcfg (int i) ^^ k) (int i) = int r) [0..<n]))
    \<and> (\<forall>k<n. \<exists>d. generated (config_at g k) str d \<and> renewed (config_at g (k + 1024)) d (data (packets w' (base + k))))
    \<and> total_send_byte g' = of_nat n * word_of_int (pktlen gcfg)
    \<and> sent' = sent + of_nat n * word_of_int (pktlen gcfg)"
  using generator_mode_result [OF assms, of sent] by (elim exE conjE) (intro exI conjI; assumption)

definition demo_generator :: generator where
  "demo_generator = \<lparr>g_index = 0, g_next_thread_id = 0, total_send_byte = 0, drop_pempty_total = 0, drop_qfull_total = 0,
     drop_total = 0, g_config = demo_cfg, g_pool = 0, g_rank = 0, g_alive = 0, g_dev_id = 0, g_ready = \<lambda>_. False\<rparr>"

definition idle_parser :: parser where
  "idle_parser = demo_parser\<lparr>pqueue := intel_init LG2_CAPACITY 0 (replicate (2 ^ LG2_CAPACITY) 0)\<rparr>"

lemma idle_parser_queue: "intel_inv LG2_CAPACITY (pqueue idle_parser) \<and> queue_list idle_parser = []"
  using intel_init_inv [of LG2_CAPACITY "replicate (2 ^ LG2_CAPACITY) 0" "0::nat"]
  by (simp add: idle_parser_def LG2_CAPACITY_def)

lemma tcp_cfg_fits: "pool_fits tcp_cfg"
  unfolding pool_fits_def tcp_cfg_ready(2) by simp

theorem generator_mode_sends_witness:
  "\<exists>g w g' nxt w' prs' sent'.
     init_signle_generator tcp_cfg 0 (replicate (2 ^ LG2_CAPACITY) 0) (\<lambda>_ _. 0) 0 0 (- 1) (demo_generator, one_packet_world) = Ret (g, w)
     \<and> generator_mode tcp_cfg 2 g w (Some [idle_parser]) 0 = Ret (g', nxt, w', prs', sent')
     \<and> queue_list (prs' ! 0) = [0, 1] \<and> sent' = 120"
proof -
  let ?j = "replicate (2 ^ LG2_CAPACITY) (0::nat)"
  obtain g w where I: "init_signle_generator tcp_cfg 0 ?j (\<lambda>_ _. 0) 0 0 (- 1) (demo_generator, one_packet_world) = Ret (g, w)"
    using init_signle_generator_runs [OF tcp_cfg_fits] by blast
  have c: "cfg_protocol tcp_cfg = 6" "1 < pipe_depth tcp_cfg" "length ?j = 2 ^ LG2_CAPACITY" "0 < generator_nums tcp_cfg"
    "int 0 < parser_nums tcp_cfg" "parser_nums tcp_cfg \<le> int (length [idle_parser])"
    by (simp_all add: tcp_cfg_def demo_cfg_def)
  have q: "\<forall>pr\<in>set [idle_parser]. intel_inv LG2_CAPACITY (pqueue pr) \<and> queue_list pr = []"
    using idle_parser_queue by simp
  have "next_parser tcp_cfg 0 0 = 0" by (simp add: next_parser_def tcp_cfg_def demo_cfg_def)
  then have f: "filter (\<lambda>k. (next_parser tcp_cfg 0 ^^ k) 0 = 0) [0..<2] = [0, 1]" by (simp add: upt_rec)
  from generator_mode_sends [OF tcp_cfg_ready(1) c q _ I, of 2 0] obtain g' nxt w' prs' sent'
    where "generator_mode tcp_cfg 2 g w (Some [idle_parser]) 0 = Ret (g', nxt, w', prs', sent')"
      "queue_list (prs' ! 0) = [0, 1]" "sent' = 0 + of_nat 2 * word_of_int (pktlen tcp_cfg)"
    by (auto simp: f)
  with I show ?thesis unfolding tcp_cfg_ready(2) by auto
qed

text \<open>A generator with 1024 packets of 62 bytes, ready to collect.\<close>

lemma demo_stock:
  "\<exists>g w. g_index g = int i \<and> pool_list g w = 0 # [1..<1024] \<and> intel_inv LG2_CAPACITY (packet_pools w (g_pool g))
     \<and> g_ready g 0 \<and> length (data (packets w 0)) = 62 \<and> stocked g w"
proof -
  let ?j = "replicate (2 ^ LG2_CAPACITY) (0::nat)"
  obtain g0 w0 where I: "init_signle_generator tcp_cfg 0 ?j (\<lambda>_ _. 0) 0 i (- 1) (demo_generator, one_packet_world) = Ret (g0, w0)"
    using init_signle_generator_runs [OF tcp_cfg_fits] by blast
  obtain g w where S: "g_config g0 = tcp_cfg" "g_index g = int i" "pool_list g w = [0..<0 + 1024]" "stocked g w"
    "\<forall>k<1024. built g0 [97, 98, 99] k (packets w (0 + k))"
    using generator_starts [OF tcp_cfg_ready(1) length_replicate I] by blast
  have l: "[0..<0 + 1024] = 0 # [1..<1024::nat]" using upt_conv_Cons [of 0 1024] by (simp del: upt_rec_numeral)
  have "generated (config_at g0 0) [97, 98, 99] (data (packets w 0))" using S(5) [rule_format, of 0] by (simp add: built_def)
  then have "length (data (packets w 0)) = 62" using S(1) by (simp add: generated_def tcp_cfg_ready(2))
  moreover have "intel_inv LG2_CAPACITY (packet_pools w (g_pool g))" "g_ready g 0"
    using S(4) unfolding stocked_def S(3) l by (blast intro: list.set_intros)+
  ultimately show ?thesis using S(2,4) S(3) [unfolded l] by blast
qed

text \<open>With more generators than parsers a generator whose index is not the index of a parser would read
  beyond the array of parsers at its first packet; the check in \<^verbatim>\<open>main\<close> rules this out.\<close>

lemma surplus_generator_faults:
  assumes "1 < pipe_depth gcfg" "stocked g w" "pool_list g w \<noteq> []" "int (length prs) \<le> g_index g"
  shows "generator_pass gcfg (g, g_index g, w, prs, sent) = Fault"
proof -
  obtain p free where l: "pool_list g w = p # free" using assms(3) by (cases "pool_list g w") auto
  have s: "intel_inv LG2_CAPACITY (packet_pools w (g_pool g))" "g_ready g p" "tcp_shape (data (packets w p))"
    "56 \<le> length (data (packets w p))" using assms(2) l by (auto simp: stocked_def)
  obtain q where q: "intel_dequeue LG2_CAPACITY (packet_pools w (g_pool g)) = Some (p, q)"
    by (rule iq.deq_nonempty [OF s(1) l])
  obtain d c where "renew_packet (data (packets w p)) (g_config g) = Ret (d, c)" using renew_packet_ok [OF s(3,4)] by blast
  then show ?thesis using assms(1,4) s(2)
    by (simp add: generator_pass_def q hand_over_def send_to_def set_pool_def)
qed

section \<open>Collectors\<close>

lemma collect_frame_ok:
  assumes "1 < pipe_depth gcfg" "intel_inv LG2_CAPACITY (packet_pools w (g_pool g))" "pool_list g w = p # free" "g_ready g p"
    and "n \<le> length va" "n + 2 \<le> length (data (packets w p))"
    and "0 \<le> next" "next < int (length prs)" "has_room 1 (pqueue (prs ! nat next))"
  shows "\<exists>d q r. collect_frame gcfg va n (g, next, w, prs, sent) =
      Ret (g\<lparr>total_send_byte := total_send_byte g + of_nat n, g_alive := g_alive g + 1\<rparr>,
           next_parser (g_config g) (g_index g) next,
           set_packet p ((packets w p)\<lparr>ppool := g_pool g, data := d, plength := of_nat n\<rparr>) (set_pool (g_pool g) q w),
           prs[nat next := (prs ! nat next)\<lparr>pqueue := r\<rparr>], sent)
    \<and> length d = length (data (packets w p)) \<and> take n (drop 2 d) = take n va
    \<and> intel_list LG2_CAPACITY q = free \<and> intel_list LG2_CAPACITY r = queue_list (prs ! nat next) @ [p]
    \<and> intel_inv LG2_CAPACITY q \<and> intel_inv LG2_CAPACITY r"
proof -
  obtain q where q: "intel_dequeue LG2_CAPACITY (packet_pools w (g_pool g)) = Some (p, q)" "intel_list LG2_CAPACITY q = free"
    "intel_inv LG2_CAPACITY q" by (rule iq.deq_nonempty [OF assms(2,3)])
  obtain r where r: "send_to next p prs = Ret (prs[nat next := (prs ! nat next)\<lparr>pqueue := r\<rparr>])"
    "intel_list LG2_CAPACITY r = queue_list (prs ! nat next) @ [p]" "intel_inv LG2_CAPACITY r"
    by (rule send_to_ok [OF assms(7-9)])
  have va: "get_bytes va 0 n = Ret (take n va)" using assms(5) by (simp add: get_bytes_def)
  have l: "length (take n va) = n" using assms(5) by simp
  obtain d where d: "put_bytes (data (packets w p)) 2 (take n va) = Ret d"
    using put_bytes_returns [of 2 "take n va" "data (packets w p)"] assms(5,6) by auto
  have "take n (drop 2 d) = take n va" using get_put_same [OF d] unfolding l by (simp add: get_bytes_def split: if_splits)
  moreover have "collect_frame gcfg va n (g, next, w, prs, sent) =
      Ret (g\<lparr>total_send_byte := total_send_byte g + of_nat n, g_alive := g_alive g + 1\<rparr>,
           next_parser (g_config g) (g_index g) next,
           set_packet p ((packets w p)\<lparr>ppool := g_pool g, data := d, plength := of_nat n\<rparr>) (set_pool (g_pool g) q w),
           prs[nat next := (prs ! nat next)\<lparr>pqueue := r\<rparr>], sent)"
    using assms(1,4) by (simp add: collect_frame_def q(1) set_pool_def va PAY_LEN_def d hand_over_def r(1))
  ultimately show ?thesis using put_bytes_length [OF d] q(2,3) r(2,3) by blast
qed

text \<open>A collector pass that finds a frame of more than 40 bytes which fits into a packet copies it behind
  the padding, records its length and the pool, and queues the packet at the parser whose turn it
  is; without a frame, or with a shorter one, the pass changes nothing but its alive counter.\<close>

theorem collector_delivers:
  assumes "1 < pipe_depth gcfg" "intel_inv LG2_CAPACITY (packet_pools w (g_pool g))" "pool_list g w = p # free" "g_ready g p"
    and "40 < l2_length" "nat l2_length \<le> length va" "nat l2_length + 2 \<le> length (data (packets w p))"
    and "0 \<le> next" "next < int (length prs)" "has_room 1 (pqueue (prs ! nat next))"
  shows "\<exists>w' prs'. intel_collector_pass gcfg (Some va) l2_length (g, next, w, prs, sent) =
      Ret (g\<lparr>total_send_byte := total_send_byte g + of_nat (nat l2_length), g_alive := g_alive g + 2\<rparr>,
           next_parser (g_config g) (g_index g) next, w', prs', sent)
    \<and> take (nat l2_length) (drop 2 (data (packets w' p))) = take (nat l2_length) va
    \<and> plength (packets w' p) = of_nat (nat l2_length) \<and> ppool (packets w' p) = g_pool g \<and> pool_list g w' = free
    \<and> queue_list (prs' ! nat next) = queue_list (prs ! nat next) @ [p]
    \<and> (\<forall>r. r \<noteq> nat next \<longrightarrow> prs' ! r = prs ! r)
    \<and> intel_collector_pass gcfg None l2_length (g, next, w, prs, sent) = Ret (g\<lparr>g_alive := g_alive g + 1\<rparr>, next, w, prs, sent)
    \<and> intel_collector_pass gcfg (Some va) (min l 40) (g, next, w, prs, sent) = Ret (g\<lparr>g_alive := g_alive g + 1\<rparr>, next, w, prs, sent)"
proof -
  have n: "nat next < length prs" using assms(8,9) by linarith
  from collect_frame_ok [OF assms(1-4,6-10)] obtain d q r where
    "collect_frame gcfg va (nat l2_length) (g, next, w, prs, sent) =
      Ret (g\<lparr>total_send_byte := total_send_byte g + of_nat (nat l2_length), g_alive := g_alive g + 1\<rparr>,
           next_parser (g_config g) (g_index g) next,
           set_packet p ((packets w p)\<lparr>ppool := g_pool g, data := d, plength := of_nat (nat l2_length)\<rparr>) (set_pool (g_pool g) q w),
           prs[nat next := (prs ! nat next)\<lparr>pqueue := r\<rparr>], sent)"
    "take (nat l2_length) (drop 2 d) = take (nat l2_length) va"
    "intel_list LG2_CAPACITY q = free" "intel_list LG2_CAPACITY r = queue_list (prs ! nat next) @ [p]" by blast
  then show ?thesis using assms(5) n by (simp add: intel_collector_pass_def set_packet_def set_pool_def)
qed

theorem collector_delivers_witness:
  "\<exists>g w w' prs'. pool_list g w = 0 # [1..<1024]
    \<and> intel_collector_pass tcp_cfg (Some (replicate 60 7)) 60 (g, 0, w, [idle_parser], 0) =
      Ret (g\<lparr>total_send_byte := total_send_byte g + of_nat (nat 60), g_alive := g_alive g + 2\<rparr>,
           next_parser (g_config g) (g_index g) 0, w', prs', 0)
    \<and> queue_list (prs' ! 0) = [0]"
proof -
  obtain g w where S: "pool_list g w = 0 # [1..<1024]" "intel_inv LG2_CAPACITY (packet_pools w (g_pool g))"
    "g_ready g 0" "length (data (packets w 0)) = 62" using demo_stock [of 0] by blast
  have d: "1 < pipe_depth tcp_cfg" by (simp add: tcp_cfg_def)
  have r: "has_room 1 (pqueue ([idle_parser] ! nat 0))"
    using idle_parser_queue by (simp add: has_room_def LG2_CAPACITY_def del: length_intel_list)
  from collector_delivers [OF d S(2,1,3), of 60 "replicate 60 7" 0 "[idle_parser]" 0 0] r S(4) idle_parser_queue
  show ?thesis using S(1) by (auto simp del: replicate.simps upt_rec_numeral)
qed

text \<open>C40. A frame longer than the packets' buffers is not refused: \<^verbatim>\<open>memcpy\<close> writes beyond the buffer.\<close>

theorem long_frame_overruns:
  assumes "intel_inv LG2_CAPACITY (packet_pools w (g_pool g))" "pool_list g w = p # free" "g_ready g p"
    and "40 < l2_length" "length (data (packets w p)) < nat l2_length + 2"
  shows "intel_collector_pass gcfg (Some va) l2_length (g, next, w, prs, sent) = Fault"
proof -
  obtain q where q: "intel_dequeue LG2_CAPACITY (packet_pools w (g_pool g)) = Some (p, q)"
    by (rule iq.deq_nonempty [OF assms(1,2)])
  show ?thesis using assms(3-5)
    by (simp add: intel_collector_pass_def collect_frame_def q set_pool_def get_bytes_def put_bytes_def PAY_LEN_def)
qed

theorem long_frame_overruns_witness:
  "\<exists>g w. pool_list g w = 0 # [1..<1024]
     \<and> intel_collector_pass tcp_cfg (Some (replicate 61 7)) 61 (g, 0, w, [idle_parser], 0) = Fault"
proof -
  obtain g w where S: "pool_list g w = 0 # [1..<1024]" "intel_inv LG2_CAPACITY (packet_pools w (g_pool g))"
    "g_ready g 0" "length (data (packets w 0)) = 62" using demo_stock [of 0] by blast
  have "intel_collector_pass tcp_cfg (Some (replicate 61 7)) 61 (g, 0, w, [idle_parser], 0) = Fault"
    by (rule long_frame_overruns [OF S(2,1,3)]) (simp_all add: S(4))
  with S(1) show ?thesis by blast
qed

end
