(* ===== verification/Pipeline.thy ===== *)
theory Pipeline
  imports Packet_Manager Packet_Generator "HOL-Library.Multiset"
begin

unbundle bit_operations_syntax

text \<open>
  The stages of the pipeline together: a parser that takes a batch of packets and hands the flows to
  the managers, and the managers that file them, in whatever order the scheduler lets them run. A
  turn of a manager is one pass of its loop. The managers share the pools to which they give the
  packets and flows back.
\<close>

section \<open>Turns of the managers\<close>

definition manager_turn ::
    "sim_config \<Rightarrow> nat \<times> u64 \<Rightarrow> manager list \<times> world \<Rightarrow> (manager list \<times> world) run" where
  "manager_turn cfg = (\<lambda>(i, now) (ms, w).
     if length ms \<le> i then Fault
     else run_bind (manager_pass cfg now (ms ! i, w)) (\<lambda>(m, w'). Ret (ms[i := m], w')))"


section \<open>What a packet stands for\<close>

text \<open>The session a packet belongs to, the bytes it adds to it, and the manager that collects it.\<close>

definition packet_key :: "packet \<Rightarrow> key" where
  "packet_key pkt = (let d = data pkt in
     (max (src_ip d) (dst_ip d), min (src_ip d) (dst_ip d),
      ucast (max (src_port d) (dst_port d)), ucast (min (src_port d) (dst_port d)), d ! 25))"

definition packet_text :: "packet \<Rightarrow> u8 list" where
  "packet_text pkt = drop (16 + ip_hdr_len (data pkt) + tcp_hdr_len (data pkt))
     (take (unat (plength pkt) + 2) (data pkt))"

definition manager_of :: "nat \<Rightarrow> packet \<Rightarrow> nat" where
  "manager_of n pkt = (case packet_key pkt of (ui, li, up, lp, pr) \<Rightarrow> unat (MAKE_HASH li ui lp up (of_nat n)))"

text \<open>A packet whose headers and payload are inside its buffer, with a payload that fits a session.\<close>

definition sound_packet :: "sim_config \<Rightarrow> packet \<Rightarrow> bool" where
  "sound_packet cfg pkt \<longleftrightarrow> headers_inside (data pkt)
     \<and> 16 + ip_hdr_len (data pkt) + tcp_hdr_len (data pkt) \<le> unat (plength pkt) + 2
     \<and> unat (plength pkt) + 2 \<le> length (data pkt) \<and> unat (plength pkt) + 2 < 2 ^ 32
     \<and> length (packet_text pkt) \<le> nat (manager_buffer_size cfg)"

text \<open>A flow that is the decoding of packet \<open>p\<close>.\<close>

definition decodes :: "world \<Rightarrow> nat \<Rightarrow> nat \<Rightarrow> bool" where
  "decodes w f p \<longleftrightarrow> flow_key (flows w f) = packet_key (packets w p) \<and> fpacket (flows w f) = p
     \<and> fst (payload (flows w f)) = p \<and> payload_inside w (flows w f) \<and> flow_bytes w (flows w f) = packet_text (packets w p)
     \<and> unat (payload_len (flows w f)) = length (packet_text (packets w p))"

lemma flow_bytes_length: "payload_inside w fl \<Longrightarrow> length (flow_bytes w fl) = unat (payload_len fl)"
  by (simp add: flow_bytes_def payload_inside_def)

lemma make_flow_decodes:
  assumes "sound_packet cfg (packets w p)" "make_flow_item_tcp p (packets w p) flow = Ret (flows w' f)"
    and "packets w' = packets w"
  shows "decodes w' f p \<and> fpool (flows w' f) = fpool flow"
proof -
  let ?d = "data (packets w p)"
  have h: "headers_inside ?d" using assms(1) by (simp add: sound_packet_def)
  have pl: "payload_inside w' (flows w' f) \<and> flow_bytes w' (flows w' f) = packet_text (packets w p)"
    using decoded_payload [of w' p flow "flows w' f"] assms by (simp add: sound_packet_def packet_text_def)
  then have len: "unat (payload_len (flows w' f)) = length (packet_text (packets w p))"
    by (metis flow_bytes_length)
  have "fpacket (flows w' f) = p" "fst (payload (flows w' f)) = p" "fpool (flows w' f) = fpool flow"
    using assms(2) [symmetric] unfolding make_flow_item_tcp_eq [OF h] run.inject Let_def by simp_all
  then show ?thesis
    using pl len decoded_key [OF h assms(2)] unfolding decodes_def packet_key_def Let_def assms(3) by blast
qed

lemma target_manager:
  assumes "decodes w f p"
  shows "target w n f = manager_of n (packets w p)"
proof -
  have "packet_key (packets w p) = flow_key (flows w f)" using assms by (simp add: decodes_def)
  then show ?thesis by (simp add: flow_key_def target_def hash_index_def manager_of_def)
qed

section \<open>Where the packets and flows are\<close>

text \<open>
  The objects that belong to a pool are in the pool or wait in the queue of a manager. The sums are
  over the managers.
\<close>

abbreviation mq :: "manager \<Rightarrow> nat list" where "mq m \<equiv> intel_list LG2_CAPACITY (mqueue m)"

definition home :: "world \<Rightarrow> nat \<Rightarrow> nat" where
  "home w f = ppool (packets w (fpacket (flows w f)))"

definition waiting_packets :: "world \<Rightarrow> nat \<Rightarrow> manager \<Rightarrow> nat multiset" where
  "waiting_packets w pp m = mset (map (\<lambda>f. fpacket (flows w f)) (filter (\<lambda>f. home w f = pp) (mq m)))"

definition waiting_flows :: "world \<Rightarrow> nat \<Rightarrow> manager \<Rightarrow> nat multiset" where
  "waiting_flows w i m = mset (filter (\<lambda>f. fpool (flows w f) = i) (mq m))"

definition packet_stock :: "manager list \<times> world \<Rightarrow> nat \<Rightarrow> nat multiset" where
  "packet_stock = (\<lambda>(ms, w) pp.
     mset (intel_list LG2_CAPACITY (packet_pools w pp)) + (\<Sum>m\<leftarrow>ms. waiting_packets w pp m))"

definition flow_stock :: "manager list \<times> world \<Rightarrow> nat \<Rightarrow> nat multiset" where
  "flow_stock = (\<lambda>(ms, w) i.
     mset (intel_list LG2_CAPACITY (flow_pools w i)) + (\<Sum>m\<leftarrow>ms. waiting_flows w i m))"

text \<open>A queued flow that can be filed: its payload fits, and its two pools can take their objects back.\<close>

definition flow_sound :: "sim_config \<Rightarrow> manager list \<times> world \<Rightarrow> nat \<Rightarrow> bool" where
  "flow_sound cfg = (\<lambda>(ms, w) f.
     payload_inside w (flows w f) \<and> unat (payload_len (flows w f)) \<le> nat (manager_buffer_size cfg)
     \<and> intel_inv LG2_CAPACITY (packet_pools w (home w f)) \<and> size (packet_stock (ms, w) (home w f)) \<le> 2 ^ LG2_CAPACITY
     \<and> intel_inv LG2_CAPACITY (flow_pools w (fpool (flows w f)))
     \<and> size (flow_stock (ms, w) (fpool (flows w f))) \<le> 2 ^ LG2_CAPACITY)"

definition turns_inv :: "sim_config \<Rightarrow> manager list \<times> world \<Rightarrow> bool" where
  "turns_inv cfg = (\<lambda>(ms, w). 4 < pipe_depth cfg
     \<and> (\<forall>m\<in>set ms. (\<exists>chs. table_inv cfg chs m) \<and> intel_inv LG2_CAPACITY (mqueue m)
          \<and> (\<forall>f\<in>set (mq m). flow_sound cfg (ms, w) f)))"

definition turn_ready :: "sim_config \<Rightarrow> nat \<times> u64 \<Rightarrow> manager list \<times> world \<Rightarrow> bool" where
  "turn_ready cfg = (\<lambda>(i, now) (ms, w). i < length ms \<and> mq (ms ! i) \<noteq> []
     \<and> card (dom (session_of (ms ! i))) < 2 ^ MANAGER_POOL)"

definition turn_abs :: "manager list \<times> world \<Rightarrow> (nat list \<times> (key \<Rightarrow> session option)) list" where
  "turn_abs = (\<lambda>(ms, w). map (\<lambda>m. (mq m, session_of m)) ms)"

definition turn_env :: "manager list \<times> world \<Rightarrow>
    (nat \<Rightarrow> packet) \<times> (nat \<Rightarrow> flow_item) \<times> (nat \<Rightarrow> nat multiset) \<times> (nat \<Rightarrow> nat multiset)" where
  "turn_env = (\<lambda>(ms, w). (packets w, flows w, packet_stock (ms, w), flow_stock (ms, w)))"

fun turn_spec :: "sim_config \<Rightarrow> (nat \<Rightarrow> packet) \<times> (nat \<Rightarrow> flow_item) \<times> (nat \<Rightarrow> nat multiset) \<times> (nat \<Rightarrow> nat multiset)
    \<Rightarrow> nat \<times> u64 \<Rightarrow> (nat list \<times> (key \<Rightarrow> session option)) list \<Rightarrow> (nat list \<times> (key \<Rightarrow> session option)) list" where
  "turn_spec cfg (ps, fs, pst, fst') (i, now) A =
     (let (q, S) = A ! i; flow = fs (hd q)
      in A[i := (tl q, add_spec (nat (manager_buffer_size cfg)) now (flow_key flow)
           (take (unat (payload_len flow)) (drop (snd (payload flow)) (data (ps (fst (payload flow)))))) S)])"

section \<open>One turn\<close>

lemma manager_pass_mqueue:
  assumes "manager_pass cfg now (m, w) = Ret (m', w')" "4 < pipe_depth cfg"
    and "intel_inv LG2_CAPACITY (mqueue m)" "mq m = f # fs"
  shows "intel_inv LG2_CAPACITY (mqueue m') \<and> mq m' = fs"
proof -
  obtain q' where q': "intel_dequeue LG2_CAPACITY (mqueue m) = Some (f, q')" "intel_inv LG2_CAPACITY q'"
    "intel_list LG2_CAPACITY q' = fs"
    using iq.deq_nonempty [OF assms(3,4)] by blast
  from assms(1,2) have "mqueue m' = q'"
    by (auto simp: manager_pass_def q'(1) Let_def same_rest_def dest!: hash_add_item_frame split: if_splits)
  with q' show ?thesis by simp
qed

text \<open>Replacing one manager in the sums.\<close>

lemma sum_list_put:
  fixes g :: "'a \<Rightarrow> nat multiset"
  assumes "i < length ms"
  shows "(\<Sum>m\<leftarrow>ms[i := m']. g m) + g (ms ! i) = (\<Sum>m\<leftarrow>ms. g m) + g m'"
  using assms by (induction ms arbitrary: i) (auto simp: nth_Cons ac_simps split: nat.split)

lemma sum_list_member:
  fixes g :: "'a \<Rightarrow> nat multiset"
  assumes "i < length ms"
  shows "g (ms ! i) \<subseteq># (\<Sum>m\<leftarrow>ms. g m)"
  using assms
proof (induction ms arbitrary: i)
  case (Cons a ms)
  then show ?case by (cases i) (auto intro: subset_mset.add_increasing)
qed simp

lemma pool_put_list:
  assumes "pool_put i x P P'"
  shows "mset (intel_list LG2_CAPACITY (P' k)) = mset (intel_list LG2_CAPACITY (P k)) + (if k = i then {#x#} else {#})"
  using assms by (auto simp: pool_put_def)

text \<open>A turn moves a packet and a flow from the queue to their pools: what belongs to a pool stays the same.\<close>

lemma turn_stock:
  assumes "i < length ms" "mq (ms ! i) = f # fs" "mq m' = fs" "released f w w'"
  shows "packet_stock (ms[i := m'], w') = packet_stock (ms, w)" "flow_stock (ms[i := m'], w') = flow_stock (ms, w)"
proof -
  have w: "packets w' = packets w" "flows w' = flows w"
    "pool_put (home w f) (fpacket (flows w f)) (packet_pools w) (packet_pools w')"
    "pool_put (fpool (flows w f)) f (flow_pools w) (flow_pools w')"
    using assms(4) by (auto simp: released_def home_def)
  have h: "home w' = home w" by (intro ext) (simp add: home_def w)
  have e: "waiting_packets w' = waiting_packets w" "waiting_flows w' = waiting_flows w"
    by (intro ext; simp add: waiting_packets_def waiting_flows_def w h)+
  show "packet_stock (ms[i := m'], w') = packet_stock (ms, w)"
  proof
    fix pp
    have "waiting_packets w pp (ms ! i) = (if pp = home w f then {#fpacket (flows w f)#} else {#}) + waiting_packets w pp m'"
      by (simp add: waiting_packets_def assms(2,3))
    then show "packet_stock (ms[i := m'], w') pp = packet_stock (ms, w) pp"
      using sum_list_put [OF assms(1), of "waiting_packets w pp" m']
      by (auto simp: packet_stock_def e pool_put_list [OF w(3)] ac_simps)
  qed
  show "flow_stock (ms[i := m'], w') = flow_stock (ms, w)"
  proof
    fix k
    have "waiting_flows w k (ms ! i) = (if k = fpool (flows w f) then {#f#} else {#}) + waiting_flows w k m'"
      by (simp add: waiting_flows_def assms(2,3))
    then show "flow_stock (ms[i := m'], w') k = flow_stock (ms, w) k"
      using sum_list_put [OF assms(1), of "waiting_flows w k" m']
      by (auto simp: flow_stock_def e pool_put_list [OF w(4)] ac_simps)
  qed
qed

lemma head_waits:
  assumes "i < length ms" "mq (ms ! i) = f # fs"
  shows "length (intel_list LG2_CAPACITY (packet_pools w (home w f))) < size (packet_stock (ms, w) (home w f))"
    and "length (intel_list LG2_CAPACITY (flow_pools w (fpool (flows w f)))) < size (flow_stock (ms, w) (fpool (flows w f)))"
proof -
  have "{#fpacket (flows w f)#} \<subseteq># waiting_packets w (home w f) (ms ! i)" "{#f#} \<subseteq># waiting_flows w (fpool (flows w f)) (ms ! i)"
    by (simp_all add: waiting_packets_def waiting_flows_def assms(2))
  then have "{#fpacket (flows w f)#} \<subseteq># (\<Sum>m\<leftarrow>ms. waiting_packets w (home w f) m)"
    "{#f#} \<subseteq># (\<Sum>m\<leftarrow>ms. waiting_flows w (fpool (flows w f)) m)"
    using sum_list_member [OF assms(1)] by (meson subset_mset.trans)+
  from this [THEN size_mset_mono]
  show "length (intel_list LG2_CAPACITY (packet_pools w (home w f))) < size (packet_stock (ms, w) (home w f))"
    "length (intel_list LG2_CAPACITY (flow_pools w (fpool (flows w f)))) < size (flow_stock (ms, w) (fpool (flows w f)))"
    by (simp_all add: packet_stock_def flow_stock_def del: length_intel_list)
qed

lemma flow_sound_released:
  assumes "flow_sound cfg (ms, w) g" "released f w w'"
    and "packet_stock (ms', w') = packet_stock (ms, w)" "flow_stock (ms', w') = flow_stock (ms, w)"
  shows "flow_sound cfg (ms', w') g"
proof -
  have w: "packets w' = packets w" "flows w' = flows w"
    "pool_put (home w f) (fpacket (flows w f)) (packet_pools w) (packet_pools w')"
    "pool_put (fpool (flows w f)) f (flow_pools w) (flow_pools w')"
    using assms(2) by (auto simp: released_def home_def)
  have "home w' g = home w g" by (simp add: home_def w)
  moreover have "intel_inv LG2_CAPACITY (packet_pools w' k)" if "intel_inv LG2_CAPACITY (packet_pools w k)" for k
    using that w(3) by (cases "k = home w f") (auto simp: pool_put_def)
  moreover have "intel_inv LG2_CAPACITY (flow_pools w' k)" if "intel_inv LG2_CAPACITY (flow_pools w k)" for k
    using that w(4) by (cases "k = fpool (flows w f)") (auto simp: pool_put_def)
  ultimately show ?thesis using assms(1,3,4) by (simp add: flow_sound_def payload_inside_def w)
qed

lemma manager_turn_files:
  assumes inv: "turns_inv cfg (ms, w)" and i: "i < length ms" and q: "mq (ms ! i) = f # fs"
    and free: "session_of (ms ! i) (flow_key (flows w f)) \<noteq> None \<or> intel_list MANAGER_POOL (session_pool (ms ! i)) \<noteq> []"
  shows "\<exists>m' w'. manager_turn cfg (i, now) (ms, w) = Ret (ms[i := m'], w') \<and> turns_inv cfg (ms[i := m'], w')
    \<and> released (hd (mq (ms ! i))) w w' \<and> mq m' = tl (mq (ms ! i))
    \<and> session_of m' = add_spec (nat (manager_buffer_size cfg)) now (flow_key (flows w (hd (mq (ms ! i)))))
        (flow_bytes w (flows w (hd (mq (ms ! i))))) (session_of (ms ! i))
    \<and> packet_stock (ms[i := m'], w') = packet_stock (ms, w) \<and> flow_stock (ms[i := m'], w') = flow_stock (ms, w)"
proof -
  let ?m = "ms ! i"
  obtain chs where t: "table_inv cfg chs ?m" "intel_inv LG2_CAPACITY (mqueue ?m)" "4 < pipe_depth cfg"
    and s: "flow_sound cfg (ms, w) f"
    using inv nth_mem [OF i] q unfolding turns_inv_def prod.case by (metis list.set_intros(1))
  have fits: "payload_inside w (flows w f)" "unat (payload_len (flows w f)) \<le> nat (manager_buffer_size cfg)"
    and rel: "can_release f w"
    using s head_waits [OF i q, of w]
    by (auto simp: flow_sound_def can_release_def Session_Table.has_room_def home_def simp del: length_intel_list)
  obtain m' w' chs' where P: "manager_pass cfg now (?m, w) = Ret (m', w')" "table_inv cfg chs' m'" "released f w w'"
    "session_of m' = add_spec (nat (manager_buffer_size cfg)) now (flow_key (flows w f)) (flow_bytes w (flows w f)) (session_of ?m)"
    using manager_pass_add [OF t(1,2) q t(3) fits rel free, of now] by blast
  have Q: "intel_inv LG2_CAPACITY (mqueue m')" "mq m' = fs" using manager_pass_mqueue [OF P(1) t(3,2) q] by auto
  note st = turn_stock [OF i q Q(2) P(3)]
  have "flow_sound cfg (ms[i := m'], w') g" if "flow_sound cfg (ms, w) g" for g
    using flow_sound_released [OF that P(3)] st by simp
  moreover have "\<forall>g\<in>set (mq m'). flow_sound cfg (ms, w) g"
    using inv nth_mem [OF i] q Q(2) unfolding turns_inv_def prod.case by (metis list.set_intros(2))
  ultimately have "turns_inv cfg (ms[i := m'], w')"
    using inv P(2) Q(1) by (auto simp: turns_inv_def dest!: set_update_subset_insert [THEN subsetD])
  moreover have "manager_turn cfg (i, now) (ms, w) = Ret (ms[i := m'], w')"
    using i P(1) by (simp add: manager_turn_def)
  ultimately show ?thesis using P(3,4) Q(2) q st by (intro exI [of _ m'] exI [of _ w']) simp
qed

lemma manager_turn_ok:
  assumes inv: "turns_inv cfg (ms, w)" and ready: "turn_ready cfg (i, now) (ms, w)"
  shows "\<exists>m' w'. manager_turn cfg (i, now) (ms, w) = Ret (ms[i := m'], w') \<and> turns_inv cfg (ms[i := m'], w')
    \<and> released (hd (mq (ms ! i))) w w' \<and> mq m' = tl (mq (ms ! i))
    \<and> session_of m' = add_spec (nat (manager_buffer_size cfg)) now (flow_key (flows w (hd (mq (ms ! i)))))
        (flow_bytes w (flows w (hd (mq (ms ! i))))) (session_of (ms ! i))
    \<and> packet_stock (ms[i := m'], w') = packet_stock (ms, w) \<and> flow_stock (ms[i := m'], w') = flow_stock (ms, w)"
proof -
  obtain f fs where q: "mq (ms ! i) = f # fs" and i: "i < length ms" and room: "card (dom (session_of (ms ! i))) < 2 ^ MANAGER_POOL"
    using ready by (auto simp: turn_ready_def neq_Nil_conv simp del: length_greater_0_conv)
  obtain chs where "table_inv cfg chs (ms ! i)" using inv nth_mem [OF i] unfolding turns_inv_def prod.case by metis
  from pool_empty_iff [OF this] room have "intel_list MANAGER_POOL (session_pool (ms ! i)) \<noteq> []" by auto
  with manager_turn_files [OF inv i q] show ?thesis by blast
qed

text \<open>Otherwise the manager waits: for a flow, or for a free session.\<close>

lemma manager_turn_waits:
  assumes "turns_inv cfg (ms, w)" "i < length ms"
    and "mq (ms ! i) = [] \<or> (\<exists>f fs. mq (ms ! i) = f # fs \<and> session_of (ms ! i) (flow_key (flows w f)) = None)
      \<and> intel_list MANAGER_POOL (session_pool (ms ! i)) = []"
  shows "manager_turn cfg (i, now) (ms, w) = Spin"
proof (cases "mq (ms ! i)")
  case Nil
  then have "intel_dequeue LG2_CAPACITY (mqueue (ms ! i)) = None" by (simp only: intel_dequeue_None)
  then show ?thesis using assms(2) by (simp add: manager_turn_def manager_pass_def Let_def)
next
  case (Cons f fs)
  obtain chs where t: "table_inv cfg chs (ms ! i)" "intel_inv LG2_CAPACITY (mqueue (ms ! i))" "4 < pipe_depth cfg"
    using assms(1) nth_mem [OF assms(2)] unfolding turns_inv_def prod.case by metis
  obtain q' where q': "intel_dequeue LG2_CAPACITY (mqueue (ms ! i)) = Some (f, q')"
    using iq.deq_nonempty [OF t(2) Cons] by blast
  let ?m = "(ms ! i)\<lparr>m_alive := m_alive (ms ! i) + 1, mqueue := q'\<rparr>"
  have "table_inv cfg chs ?m" "session_of ?m (flow_key (flows w f)) = None" "intel_list MANAGER_POOL (session_pool ?m) = []"
    using t(1) assms(3) Cons by simp_all
  from hash_add_pool_empty [OF this, of now] t(1,3) show ?thesis
    using assms(2) by (simp add: manager_turn_def manager_pass_def Let_def q' bucket_index_flow table_inv_def sizes_ok_def)
qed

interpretation mt: map_machine "manager_turn cfg" "turn_ready cfg" "turns_inv cfg" turn_abs turn_env "turn_spec cfg" for cfg
proof
  fix s e
  assume inv: "turns_inv cfg s" and ready: "turn_ready cfg e s"
  obtain ms w i now where s: "s = (ms, w)" "e = (i, now)" by (cases s, cases e)
  from manager_turn_ok [OF inv [unfolded s] ready [unfolded s]] obtain m' w'
    where T: "manager_turn cfg (i, now) (ms, w) = Ret (ms[i := m'], w')" "turns_inv cfg (ms[i := m'], w')"
      "released (hd (mq (ms ! i))) w w'" "mq m' = tl (mq (ms ! i))"
      "session_of m' = add_spec (nat (manager_buffer_size cfg)) now (flow_key (flows w (hd (mq (ms ! i)))))
        (flow_bytes w (flows w (hd (mq (ms ! i))))) (session_of (ms ! i))"
      "packet_stock (ms[i := m'], w') = packet_stock (ms, w)" "flow_stock (ms[i := m'], w') = flow_stock (ms, w)"
    by blast
  have "i < length ms" using ready s by (simp add: turn_ready_def)
  then have "turn_abs (ms[i := m'], w') = turn_spec cfg (turn_env s) e (turn_abs s)"
    using T(4,5) by (simp add: turn_abs_def turn_env_def s map_update flow_bytes_def Let_def)
  moreover have "turn_env (ms[i := m'], w') = turn_env s" using T(3,6,7) by (simp add: turn_env_def s released_def)
  ultimately show "\<exists>s'. manager_turn cfg e s = Ret s' \<and> turns_inv cfg s' \<and> turn_abs s' = turn_spec cfg (turn_env s) e (turn_abs s)
      \<and> turn_env s' = turn_env s"
    using T(1,2) s by blast
qed

section \<open>Any schedule\<close>

text \<open>The times at which manager \<open>j\<close> runs, and what filing a list of timed flows does to a table.\<close>

definition times_of :: "nat \<Rightarrow> (nat \<times> u64) list \<Rightarrow> u64 list" where
  "times_of j ts = map snd (filter (\<lambda>t. fst t = j) ts)"

lemma times_of_simps [simp]:
  "times_of j [] = []"
  "times_of j ((i, now) # ts) = (if i = j then now # times_of j ts else times_of j ts)"
  by (simp_all add: times_of_def)

definition file_flow :: "sim_config \<Rightarrow> (nat \<Rightarrow> packet) \<Rightarrow> flow_item \<Rightarrow> u64
    \<Rightarrow> (key \<Rightarrow> session option) \<Rightarrow> key \<Rightarrow> session option" where
  "file_flow cfg ps flow now = add_spec (nat (manager_buffer_size cfg)) now (flow_key flow)
     (take (unat (payload_len flow)) (drop (snd (payload flow)) (data (ps (fst (payload flow))))))"

text \<open>The managers have at least as many flows waiting, and as many free sessions, as they get turns.\<close>

definition enough :: "(nat list \<times> (key \<Rightarrow> session option)) list \<Rightarrow> (nat \<times> u64) list \<Rightarrow> bool" where
  "enough A ts \<longleftrightarrow> (\<forall>t\<in>set ts. fst t < length A)
     \<and> (\<forall>j<length A. length (times_of j ts) \<le> length (fst (A ! j))
          \<and> card (dom (snd (A ! j))) + length (times_of j ts) \<le> 2 ^ MANAGER_POOL)"

lemma card_dom_add_spec: "card (dom (add_spec cap now k p S)) \<le> Suc (card (dom S))"
proof -
  have "card (insert k (dom S)) \<le> Suc (card (dom S))" by (cases "finite (dom S)") (simp_all add: card_insert_if)
  moreover have "card (dom S - {k}) \<le> card (dom S)" by (cases "finite (dom S)") (simp_all add: card_Diff_subset_Int card_mono)
  ultimately show ?thesis by (auto simp: add_spec_def split: option.split)
qed

lemma turn_spec_file:
  "i < length A \<Longrightarrow> turn_spec cfg (ps, fs, st) (i, now) A
     = A[i := (tl (fst (A ! i)), file_flow cfg ps (fs (hd (fst (A ! i)))) now (snd (A ! i)))]"
  by (cases st) (simp add: file_flow_def Let_def split: prod.split)

lemma enough_head:
  assumes "enough A ((i, now) # ts)"
  shows "i < length A" "Suc (length (times_of i ts)) \<le> length (fst (A ! i))"
    "card (dom (snd (A ! i))) + Suc (length (times_of i ts)) \<le> 2 ^ MANAGER_POOL"
proof -
  show i: "i < length A" using assms by (simp add: enough_def)
  show "Suc (length (times_of i ts)) \<le> length (fst (A ! i))"
    "card (dom (snd (A ! i))) + Suc (length (times_of i ts)) \<le> 2 ^ MANAGER_POOL"
    using assms i unfolding enough_def by (metis length_Cons times_of_simps(2))+
qed

lemma enough_step:
  assumes "enough A ((i, now) # ts)"
  shows "enough (turn_spec cfg (ps, fs, st) (i, now) A) ts"
proof -
  note h = enough_head [OF assms] and i = enough_head(1) [OF assms]
  have "length (times_of j ts) \<le> length (fst (A[i := (tl (fst (A ! i)), file_flow cfg ps fl now (snd (A ! i)))] ! j))
      \<and> card (dom (snd (A[i := (tl (fst (A ! i)), file_flow cfg ps fl now (snd (A ! i)))] ! j)))
          + length (times_of j ts) \<le> 2 ^ MANAGER_POOL" if "j < length A" for j fl
  proof (cases "j = i")
    case True
    then show ?thesis
      using h card_dom_add_spec [of "nat (manager_buffer_size cfg)" now "flow_key fl"
          "take (unat (payload_len fl)) (drop (snd (payload fl)) (data (ps (fst (payload fl)))))" "snd (A ! i)"]
      by (auto simp: file_flow_def)
  next
    case False
    then show ?thesis using assms that by (auto simp: enough_def)
  qed
  then show ?thesis using assms i unfolding turn_spec_file [OF i] by (simp add: enough_def)
qed

lemma turn_ready_abs:
  "turn_ready cfg (i, now) s \<longleftrightarrow> i < length (turn_abs s) \<and> fst (turn_abs s ! i) \<noteq> []
     \<and> card (dom (snd (turn_abs s ! i))) < 2 ^ MANAGER_POOL"
  by (cases s) (auto simp: turn_ready_def turn_abs_def)

lemma schedule_ready:
  assumes "turns_inv cfg s" "enough (turn_abs s) ts"
  shows "mt.all_ready cfg ts s"
  using assms
proof (induction ts arbitrary: s)
  case (Cons t ts)
  obtain i now where t: "t = (i, now)" by (cases t)
  have r: "turn_ready cfg t s" using enough_head [OF Cons.prems(2) [unfolded t]] by (auto simp: turn_ready_abs t)
  obtain ps fs st where env: "turn_env s = (ps, fs, st)" by (metis prod.exhaust)
  obtain s' where s': "manager_turn cfg t s = Ret s'" "turns_inv cfg s'" "turn_abs s' = turn_spec cfg (ps, fs, st) t (turn_abs s)"
    using mt.step_ok [OF Cons.prems(1) r] env by auto
  have "enough (turn_abs s') ts" using Cons.prems(2) unfolding s'(3) t by (rule enough_step)
  with Cons.IH [OF s'(2)] r s'(1) show ?case by simp
qed simp

text \<open>Manager \<open>j\<close> files the flows of its own queue, oldest first, whatever the others do in between.\<close>

lemma fold_turns:
  assumes "enough A ts" "j < length A"
  shows "length (fold (turn_spec cfg (ps, fs, st)) ts A) = length A
    \<and> fold (turn_spec cfg (ps, fs, st)) ts A ! j
      = (drop (length (times_of j ts)) (fst (A ! j)),
         fold (\<lambda>(now, f). file_flow cfg ps (fs f) now) (zip (times_of j ts) (fst (A ! j))) (snd (A ! j)))"
  using assms
proof (induction ts arbitrary: A)
  case (Cons t ts)
  obtain i now where t: "t = (i, now)" by (cases t)
  note h = enough_head [OF Cons.prems(1) [unfolded t]] and i = enough_head(1) [OF Cons.prems(1) [unfolded t]]
  let ?A = "A[i := (tl (fst (A ! i)), file_flow cfg ps (fs (hd (fst (A ! i)))) now (snd (A ! i)))]"
  have "enough ?A ts" using enough_step [OF Cons.prems(1) [unfolded t]] unfolding turn_spec_file [OF i] .
  note IH = Cons.IH [OF this, simplified, OF Cons.prems(2)]
  obtain f q where q: "fst (A ! i) = f # q" using h(2) by (cases "fst (A ! i)") auto
  show ?case
    using IH Cons.prems(2) i q unfolding t fold.simps comp_apply turn_spec_file [OF i] by (cases "j = i") simp_all
qed simp

section \<open>From the parser to the tables\<close>

text \<open>The batch a parser takes from a queue, and the packets of a batch that manager \<open>j\<close> of \<open>n\<close> collects.\<close>

definition batch_of :: "nat intel_queue \<Rightarrow> nat list" where
  "batch_of q = take COUNT (intel_list LG2_CAPACITY q)"

definition share :: "world \<Rightarrow> nat \<Rightarrow> nat list \<Rightarrow> nat \<Rightarrow> nat list" where
  "share w n ps j = filter (\<lambda>p. manager_of n (packets w p) = j) ps"

definition file_packet :: "sim_config \<Rightarrow> packet \<Rightarrow> u64 \<Rightarrow> (key \<Rightarrow> session option) \<Rightarrow> key \<Rightarrow> session option" where
  "file_packet cfg pkt now = add_spec (nat (manager_buffer_size cfg)) now (packet_key pkt) (packet_text pkt)"

lemma sum_filter:
  fixes t :: "'a \<Rightarrow> nat"
  assumes "\<forall>x\<in>set xs. t x < n"
  shows "(\<Sum>j\<leftarrow>[0..<n]. mset (filter (\<lambda>x. t x = j) xs)) = mset xs"
  using assms
proof (induction xs)
  case (Cons x xs)
  have "(\<Sum>j\<leftarrow>[0..<n]. if t x = j then {#x#} else {#}) = (if t x < n then {#x#} else {#})" for n :: nat
    by (induction n) auto
  moreover have "mset (filter (\<lambda>x. t x = j) (x # xs)) = (if t x = j then {#x#} else {#}) + mset (filter (\<lambda>x. t x = j) xs)" for j
    by simp
  ultimately show ?case using Cons by (simp only: sum_list_addf) simp
qed simp

text \<open>A sum over the queues when a list of flows is spread over their ends.\<close>

lemma sum_spread:
  assumes "length qs = n" "length qs' = n" "\<forall>x\<in>set fs. t x < n" "\<forall>j<n. qs' ! j = qs ! j @ filter (\<lambda>x. t x = j) fs"
  shows "(\<Sum>q\<leftarrow>qs'. mset (map g (filter P q))) = (\<Sum>q\<leftarrow>qs. mset (map g (filter P q))) + mset (map g (filter P fs))"
proof -
  have nth: "(\<Sum>q\<leftarrow>xs. mset (map g (filter P q))) = (\<Sum>j\<leftarrow>[0..<n]. mset (map g (filter P (xs ! j))))"
    if "length xs = n" for xs by (subst map_nth [of xs, symmetric]) (simp add: that comp_def)
  have "(\<Sum>j\<leftarrow>[0..<n]. mset (map g (filter P (qs' ! j))))
      = (\<Sum>j\<leftarrow>[0..<n]. mset (map g (filter P (qs ! j))) + image_mset g (mset (filter (\<lambda>x. t x = j) (filter P fs))))"
    by (rule arg_cong [where f = sum_list], rule map_cong) (auto simp: assms(4) filter_filter conj_commute)
  also have "\<dots> = (\<Sum>j\<leftarrow>[0..<n]. mset (map g (filter P (qs ! j))))
      + image_mset g (\<Sum>j\<leftarrow>[0..<n]. mset (filter (\<lambda>x. t x = j) (filter P fs)))"
    by (induction n) (simp_all add: ac_simps)
  also have "(\<Sum>j\<leftarrow>[0..<n]. mset (filter (\<lambda>x. t x = j) (filter P fs))) = mset (filter P fs)"
    using sum_filter [of "filter P fs" t n] assms(3) by auto
  finally show ?thesis unfolding nth [OF assms(1)] nth [OF assms(2)] by simp
qed

lemma sum_list_spread:
  assumes "length ms = n" "length ms' = n" "\<forall>x\<in>set fs. t x < n" "\<forall>j<n. mq (ms' ! j) = mq (ms ! j) @ filter (\<lambda>x. t x = j) fs"
  shows "(\<Sum>m\<leftarrow>ms'. mset (map g (filter P (mq m)))) = (\<Sum>m\<leftarrow>ms. mset (map g (filter P (mq m)))) + mset (map g (filter P fs))"
  using sum_spread [of "map mq ms" n "map mq ms'" fs t g P] assms by (simp add: comp_def)

lemma sum_list_queues:
  assumes "length ms' = n" "\<forall>x\<in>set fs. t x < n" "\<forall>j<n. mq (ms' ! j) = filter (\<lambda>x. t x = j) fs"
  shows "(\<Sum>m\<leftarrow>ms'. mset (map g (filter P (mq m)))) = mset (map g (filter P fs))"
proof -
  have "sum_list (replicate n {#}) = {#}" by (induction n) simp_all
  with sum_spread [of "replicate n []" n "map mq ms'" fs t g P] assms show ?thesis by (simp add: comp_def)
qed

text \<open>A flow list and the packets it decodes, filtered alike.\<close>

lemma filter_decodes:
  assumes "list_all2 (decodes w) fs ps" "\<And>f p. decodes w f p \<Longrightarrow> P f \<longleftrightarrow> Q p"
  shows "list_all2 (decodes w) (filter P fs) (filter Q ps)"
  using assms(1) by (induction rule: list_all2_induct) (auto simp: assms(2))

lemma decoded_packets:
  assumes "list_all2 (decodes w) fs ps"
  shows "map (\<lambda>f. fpacket (flows w f)) (filter (\<lambda>f. home w f = pp) fs) = filter (\<lambda>p. ppool (packets w p) = pp) ps"
proof -
  have "list_all2 (decodes w) (filter (\<lambda>f. home w f = pp) fs) (filter (\<lambda>p. ppool (packets w p) = pp) ps)"
    by (rule filter_decodes [OF assms]) (auto simp: home_def decodes_def)
  then show ?thesis by (induction rule: list_all2_induct) (simp_all add: decodes_def)
qed

lemma waiting_packets_sum:
  assumes "length ms' = n" "\<forall>x\<in>set fs. t x < n" "\<forall>j<n. mq (ms' ! j) = filter (\<lambda>x. t x = j) fs"
    and "list_all2 (decodes w) fs ps"
  shows "(\<Sum>m\<leftarrow>ms'. waiting_packets w pp m) = mset (filter (\<lambda>p. ppool (packets w p) = pp) ps)"
  unfolding waiting_packets_def sum_list_queues [OF assms(1-3)] decoded_packets [OF assms(4)] by (rule refl)

lemma waiting_flows_sum:
  assumes "length ms' = n" "\<forall>x\<in>set fs. t x < n" "\<forall>j<n. mq (ms' ! j) = filter (\<lambda>x. t x = j) fs"
    and "\<And>f. f \<in> set fs \<Longrightarrow> fpool (flows w f) = i"
  shows "(\<Sum>m\<leftarrow>ms'. waiting_flows w i m) = mset fs"
proof -
  have "filter (\<lambda>f. fpool (flows w f) = i) fs = fs" using assms(4) by (simp add: filter_id_conv)
  then show ?thesis
    using sum_list_queues [OF assms(1-3), of "\<lambda>f. f" "\<lambda>f. fpool (flows w f) = i"] by (simp add: waiting_flows_def)
qed

lemma fold_decodes:
  assumes "list_all2 (decodes w) fs ps"
  shows "fold (\<lambda>(now, f). file_flow cfg (packets w) (flows w f) now) (zip ts fs) S
       = fold (\<lambda>(now, p). file_packet cfg (packets w p) now) (zip ts ps) S"
  using assms
proof (induction fs ps arbitrary: ts S rule: list_all2_induct)
  case (Cons f fs p ps)
  have k: "flow_key (flows w f) = packet_key (packets w p)" and b: "flow_bytes w (flows w f) = packet_text (packets w p)"
    using Cons.hyps(1) by (simp_all only: decodes_def)
  have "file_flow cfg (packets w) (flows w f) = file_packet cfg (packets w p)"
    by (intro ext) (simp only: file_flow_def file_packet_def flow_bytes_def [symmetric] k b)
  with Cons.IH show ?case by (cases ts) simp_all
qed simp

text \<open>What a pass of the parser leaves in the queues: flows that decode the packets, ready to be filed.\<close>

definition batch_ready :: "sim_config \<Rightarrow> nat \<Rightarrow> parser \<Rightarrow> world \<Rightarrow> manager list \<Rightarrow> bool" where
  "batch_ready cfg i pr w ms \<longleftrightarrow> 4 < pipe_depth cfg \<and> has_batch (pqueue pr) \<and> has_batch (flow_pools w i)
     \<and> distinct (intel_list LG2_CAPACITY (flow_pools w i)) \<and> ms \<noteq> []
     \<and> (\<forall>p\<in>set (batch_of (pqueue pr)). sound_packet cfg (packets w p)
          \<and> intel_inv LG2_CAPACITY (packet_pools w (ppool (packets w p)))
          \<and> length (intel_list LG2_CAPACITY (packet_pools w (ppool (packets w p)))) + COUNT \<le> 2 ^ LG2_CAPACITY)
     \<and> (\<forall>f\<in>set (batch_of (flow_pools w i)). fpool (flows w f) = i)
     \<and> (\<forall>m\<in>set ms. (\<exists>chs. table_inv cfg chs m) \<and> intel_inv LG2_CAPACITY (mqueue m) \<and> mq m = [])"

definition handed_over :: "sim_config \<Rightarrow> nat \<Rightarrow> parser \<Rightarrow> world \<Rightarrow> manager list \<Rightarrow> world \<Rightarrow> manager list \<Rightarrow> bool" where
  "handed_over cfg i pr w ms w' ms' \<longleftrightarrow> turns_inv cfg (ms', w') \<and> length ms' = length ms \<and> packets w' = packets w
     \<and> (\<forall>j<length ms. list_all2 (decodes w') (mq (ms' ! j)) (share w (length ms) (batch_of (pqueue pr)) j)
          \<and> session_of (ms' ! j) = session_of (ms ! j))
     \<and> (\<forall>pp. packet_stock (ms', w') pp = mset (intel_list LG2_CAPACITY (packet_pools w pp))
          + mset (filter (\<lambda>p. ppool (packets w p) = pp) (batch_of (pqueue pr))))
     \<and> flow_stock (ms', w') i = mset (intel_list LG2_CAPACITY (flow_pools w i))"

lemma flow_sound_decodes:
  assumes "decodes w' f p" "sound_packet cfg (packets w' p)" "intel_inv LG2_CAPACITY (packet_pools w' (ppool (packets w' p)))"
    and "size (packet_stock (ms', w') (ppool (packets w' p))) \<le> 2 ^ LG2_CAPACITY" "fpool (flows w' f) = i"
    and "intel_inv LG2_CAPACITY (flow_pools w' i)" "size (flow_stock (ms', w') i) \<le> 2 ^ LG2_CAPACITY"
  shows "flow_sound cfg (ms', w') f"
  using assms by (simp add: flow_sound_def decodes_def home_def sound_packet_def)

lemma handed_turns:
  assumes "4 < pipe_depth cfg" "length ms' = length ms"
    and "\<forall>j<length ms. \<exists>q. ms' ! j = (ms ! j)\<lparr>mqueue := q\<rparr> \<and> intel_inv LG2_CAPACITY q
         \<and> intel_list LG2_CAPACITY q = mq (ms ! j) @ g j"
    and "\<And>m. m \<in> set ms \<Longrightarrow> \<exists>chs. table_inv cfg chs m"
    and "\<forall>j<length ms. mq (ms' ! j) = filter (\<lambda>f. t f = j) fs" "\<And>f. f \<in> set fs \<Longrightarrow> flow_sound cfg (ms', w') f"
  shows "turns_inv cfg (ms', w') \<and> (\<forall>j<length ms. session_of (ms' ! j) = session_of (ms ! j))"
proof -
  have m: "(\<exists>chs. table_inv cfg chs (ms' ! j)) \<and> intel_inv LG2_CAPACITY (mqueue (ms' ! j))
      \<and> session_of (ms' ! j) = session_of (ms ! j)" if j: "j < length ms" for j
  proof -
    obtain q where "ms' ! j = (ms ! j)\<lparr>mqueue := q\<rparr>" "intel_inv LG2_CAPACITY q" using assms(3) j by blast
    with assms(4) [OF nth_mem [OF j]] show ?thesis by simp
  qed
  have "(\<exists>chs. table_inv cfg chs m) \<and> intel_inv LG2_CAPACITY (mqueue m) \<and> (\<forall>f\<in>set (mq m). flow_sound cfg (ms', w') f)"
    if m': "m \<in> set ms'" for m
  proof -
    obtain j where j: "j < length ms" "m = ms' ! j" using m' assms(2) unfolding in_set_conv_nth by metis
    then show ?thesis using m [OF j(1)] assms(5,6) by simp
  qed
  then show ?thesis using m assms(1) by (simp add: turns_inv_def)
qed

lemma list_all2_in_left: "list_all2 P xs ys \<Longrightarrow> x \<in> set xs \<Longrightarrow> \<exists>y\<in>set ys. P x y"
  by (induction rule: list_all2_induct) auto

text \<open>The pass itself: what it takes, decodes and queues.\<close>

lemma batch_pass:
  assumes "batch_ready cfg i pr w ms" "length ms \<le> length view" "length view < 2 ^ 32"
  defines "ps \<equiv> batch_of (pqueue pr)" and "fs \<equiv> batch_of (flow_pools w i)" and "n \<equiv> length ms"
  shows "\<exists>pr' w' ms' view'. parser_pass cfg i (pr, w, ms, view) = Ret (pr', w', ms', view')
    \<and> intel_list LG2_CAPACITY (flow_pools w' i) = drop COUNT (intel_list LG2_CAPACITY (flow_pools w i))
    \<and> intel_inv LG2_CAPACITY (flow_pools w' i) \<and> packets w' = packets w \<and> packet_pools w' = packet_pools w
    \<and> length ms' = n
    \<and> (\<forall>j<n. \<exists>q. ms' ! j = (ms ! j)\<lparr>mqueue := q\<rparr> \<and> intel_inv LG2_CAPACITY q
         \<and> intel_list LG2_CAPACITY q = mq (ms ! j) @ filter (\<lambda>f. target w' n f = j) fs)
    \<and> list_all2 (decodes w') fs ps \<and> (\<forall>f\<in>set fs. fpool (flows w' f) = i)"
proof -
  let ?ps = "batch_of (pqueue pr)" and ?fs = "batch_of (flow_pools w i)" and ?n = "length ms"
  have B: "4 < pipe_depth cfg" "has_batch (pqueue pr)" "has_batch (flow_pools w i)"
    "distinct (intel_list LG2_CAPACITY (flow_pools w i))" "ms \<noteq> []"
    using assms(1) by (auto simp: batch_ready_def)
  have S: "sound_packet cfg (packets w p)" "intel_inv LG2_CAPACITY (packet_pools w (ppool (packets w p)))"
    "length (intel_list LG2_CAPACITY (packet_pools w (ppool (packets w p)))) + COUNT \<le> 2 ^ LG2_CAPACITY"
    if "p \<in> set ?ps" for p using assms(1) that by (auto simp: batch_ready_def)
  have F: "fpool (flows w f) = i" if "f \<in> set ?fs" for f using assms(1) that by (auto simp: batch_ready_def)
  have M: "\<exists>chs. table_inv cfg chs m" "intel_inv LG2_CAPACITY (mqueue m)" "mq m = []" if "m \<in> set ms" for m
    using assms(1) that by (auto simp: batch_ready_def)
  have len: "length ?ps = COUNT" "length ?fs = COUNT"
    using B(2,3) by (simp_all add: batch_of_def has_batch_def del: length_intel_list)
  have hdr: "\<forall>p\<in>set (take COUNT (intel_list LG2_CAPACITY (pqueue pr))). headers_inside (data (packets w p))"
    using S(1) by (simp add: sound_packet_def batch_of_def)
  have room: "\<forall>m\<in>set ms. intel_inv LG2_CAPACITY (mqueue m) \<and> length (mq m) + COUNT \<le> 2 ^ LG2_CAPACITY"
  proof
    fix m assume "m \<in> set ms"
    from M(2,3) [OF this] show "intel_inv LG2_CAPACITY (mqueue m) \<and> length (mq m) + COUNT \<le> 2 ^ LG2_CAPACITY"
      by (simp add: COUNT_def LG2_CAPACITY_def del: length_intel_list)
  qed
  have "3 < pipe_depth cfg" using B(1) by simp
  then obtain pr' w' ms' view' where P: "parser_pass cfg i (pr, w, ms, view) = Ret (pr', w', ms', view')"
    "intel_list LG2_CAPACITY (flow_pools w' i) = drop COUNT (intel_list LG2_CAPACITY (flow_pools w i))"
    "intel_inv LG2_CAPACITY (flow_pools w' i)" "packets w' = packets w" "packet_pools w' = packet_pools w"
    "\<forall>k<COUNT. make_flow_item_tcp (?ps ! k) (packets w (?ps ! k)) (flows w (?fs ! k)) = Ret (flows w' (?fs ! k))"
    "length ms' = ?n"
    "\<forall>j<?n. \<exists>q. ms' ! j = (ms ! j)\<lparr>mqueue := q\<rparr> \<and> intel_inv LG2_CAPACITY q
         \<and> intel_list LG2_CAPACITY q = mq (ms ! j) @ filter (\<lambda>f. target w' ?n f = j) ?fs"
    using parser_pass_dispatches [OF _ B(2-5) assms(2,3) hdr room] unfolding batch_of_def [symmetric] by blast
  have D: "decodes w' (?fs ! k) (?ps ! k) \<and> fpool (flows w' (?fs ! k)) = i" if "k < COUNT" for k
  proof -
    have "?ps ! k \<in> set ?ps" "?fs ! k \<in> set ?fs" using that len by simp_all
    then show ?thesis using make_flow_decodes [OF S(1) P(6) [rule_format, OF that] P(4)] F by simp
  qed
  have "list_all2 (decodes w') ?fs ?ps" using D len by (simp add: list_all2_conv_all_nth)
  moreover have "\<forall>f\<in>set ?fs. fpool (flows w' f) = i" using D len by (metis in_set_conv_nth)
  ultimately show ?thesis unfolding ps_def fs_def n_def using P(1-5,7,8) by blast
qed

lemma parser_hands_over:
  assumes "batch_ready cfg i pr w ms" "length ms \<le> length view" "length view < 2 ^ 32"
  shows "\<exists>pr' w' ms' view'. parser_pass cfg i (pr, w, ms, view) = Ret (pr', w', ms', view')
    \<and> handed_over cfg i pr w ms w' ms'"
proof -
  let ?ps = "batch_of (pqueue pr)" and ?fs = "batch_of (flow_pools w i)" and ?n = "length ms"
  have B: "4 < pipe_depth cfg" "has_batch (pqueue pr)" "has_batch (flow_pools w i)"
    "distinct (intel_list LG2_CAPACITY (flow_pools w i))" "ms \<noteq> []"
    using assms(1) by (auto simp: batch_ready_def)
  have S: "sound_packet cfg (packets w p)" "intel_inv LG2_CAPACITY (packet_pools w (ppool (packets w p)))"
    "length (intel_list LG2_CAPACITY (packet_pools w (ppool (packets w p)))) + COUNT \<le> 2 ^ LG2_CAPACITY"
    if "p \<in> set ?ps" for p using assms(1) that by (auto simp: batch_ready_def)
  have M: "\<exists>chs. table_inv cfg chs m" "intel_inv LG2_CAPACITY (mqueue m)" "mq m = []" if "m \<in> set ms" for m
    using assms(1) that by (auto simp: batch_ready_def)
  obtain pr' w' ms' view' where P: "parser_pass cfg i (pr, w, ms, view) = Ret (pr', w', ms', view')"
    "intel_list LG2_CAPACITY (flow_pools w' i) = drop COUNT (intel_list LG2_CAPACITY (flow_pools w i))"
    "intel_inv LG2_CAPACITY (flow_pools w' i)" "packets w' = packets w" "packet_pools w' = packet_pools w" "length ms' = ?n"
    "\<forall>j<?n. \<exists>q. ms' ! j = (ms ! j)\<lparr>mqueue := q\<rparr> \<and> intel_inv LG2_CAPACITY q
         \<and> intel_list LG2_CAPACITY q = mq (ms ! j) @ filter (\<lambda>f. target w' ?n f = j) ?fs"
    and A: "list_all2 (decodes w') ?fs ?ps" and F: "\<forall>f\<in>set ?fs. fpool (flows w' f) = i"
    using batch_pass [OF assms] by blast
  have T: "\<forall>f\<in>set ?fs. target w' ?n f < ?n" using B(5) assms(2,3) by (intro ballI target_less) auto
  have Q: "\<forall>j<?n. mq (ms' ! j) = filter (\<lambda>f. target w' ?n f = j) ?fs" using P(7) M(3) by force
  have dec: "\<exists>p\<in>set ?ps. decodes w' f p" "fpool (flows w' f) = i" if "f \<in> set ?fs" for f
    using A F that by (auto dest: list_all2_in_left)
  have len: "length ?ps = COUNT" using B(2) by (simp add: batch_of_def has_batch_def del: length_intel_list)
  have ps: "packet_stock (ms', w') pp = mset (intel_list LG2_CAPACITY (packet_pools w pp))
      + mset (filter (\<lambda>p. ppool (packets w p) = pp) ?ps)" for pp
    using waiting_packets_sum [OF P(6) T Q A] by (simp only: packet_stock_def prod.case P(4,5))
  have fs: "flow_stock (ms', w') i = mset (intel_list LG2_CAPACITY (flow_pools w i))"
    using waiting_flows_sum [OF P(6) T Q] dec(2) unfolding flow_stock_def prod.case P(2)
    by (metis append_take_drop_id batch_of_def mset_append union_commute)
  have "size (packet_stock (ms', w') (ppool (packets w p))) \<le> 2 ^ LG2_CAPACITY" if "p \<in> set ?ps" for p
  proof -
    have "size (mset (filter (\<lambda>q. ppool (packets w q) = ppool (packets w p)) ?ps)) \<le> COUNT"
      unfolding size_mset using length_filter_le len by metis
    then show ?thesis using S(3) [OF that] unfolding ps size_union size_mset by linarith
  qed
  moreover have "size (flow_stock (ms', w') i) \<le> 2 ^ LG2_CAPACITY"
    unfolding fs size_mset using B(3) by (intro iq.bounded) (simp add: has_batch_def)
  ultimately have sound: "flow_sound cfg (ms', w') f" if "f \<in> set ?fs" for f
    using dec [OF that] flow_sound_decodes S(1,2) P(3-5) by metis
  have inv: "turns_inv cfg (ms', w')" "\<forall>j<?n. session_of (ms' ! j) = session_of (ms ! j)"
    using handed_turns [OF B(1) P(6,7) M(1) Q] sound by auto
  have shr: "list_all2 (decodes w') (mq (ms' ! j)) (share w ?n ?ps j)" if "j < ?n" for j
    unfolding share_def Q [rule_format, OF that] using target_manager [of w'] P(4) by (intro filter_decodes [OF A]) simp
  show ?thesis using P(1,4,6) ps fs inv shr unfolding handed_over_def by blast
qed

text \<open>As many turns as flows: the queues are emptied.\<close>

lemma schedule_files:
  assumes inv: "turns_inv cfg (ms, w)" and t: "\<forall>t\<in>set turns. fst t < length ms"
    and n: "\<And>j. j < length ms \<Longrightarrow> length (times_of j turns) = length (mq (ms ! j))"
    and c: "\<And>j. j < length ms \<Longrightarrow> card (dom (session_of (ms ! j))) + length (times_of j turns) \<le> 2 ^ MANAGER_POOL"
  shows "\<exists>ms' w'. mt.steps cfg turns (ms, w) = Ret (ms', w') \<and> length ms' = length ms
    \<and> (\<forall>j<length ms. (\<exists>chs. table_inv cfg chs (ms' ! j)) \<and> mq (ms' ! j) = [] \<and> session_of (ms' ! j)
         = fold (\<lambda>(now, f). file_flow cfg (packets w) (flows w f) now) (zip (times_of j turns) (mq (ms ! j))) (session_of (ms ! j)))
    \<and> (\<forall>pp. mset (intel_list LG2_CAPACITY (packet_pools w' pp)) = packet_stock (ms, w) pp)
    \<and> (\<forall>i. mset (intel_list LG2_CAPACITY (flow_pools w' i)) = flow_stock (ms, w) i)"
proof -
  let ?A = "turn_abs (ms, w)"
  have A: "length ?A = length ms" "\<And>j. j < length ms \<Longrightarrow> ?A ! j = (mq (ms ! j), session_of (ms ! j))"
    by (simp_all add: turn_abs_def)
  have E: "enough ?A turns" unfolding enough_def A(1) using t n c A(2) by simp
  obtain ms' w' where R: "mt.steps cfg turns (ms, w) = Ret (ms', w')" "turns_inv cfg (ms', w')"
    "turn_abs (ms', w') = fold (turn_spec cfg (turn_env (ms, w))) turns ?A" "turn_env (ms', w') = turn_env (ms, w)"
    using mt.steps_refine [OF inv schedule_ready [OF inv E]] by auto
  have F: "length (turn_abs (ms', w')) = length ms
      \<and> turn_abs (ms', w') ! j = ([], fold (\<lambda>(now, f). file_flow cfg (packets w) (flows w f) now)
          (zip (times_of j turns) (mq (ms ! j))) (session_of (ms ! j)))" if j: "j < length ms" for j
    using fold_turns [OF E, of j cfg "packets w" "flows w" "(packet_stock (ms, w), flow_stock (ms, w))"] A j n [OF j]
    unfolding R(3) turn_env_def prod.case by simp
  have len: "length ms' = length ms"
  proof (cases ms)
    case Nil
    then have "turns = []" using t by (cases turns) auto
    then show ?thesis using R(1) by simp
  next
    case Cons
    then show ?thesis using F [of 0] by (simp add: turn_abs_def)
  qed
  have Q: "mq (ms' ! j) = [] \<and> session_of (ms' ! j) = fold (\<lambda>(now, f). file_flow cfg (packets w) (flows w f) now)
      (zip (times_of j turns) (mq (ms ! j))) (session_of (ms ! j))" if j: "j < length ms" for j
    using F [OF j] len j by (simp add: turn_abs_def)
  then have e: "mq m = []" if "m \<in> set ms'" for m using that len by (auto simp: in_set_conv_nth)
  have "(\<Sum>m\<leftarrow>ms'. waiting_packets w' pp m) = {#}" "(\<Sum>m\<leftarrow>ms'. waiting_flows w' k m) = {#}" for pp k
    using e by (auto simp: waiting_packets_def waiting_flows_def cong: map_cong)
  moreover have "packet_stock (ms', w') = packet_stock (ms, w)" "flow_stock (ms', w') = flow_stock (ms, w)"
    using R(4) by (simp_all add: turn_env_def)
  ultimately have "mset (intel_list LG2_CAPACITY (packet_pools w' k)) = packet_stock (ms, w) k"
    "mset (intel_list LG2_CAPACITY (flow_pools w' k)) = flow_stock (ms, w) k" for k
    by (simp_all add: packet_stock_def flow_stock_def fun_eq_iff)
  moreover have "\<exists>chs. table_inv cfg chs (ms' ! j)" if "j < length ms" for j
    using R(2) that len by (auto simp: turns_inv_def)
  ultimately show ?thesis using R(1) len Q by blast
qed

section \<open>Properties\<close>

text \<open>C6. The parser and the managers together, at full pipeline depth: a parser takes 64 packets, and the
  managers then get, in any interleaving, as many turns as they were handed flows. Every turn
  returns; in the end the queues are empty, each manager has filed the packets that hash to it, in
  the order in which the parser took them, each under the key and with the bytes read from the
  packet itself, and every packet and every flow is back in the pool it belongs to.\<close>

theorem batch_is_filed:
  assumes "batch_ready cfg i pr w ms" "length ms \<le> length view" "length view < 2 ^ 32"
    and "\<forall>t\<in>set turns. fst t < length ms"
    and "\<forall>j<length ms. length (times_of j turns) = length (share w (length ms) (batch_of (pqueue pr)) j)
      \<and> card (dom (session_of (ms ! j))) + length (times_of j turns) \<le> 2 ^ MANAGER_POOL"
  shows "\<exists>pr' w' ms' view' ms'' w''. parser_pass cfg i (pr, w, ms, view) = Ret (pr', w', ms', view')
    \<and> mt.steps cfg turns (ms', w') = Ret (ms'', w'') \<and> length ms'' = length ms
    \<and> (\<forall>j<length ms. (\<exists>chs. table_inv cfg chs (ms'' ! j)) \<and> mq (ms'' ! j) = [] \<and> session_of (ms'' ! j)
         = fold (\<lambda>(now, p). file_packet cfg (packets w p) now)
             (zip (times_of j turns) (share w (length ms) (batch_of (pqueue pr)) j)) (session_of (ms ! j)))
    \<and> (\<forall>pp. mset (intel_list LG2_CAPACITY (packet_pools w'' pp)) = mset (intel_list LG2_CAPACITY (packet_pools w pp))
         + mset (filter (\<lambda>p. ppool (packets w p) = pp) (batch_of (pqueue pr))))
    \<and> mset (intel_list LG2_CAPACITY (flow_pools w'' i)) = mset (intel_list LG2_CAPACITY (flow_pools w i))"
proof -
  let ?n = "length ms" and ?ps = "batch_of (pqueue pr)"
  obtain pr' w' ms' view' where P: "parser_pass cfg i (pr, w, ms, view) = Ret (pr', w', ms', view')"
    and H: "handed_over cfg i pr w ms w' ms'"
    using parser_hands_over [OF assms(1-3)] by blast
  have T: "turns_inv cfg (ms', w')" "length ms' = ?n" "packets w' = packets w"
    and Q: "\<And>j. j < ?n \<Longrightarrow> list_all2 (decodes w') (mq (ms' ! j)) (share w ?n ?ps j)"
      "\<And>j. j < ?n \<Longrightarrow> session_of (ms' ! j) = session_of (ms ! j)"
    and S: "\<And>pp. packet_stock (ms', w') pp = mset (intel_list LG2_CAPACITY (packet_pools w pp))
          + mset (filter (\<lambda>p. ppool (packets w p) = pp) ?ps)"
      "flow_stock (ms', w') i = mset (intel_list LG2_CAPACITY (flow_pools w i))"
    using H unfolding handed_over_def by blast+
  have L: "length (times_of j turns) = length (mq (ms' ! j))"
    "card (dom (session_of (ms' ! j))) + length (times_of j turns) \<le> 2 ^ MANAGER_POOL" if "j < length ms'" for j
    using list_all2_lengthD [OF Q(1)] Q(2) assms(5) that T(2) by metis+
  obtain ms'' w'' where R: "mt.steps cfg turns (ms', w') = Ret (ms'', w'')" "length ms'' = ?n"
    "\<forall>j<?n. (\<exists>chs. table_inv cfg chs (ms'' ! j)) \<and> mq (ms'' ! j) = [] \<and> session_of (ms'' ! j)
       = fold (\<lambda>(now, f). file_flow cfg (packets w') (flows w' f) now) (zip (times_of j turns) (mq (ms' ! j))) (session_of (ms' ! j))"
    "\<forall>pp. mset (intel_list LG2_CAPACITY (packet_pools w'' pp)) = packet_stock (ms', w') pp"
    "\<forall>i. mset (intel_list LG2_CAPACITY (flow_pools w'' i)) = flow_stock (ms', w') i"
    using schedule_files [OF T(1) assms(4) [folded T(2)] L] unfolding T(2) by blast
  have "fold (\<lambda>(now, f). file_flow cfg (packets w') (flows w' f) now) (zip (times_of j turns) (mq (ms' ! j))) (session_of (ms' ! j))
      = fold (\<lambda>(now, p). file_packet cfg (packets w p) now) (zip (times_of j turns) (share w ?n ?ps j)) (session_of (ms ! j))"
    if "j < ?n" for j using fold_decodes [OF Q(1) [OF that]] Q(2) [OF that] unfolding T(3) by simp
  with P R S show ?thesis
    by (intro exI [of _ pr'] exI [of _ w'] exI [of _ ms'] exI [of _ view'] exI [of _ ms''] exI [of _ w''] conjI) simp_all
qed

text \<open>Sixty-four copies of one packet, a parser that holds them, and one manager.\<close>

definition batch_world :: world where
  "batch_world = \<lparr>packets = \<lambda>_. demo_packet 1 11 2 22, flows = \<lambda>_. no_flow\<lparr>fpool := 0\<rparr>,
     packet_pools = \<lambda>_. intel_init LG2_CAPACITY 0 (replicate (2 ^ LG2_CAPACITY) 0), flow_pools = \<lambda>_. demo_queue\<rparr>"

lemma batch_world_sound: "sound_packet demo_cfg (packets batch_world p)"
proof -
  have d: "packets batch_world p = demo_packet 1 11 2 22" by (simp add: batch_world_def)
  have "data (demo_packet 1 11 2 22) = demo_bytes 1 11 2 22" "plength (demo_packet 1 11 2 22) = 56" by (simp_all add: demo_packet_def)
  then show ?thesis unfolding sound_packet_def packet_text_def d
    using demo_bytes_fields(1-3) length_demo_bytes by (simp add: demo_cfg_def)
qed

lemma empty_pool:
  "intel_inv LG2_CAPACITY (intel_init LG2_CAPACITY (0::nat) (replicate (2 ^ LG2_CAPACITY) 0))
   \<and> intel_list LG2_CAPACITY (intel_init LG2_CAPACITY (0::nat) (replicate (2 ^ LG2_CAPACITY) 0)) = []"
  by (rule intel_init_inv) (simp_all add: LG2_CAPACITY_def)

lemma batch_world_ready:
  assumes "table_inv demo_cfg chs m" "intel_inv LG2_CAPACITY (mqueue m)" "mq m = []"
  shows "batch_ready demo_cfg 0 demo_parser batch_world [m]"
proof -
  have q: "pqueue demo_parser = demo_queue" "flow_pools batch_world 0 = demo_queue"
    "packet_pools batch_world k = intel_init LG2_CAPACITY 0 (replicate (2 ^ LG2_CAPACITY) 0)"
    "fpool (flows batch_world f) = 0" for k f
    by (simp_all add: demo_parser_def batch_world_def)
  have "length (intel_list LG2_CAPACITY (intel_init LG2_CAPACITY (0::nat) (replicate (2 ^ LG2_CAPACITY) 0))) + COUNT \<le> 2 ^ LG2_CAPACITY"
    unfolding conjunct2 [OF empty_pool] by (simp add: COUNT_def LG2_CAPACITY_def)
  then show ?thesis
    unfolding batch_ready_def q using demo_queue_batch batch_world_sound empty_pool assms by (auto simp del: length_intel_list)
qed

theorem batch_is_filed_witness:
  "\<exists>m pr' w' ms' view' ms'' w''. demo_started = Ret m
     \<and> parser_pass demo_cfg 0 (demo_parser, batch_world, [m], replicate 36 0) = Ret (pr', w', ms', view')
     \<and> mt.steps demo_cfg (replicate 64 (0, 77)) (ms', w') = Ret (ms'', w'')
     \<and> mq (ms'' ! 0) = [] \<and> mset (intel_list LG2_CAPACITY (packet_pools w'' 0)) = mset [0..<64]"
proof -
  obtain m where m: "demo_started = Ret m" "table_inv demo_cfg (\<lambda>_. []) m" "session_of m = (\<lambda>_. None)"
    "intel_inv LG2_CAPACITY (mqueue m)" "mq m = []" using demo_started_ok by blast
  let ?ts = "replicate 64 (0::nat, 77::u64)"
  have b: "batch_of (pqueue demo_parser) = [0..<64]"
    by (simp add: batch_of_def demo_parser_def demo_queue_list COUNT_def del: upt_rec_numeral)
  have "manager_of 1 (packets batch_world p) = 0" for p
    by (simp add: manager_of_def MAKE_HASH_def Let_def split: prod.split)
  then have s: "share batch_world 1 [0..<64] 0 = [0..<64]" by (simp add: share_def del: upt_rec_numeral)
  have t: "times_of 0 ?ts = replicate 64 77" by (simp add: times_of_def)
  have h: "\<forall>t\<in>set ?ts. fst t < length [m]" "\<forall>j<length [m]. length (times_of j ?ts)
        = length (share batch_world (length [m]) (batch_of (pqueue demo_parser)) j)
      \<and> card (dom (session_of ([m] ! j))) + length (times_of j ?ts) \<le> 2 ^ MANAGER_POOL"
    using s t unfolding b by (simp_all add: m(3) MANAGER_POOL_def del: upt_rec_numeral)
  have "ppool (packets batch_world p) = 0" for p by (simp add: batch_world_def demo_packet_def)
  then have f: "filter (\<lambda>p. ppool (packets batch_world p) = 0) [0..<64] = [0..<64]" by (simp del: upt_rec_numeral)
  have p: "intel_list LG2_CAPACITY (packet_pools batch_world 0) = []" using empty_pool by (simp add: batch_world_def)
  have l: "length [m] \<le> length (replicate 36 (0::u32))" "length (replicate 36 (0::u32)) < 2 ^ 32" by simp_all
  from batch_is_filed [OF batch_world_ready [OF m(2,4,5)] l h] obtain pr' w' ms' view' ms'' w''
    where "parser_pass demo_cfg 0 (demo_parser, batch_world, [m], replicate 36 0) = Ret (pr', w', ms', view')"
      "mt.steps demo_cfg ?ts (ms', w') = Ret (ms'', w'')" "mq (ms'' ! 0) = []"
      "mset (intel_list LG2_CAPACITY (packet_pools w'' 0)) = mset [] + mset (filter (\<lambda>p. ppool (packets batch_world p) = 0) [0..<64])"
    unfolding b using p by (auto simp del: upt_rec_numeral)
  with m(1) f show ?thesis by (auto simp del: upt_rec_numeral)
qed

section \<open>From the generator to the parser\<close>

text \<open>The key of the packet a generator sends under configuration \<open>c\<close>.\<close>

definition drawn_key :: "sim_config \<Rightarrow> key" where
  "drawn_key c = (let s = htonl (fst (GET_NEXT_SRCIP c)); t = htonl (fst (GET_NEXT_DSTIP c));
       sp = htons (ucast (fst (GET_NEXT_SRCPORT c))); tp = htons (ucast (fst (GET_NEXT_DSTPORT c)))
     in (max s t, min s t, ucast (max sp tp), ucast (min sp tp), 6))"

text \<open>A TCP packet of the configured length that carries the configured text.\<close>

definition made :: "sim_config \<Rightarrow> u8 list \<Rightarrow> packet \<Rightarrow> bool" where
  "made c str pkt \<longleftrightarrow> tcp_shape (data pkt) \<and> length (data pkt) = nat (pktlen c) + 2
     \<and> plength pkt = word_of_int (pktlen c) \<and> drop 56 (data pkt) = cycle_text str (nat (pktlen c) - 54)"

lemma made_sound:
  assumes "made c str pkt"
    and "54 \<le> pktlen c" "pktlen c + 2 < 2 ^ 32" "nat (pktlen c) - 54 \<le> nat (manager_buffer_size cfg)"
  shows "sound_packet cfg pkt \<and> packet_text pkt = cycle_text str (nat (pktlen c) - 54)"
proof -
  have d: "length (data pkt) = nat (pktlen c) + 2" "tcp_shape (data pkt)" "drop 56 (data pkt) = cycle_text str (nat (pktlen c) - 54)"
    "plength pkt = word_of_int (pktlen c)"
    using assms(1) by (simp_all add: made_def)
  have sh: "headers_inside (data pkt)" "ip_hdr_len (data pkt) = 20" "tcp_hdr_len (data pkt) = 20"
    using d(2) by (simp_all add: tcp_shape_def)
  have len: "unat (plength pkt) = nat (pktlen c)"
    using d(4) assms(2,3) by (simp add: unat_eq_nat_uint uint_word_of_int_eq take_bit_int_eq_self)
  have t: "packet_text pkt = cycle_text str (nat (pktlen c) - 54)"
    unfolding packet_text_def sh len using d(1,3) by simp
  have "sound_packet cfg pkt"
    unfolding sound_packet_def t sh len using sh(1) d(1) assms(2-4) by (simp add: cycle_text_def) linarith
  with t show ?thesis by blast
qed

text \<open>The key of a packet that was built, or given new addresses and ports, under configuration \<open>c\<close>.\<close>

lemma generated_key: "generated c str (data pkt) \<Longrightarrow> packet_key pkt = drawn_key c"
  by (simp add: packet_key_def drawn_key_def generated_def tcp_shape_def Let_def)

lemma renewed_key: "renewed c d (data pkt) \<Longrightarrow> packet_key pkt = drawn_key c"
  by (simp add: packet_key_def drawn_key_def renewed_def tcp_shape_def Let_def)

end
