(* ===== verification/Config_File.thy ===== *)
theory Config_File
  imports Sim_Config Byte_Memory
begin

unbundle bit_operations_syntax

text \<open>
  \<^verbatim>\<open>src/config.c\<close>: the scanner of configuration lines, the readers of a configuration file, the
  conversions of Ethernet addresses and the default configuration. A C string is the list of its
  bytes before the final zero byte, a file the list of its bytes. The conversions of the C library
  that the code calls (\<^verbatim>\<open>strtoul\<close>, \<^verbatim>\<open>atoi\<close>, \<^verbatim>\<open>sscanf\<close>, \<^verbatim>\<open>fgets\<close>, \<^verbatim>\<open>strstr\<close>) are written out for the arguments it passes.
\<close>

section \<open>Characters and numbers\<close>

definition ascii :: "string \<Rightarrow> u8 list" where
  "ascii s = map of_char s"

definition isspace :: "u8 \<Rightarrow> bool" where
  "isspace c \<longleftrightarrow> c = 32 \<or> 9 \<le> c \<and> c \<le> 13"

definition toupper :: "u8 \<Rightarrow> u8" where
  "toupper c = (if 97 \<le> c \<and> c \<le> 122 then c - 32 else c)"

text \<open>The value of a digit in base 10 or 16.\<close>

definition digit :: "nat \<Rightarrow> u8 \<Rightarrow> nat option" where
  "digit base c =
     (let v = if 48 \<le> c \<and> c \<le> 57 then unat c - 48
              else if 65 \<le> c \<and> c \<le> 70 then unat c - 55
              else if 97 \<le> c \<and> c \<le> 102 then unat c - 87 else 16
      in if v < base then Some v else None)"

definition is_digit :: "nat \<Rightarrow> u8 \<Rightarrow> bool" where
  "is_digit base c \<longleftrightarrow> digit base c \<noteq> None"

definition number :: "nat \<Rightarrow> u8 list \<Rightarrow> nat" where
  "number base ds = foldl (\<lambda>v c. v * base + (case digit base c of Some d \<Rightarrow> d | None \<Rightarrow> 0)) 0 ds"

text \<open>An optional sign: whether it is a minus, and what follows.\<close>

fun sign :: "u8 list \<Rightarrow> bool \<times> u8 list" where
  "sign (c # cs) = (if c = 45 then (True, cs) else if c = 43 then (False, cs) else (False, c # cs))"
| "sign [] = (False, [])"

text \<open>\<^verbatim>\<open>0x\<close> in front of a hexadecimal number.\<close>

fun skip_0x :: "nat \<Rightarrow> u8 list \<Rightarrow> u8 list" where
  "skip_0x base (z # x # d # cs) =
     (if base = 16 \<and> z = 48 \<and> (x = 120 \<or> x = 88) \<and> is_digit 16 d then d # cs else z # x # d # cs)"
| "skip_0x base cs = cs"

text \<open>Sign, digits and rest of the number at the start of a string; \<open>None\<close> if there is none.\<close>

definition scan_number :: "nat \<Rightarrow> u8 list \<Rightarrow> (bool \<times> nat \<times> u8 list) option" where
  "scan_number base s =
     (let (neg, t) = sign (dropWhile isspace s);
          u = skip_0x base t; ds = takeWhile (is_digit base) u
      in if ds = [] then None else Some (neg, number base ds, dropWhile (is_digit base) u))"

definition strtoul :: "nat \<Rightarrow> u8 list \<Rightarrow> u64 \<times> u8 list" where
  "strtoul base s =
     (case scan_number base s of None \<Rightarrow> (0, s)
      | Some (neg, n, rest) \<Rightarrow>
          (if 2 ^ 64 \<le> n then - 1 else if neg then - of_nat n else of_nat n, rest))"

definition atoi :: "u8 list \<Rightarrow> int" where
  "atoi s =
     (case scan_number 10 s of None \<Rightarrow> 0
      | Some (neg, n, rest) \<Rightarrow>
          sint (word_of_int (if neg then max (- int n) (- (2 ^ 63)) else min (int n) (2 ^ 63 - 1)) :: u32))"

text \<open>
  \<^verbatim>\<open>sscanf\<close> with a format of \<^verbatim>\<open>%u\<close> fields and one literal character between two of them: the values
  converted before the first mismatch; \<open>None\<close> is the return value \<open>-1\<close>, for an input that ends before the first field.
\<close>

fun scan_fields :: "u8 list \<Rightarrow> u8 list \<Rightarrow> u32 list" where
  "scan_fields [] s = (if scan_number 10 s = None then [] else [ucast (fst (strtoul 10 s))])"
| "scan_fields (sep # seps) s =
     (if scan_number 10 s = None then []
      else ucast (fst (strtoul 10 s)) #
        (case snd (strtoul 10 s) of [] \<Rightarrow> [] | c # cs \<Rightarrow> if c = sep then scan_fields seps cs else []))"

definition sscanf_u :: "u8 list \<Rightarrow> u8 list \<Rightarrow> u32 list option" where
  "sscanf_u seps s = (if dropWhile isspace s = [] then None else Some (scan_fields seps s))"

fun strstr :: "u8 list \<Rightarrow> u8 list \<Rightarrow> bool" where
  "strstr [] needle \<longleftrightarrow> needle = []"
| "strstr (c # cs) needle \<longleftrightarrow> take (length needle) (c # cs) = needle \<or> strstr cs needle"

text \<open>\<^verbatim>\<open>fgets(buf, size, fp)\<close>: the bytes read, the rest of the file, and whether the end of the file was hit.\<close>

fun fgets :: "nat \<Rightarrow> u8 list \<Rightarrow> u8 list \<times> u8 list \<times> bool" where
  "fgets 0 s = ([], s, False)"
| "fgets (Suc n) [] = ([], [], True)"
| "fgets (Suc n) (c # s) =
     (if c = 10 then ([c], s, False) else let (l, rest, eof) = fgets n s in (c # l, rest, eof))"

section \<open>Lines\<close>

definition skip_var_name :: "u8 list \<Rightarrow> u8 list" where
  "skip_var_name p = dropWhile (\<lambda>c. \<not> isspace c \<and> c \<noteq> 61) p"

definition skip_opeartor :: "u8 list \<Rightarrow> u8 list" where
  "skip_opeartor p = dropWhile (\<lambda>c. isspace c \<or> c = 61) p"

definition strupr :: "u8 list \<Rightarrow> u8 list" where
  "strupr p = map toupper p"

text \<open>What both readers do with a line: \<open>None\<close> for a comment, otherwise the name in upper case and the value.\<close>

definition split_line :: "u8 list \<Rightarrow> (u8 list \<times> u8 list) option" where
  "split_line buf =
     (let p = dropWhile isspace buf
      in if p \<noteq> [] \<and> hd p = 35 then None
         else let q = skip_var_name p
              in Some (strupr (take (length p - length q) p), skip_opeartor q))"

section \<open>Ethernet addresses\<close>

text \<open>The loop: \<open>i\<close> bytes of \<open>e\<close> have been written.\<close>

function atoe_loop :: "u8 list \<Rightarrow> nat \<Rightarrow> u8 list \<Rightarrow> bool \<times> u8 list" where
  "atoe_loop c i e =
     (if 6 \<le> i then (i = 6, e)
      else let (v, c') = strtoul 16 c; e' = e[i := ucast v]
           in if c' = [] \<or> Suc i = 6 then (Suc i = 6, e') else atoe_loop (tl c') (Suc i) e')"
  by pat_completeness auto

termination atoe_loop
  by (relation "measure (\<lambda>(c, i, e). 6 - i)") auto

declare atoe_loop.simps [simp del]

definition ether_atoe :: "u8 list \<Rightarrow> bool \<times> u8 list" where
  "ether_atoe a = atoe_loop a 0 (replicate 6 0)"

definition hex_char :: "nat \<Rightarrow> u8" where
  "hex_char n = of_nat (if n < 10 then 48 + n else 55 + n)"

definition print_02X :: "u8 \<Rightarrow> u8 list" where
  "print_02X b = [hex_char (unat b div 16), hex_char (unat b mod 16)]"

fun etoa_from :: "nat \<Rightarrow> u8 list \<Rightarrow> u8 list" where
  "etoa_from i [] = []"
| "etoa_from i (b # e) = (if i = 0 then [] else [58]) @ print_02X b @ etoa_from (Suc i) e"

definition ether_etoa :: "u8 list \<Rightarrow> u8 list" where
  "ether_etoa e = etoa_from 0 (take 6 e)"

section \<open>Reading a configuration file\<close>

text \<open>
  What a line makes the reader do: go on, return, end the process, or write before the start of a
  buffer. \<open>counter\<close> and \<open>port\<close> are what the uninitialised variables of these names hold.
\<close>

datatype line_result = Next sim_config | Return sim_config | Exit | Bad_Write

definition ip_of :: "u32 list \<Rightarrow> u32" where
  "ip_of f =
     (let ipaddr = f @ replicate (4 - length f) 0
      in push_bit 24 (ipaddr ! 0) OR push_bit 16 (ipaddr ! 1) OR push_bit 8 (ipaddr ! 2) OR ipaddr ! 3)"

text \<open>The value of \<^verbatim>\<open>counter\<close> after the scan: converted, set to 0 after exactly one conversion, or never set.\<close>

definition counter_of :: "nat \<Rightarrow> u32 list \<Rightarrow> u32 \<Rightarrow> u32" where
  "counter_of at f counter = (if length f = 1 then 0 else if at < length f then f ! at else counter)"

definition set_srcip :: "u32 \<Rightarrow> u8 list \<Rightarrow> sim_config \<Rightarrow> line_result" where
  "set_srcip counter p config =
     (case sscanf_u [46, 46, 46, 43] p of None \<Rightarrow> Return config
      | Some f \<Rightarrow>
          let a = ip_of f
          in Next (config\<lparr>saddr_min := a, saddr_cur := a, saddr_max := a + counter_of 4 f counter\<rparr>))"

definition set_dstip :: "u32 \<Rightarrow> u8 list \<Rightarrow> sim_config \<Rightarrow> line_result" where
  "set_dstip counter p config =
     (case sscanf_u [46, 46, 46, 43] p of None \<Rightarrow> Return config
      | Some f \<Rightarrow>
          let a = ip_of f
          in Next (config\<lparr>daddr_min := a, daddr_cur := a, daddr_max := a + counter_of 4 f counter\<rparr>))"

definition set_srcport :: "u32 \<Rightarrow> u32 \<Rightarrow> u8 list \<Rightarrow> sim_config \<Rightarrow> line_result" where
  "set_srcport counter port p config =
     (case sscanf_u [43] p of None \<Rightarrow> Return config
      | Some f \<Rightarrow>
          let q = if f = [] then port else f ! 0
          in Next (config\<lparr>sport_min := q, sport_cur := q, sport_max := q + counter_of 1 f counter\<rparr>))"

definition set_dstport :: "u32 \<Rightarrow> u32 \<Rightarrow> u8 list \<Rightarrow> sim_config \<Rightarrow> line_result" where
  "set_dstport counter port p config =
     (case sscanf_u [43] p of None \<Rightarrow> Return config
      | Some f \<Rightarrow>
          let q = if f = [] then port else f ! 0
          in Next (config\<lparr>dport_min := q, dport_cur := q, dport_max := q + counter_of 1 f counter\<rparr>))"

text \<open>\<^verbatim>\<open>config->link_name[length - 1] = 0\<close>: the last character of the value is cut off.\<close>

definition set_link_name :: "u8 list \<Rightarrow> sim_config \<Rightarrow> line_result" where
  "set_link_name p config = (if p = [] then Bad_Write else Next (config\<lparr>link_name := Some (butlast p)\<rparr>))"

text \<open>The chain of comparisons, from \<^verbatim>\<open>GENERATOR_NUMS\<close> on.\<close>

definition set_number :: "u8 list \<Rightarrow> u8 list \<Rightarrow> sim_config \<Rightarrow> sim_config" where
  "set_number pname p config =
     (if pname = ascii ''GENERATOR_NUMS'' then config\<lparr>generator_nums := atoi p\<rparr>
      else if pname = ascii ''PARSER_NUMS'' then config\<lparr>parser_nums := atoi p\<rparr>
      else if pname = ascii ''MANAGER_NUMS'' then config\<lparr>manager_nums := atoi p\<rparr>
      else if pname = ascii ''GENERATOR_POOL_SIZE'' then config\<lparr>generator_pool_size := atoi p\<rparr>
      else if pname = ascii ''PARSER_QUEUE_LENGTH'' then config\<lparr>parser_queue_length := atoi p\<rparr>
      else if pname = ascii ''PARSER_POOL_SIZE'' then config\<lparr>parser_pool_size := atoi p\<rparr>
      else if pname = ascii ''MANAGER_POOL_SIZE'' then config\<lparr>manager_pool_size := atoi p\<rparr>
      else if pname = ascii ''MANAGER_QUEUE_LENGTH'' then config\<lparr>manager_queue_length := atoi p\<rparr>
      else if pname = ascii ''MANAGER_HASH_LENGTH'' then config\<lparr>manager_hash_length := atoi p\<rparr>
      else if pname = ascii ''MANAGER_BUFFER_SIZE'' then config\<lparr>manager_buffer_size := atoi p\<rparr>
      else if pname = ascii ''PACKET_GENERATOR_MODE'' then config\<lparr>packet_generator_mode := atoi p\<rparr>
      else if pname = ascii ''PIPE_DEPTH'' then config\<lparr>pipe_depth := atoi p\<rparr>
      else if pname = ascii ''SCREEN_DISPLAY'' then config\<lparr>screen_display := atoi p\<rparr>
      else if pname = ascii ''SPEED_MODE'' then config\<lparr>speed_mode := atoi p\<rparr>
      else if pname = ascii ''DESTORY_TIME'' then config\<lparr>destory_time := atoi p\<rparr>
      else config)"

definition set_entry :: "u32 \<Rightarrow> u32 \<Rightarrow> u8 list \<Rightarrow> u8 list \<Rightarrow> sim_config \<Rightarrow> line_result" where
  "set_entry counter port pname p config =
     (if pname = ascii ''PROTO''
      then if strstr p (ascii ''tcp'') then Next (config\<lparr>cfg_protocol := 6\<rparr>)
           else if strstr p (ascii ''udp'') then Next (config\<lparr>cfg_protocol := 17\<rparr>)
           else Next config
      else if pname = ascii ''SRCMAC'' then Next (config\<lparr>srcmac := snd (ether_atoe p)\<rparr>)
      else if pname = ascii ''DSTMAC'' then Next (config\<lparr>dstmac := snd (ether_atoe p)\<rparr>)
      else if pname = ascii ''SRCIP'' then set_srcip counter p config
      else if pname = ascii ''DSTIP'' then set_dstip counter p config
      else if pname = ascii ''SRCPORT'' then set_srcport counter port p config
      else if pname = ascii ''DSTPORT'' then set_dstport counter port p config
      else if pname = ascii ''PKTLEN''
      then if atoi p > 1600 then Exit else Next (config\<lparr>pktlen := atoi p\<rparr>)
      else if pname = ascii ''PKTDATA'' then Next (config\<lparr>pkt_data := Some p\<rparr>)
      else if pname = ascii ''SPEED'' then Next (config\<lparr>speed := word_of_int (atoi p)\<rparr>)
      else if pname = ascii ''LINK_NAME'' then set_link_name p config
      else Next (set_number pname p config))"

text \<open>A line as \<^verbatim>\<open>fgets\<close> delivers it; the string ends at the first zero byte.\<close>

definition config_line :: "u32 \<Rightarrow> u32 \<Rightarrow> u8 list \<Rightarrow> sim_config \<Rightarrow> line_result" where
  "config_line counter port buf config =
     (case split_line (takeWhile (\<lambda>c. c \<noteq> 0) buf) of None \<Rightarrow> Next config
      | Some (pname, p) \<Rightarrow> set_entry counter port pname p config)"

definition BUFSIZ :: nat where "BUFSIZ = 8192"

lemma fgets_rest_shorter:
  "length (fst (snd (fgets n s))) + length (fst (fgets n s)) = length s"
  "n \<noteq> 0 \<Longrightarrow> \<not> snd (snd (fgets n s)) \<Longrightarrow> fst (fgets n s) \<noteq> []"
  by (induction n s rule: fgets.induct) (auto split: prod.splits)

lemma fgets_progress: "fgets (BUFSIZ - 1) s = (buf, rest, False) \<Longrightarrow> length rest < length s"
proof -
  assume f: "fgets (BUFSIZ - 1) s = (buf, rest, False)"
  have "BUFSIZ - 1 \<noteq> 0" by (simp add: BUFSIZ_def)
  with fgets_rest_shorter [of "BUFSIZ - 1" s] have "length rest + length buf = length s" "buf \<noteq> []" unfolding f by simp_all
  then show ?thesis by (cases buf) auto
qed

text \<open>The loop of \<^verbatim>\<open>read_config_file\<close>; \<open>junk n\<close> are the uninitialised values in line \<open>n\<close>. \<open>Next\<close> and \<open>Return\<close> are the two
  ways the function returns 0.\<close>

function read_lines :: "(nat \<Rightarrow> u32 \<times> u32) \<Rightarrow> nat \<Rightarrow> u8 list \<Rightarrow> sim_config \<Rightarrow> line_result" where
  "read_lines junk n src config =
     (let (buf, rest, feof) = fgets (BUFSIZ - 1) src
      in if feof then Next config
         else case config_line (fst (junk n)) (snd (junk n)) buf config of
                Next config' \<Rightarrow> read_lines junk (Suc n) rest config'
              | r \<Rightarrow> r)"
  by pat_completeness auto

termination read_lines
proof (relation "measure (\<lambda>(junk, n, src, config). length src)")
  fix junk :: "nat \<Rightarrow> u32 \<times> u32" and n src config x buf y rest feof config'
  assume "x = fgets (BUFSIZ - 1) src" "(buf, y) = x" "(rest, feof) = y" "\<not> feof"
  then have "fgets (BUFSIZ - 1) src = (buf, rest, False)" by simp
  from fgets_progress [OF this] show "((junk, Suc n, rest, config'), junk, n, src, config) \<in> measure (\<lambda>(junk, n, src, config). length src)"
    by simp
qed simp

declare read_lines.simps [simp del]

text \<open>\<open>None\<close> for the file: it cannot be opened and the process exits.\<close>

definition read_config_file :: "(nat \<Rightarrow> u32 \<times> u32) \<Rightarrow> u8 list option \<Rightarrow> sim_config \<Rightarrow> line_result" where
  "read_config_file junk src config =
     (case src of None \<Rightarrow> Exit | Some bytes \<Rightarrow> read_lines junk 0 bytes config)"

section \<open>The reader that runs beside the pipeline\<close>

definition simple_entry :: "u8 list \<Rightarrow> u8 list \<Rightarrow> sim_config \<Rightarrow> sim_config" where
  "simple_entry pname p config =
     (if pname = ascii ''PIPE_DEPTH'' then config\<lparr>pipe_depth := atoi p\<rparr>
      else if pname = ascii ''SCREEN_DISPLAY'' then config\<lparr>screen_display := atoi p\<rparr>
      else if pname = ascii ''SPEED_MODE'' then config\<lparr>speed_mode := atoi p\<rparr>
      else if pname = ascii ''DESTORY_TIME'' then config\<lparr>destory_time := atoi p\<rparr>
      else config)"

function simple_lines :: "u8 list \<Rightarrow> sim_config \<Rightarrow> sim_config" where
  "simple_lines src config =
     (let (buf, rest, feof) = fgets (BUFSIZ - 1) src
      in if feof then config
         else simple_lines rest
           (case split_line (takeWhile (\<lambda>c. c \<noteq> 0) buf) of None \<Rightarrow> config
            | Some (pname, p) \<Rightarrow> simple_entry pname p config))"
  by pat_completeness auto

termination simple_lines
proof (relation "measure (\<lambda>(src, config). length src)")
  fix src config x buf y rest feof
  fix config' :: sim_config
  assume "x = fgets (BUFSIZ - 1) src" "(buf, y) = x" "(rest, feof) = y" "\<not> feof"
  then have "fgets (BUFSIZ - 1) src = (buf, rest, False)" by simp
  from fgets_progress [OF this] show "((rest, case split_line (takeWhile (\<lambda>c. c \<noteq> 0) buf) of None \<Rightarrow> config
      | Some (pname, p) \<Rightarrow> simple_entry pname p config), src, config) \<in> measure (\<lambda>(src, config). length src)"
    by simp
qed simp

declare simple_lines.simps [simp del]

text \<open>
  \<open>old\<close> is the static variable with the time of the last change; \<open>stat\<close> is the time of the file,
  \<open>None\<close> if \<^verbatim>\<open>stat\<close> fails. A file that cannot be opened then ends the process (\<open>None\<close>).
\<close>

definition read_config_simple ::
    "int option \<Rightarrow> u8 list option \<Rightarrow> int \<times> sim_config \<Rightarrow> (int \<times> sim_config) option" where
  "read_config_simple stat src = (\<lambda>(old, config).
     case stat of None \<Rightarrow> Some (old, config)
     | Some new \<Rightarrow>
         if new = old then Some (old, config)
         else (case src of None \<Rightarrow> None | Some bytes \<Rightarrow> Some (new, simple_lines bytes config)))"

section \<open>Defaults\<close>

text \<open>
  \<^verbatim>\<open>get_cpu_mhz\<close>: \<open>samples\<close> are the values of the cycle counter before and after each of the four delays of
  half a second. The sum is kept in an \<^verbatim>\<open>int\<close>, and its division truncates towards zero.
\<close>

definition get_cpu_mhz :: "(u64 \<times> u64) list \<Rightarrow> int" where
  "get_cpu_mhz samples =
     (let total = sint (foldl (\<lambda>t (old, new). t + ucast ((new - old) div 500000)) (0 :: u32) (take 4 samples))
      in if 0 \<le> total then total div 4 else - (- total div 4))"

text \<open>\<^verbatim>\<open>inet_addr\<close> of a dotted address: its bytes in network order.\<close>

definition inet_addr :: "u8 \<Rightarrow> u8 \<Rightarrow> u8 \<Rightarrow> u8 \<Rightarrow> u32" where
  "inet_addr a b c d = le32 [a, b, c, d]"

definition init_config_s :: "(u64 \<times> u64) list \<Rightarrow> sim_config \<Rightarrow> sim_config" where
  "init_config_s samples config =
     config\<lparr>cfg_protocol := 6,
       srcmac := [0x10, 0xBF, 0x48, 0xD7, 0x9C, 0xF8], dstmac := [0x10, 0xBF, 0x48, 0xD7, 0x98, 0x3C],
       saddr_min := inet_addr 192 168 103 19, daddr_min := inet_addr 192 168 103 18,
       saddr_cur := inet_addr 192 168 103 19, daddr_cur := inet_addr 192 168 103 18,
       saddr_max := inet_addr 192 168 103 19, daddr_max := inet_addr 192 168 103 18,
       sport_min := 100, dport_min := 200, sport_cur := 100, dport_cur := 200, sport_max := 100, dport_max := 200,
       speed := 5000, pkt_data := None, generator_pool_size := 100000, parser_queue_length := 50000,
       parser_pool_size := 100000, manager_queue_length := 50000, manager_pool_size := 50000,
       manager_hash_length := 1173, manager_buffer_size := 65536, pktlen := 600, period := 200,
       link_name := Some (ascii ''xgbe1''), packet_generator_mode := 1, generator_nums := 1, parser_nums := 1,
       manager_nums := 1, screen_display := 1, pipe_depth := 2, speed_mode := 0, mhz := get_cpu_mhz samples\<rparr>"

section \<open>Ethernet addresses: printing and reading\<close>

lemma hex_char_facts:
  assumes "n < 16"
  shows "digit 16 (hex_char n) = Some n" "\<not> isspace (hex_char n)"
    "hex_char n \<noteq> 45" "hex_char n \<noteq> 43" "hex_char n \<noteq> 120" "hex_char n \<noteq> 88"
proof -
  have "\<forall>n\<in>set [0..<16]. digit 16 (hex_char n) = Some n \<and> \<not> isspace (hex_char n)
      \<and> hex_char n \<noteq> 45 \<and> hex_char n \<noteq> 43 \<and> hex_char n \<noteq> 120 \<and> hex_char n \<noteq> 88"
    by code_simp
  then show "digit 16 (hex_char n) = Some n" "\<not> isspace (hex_char n)"
    "hex_char n \<noteq> 45" "hex_char n \<noteq> 43" "hex_char n \<noteq> 120" "hex_char n \<noteq> 88"
    using assms by simp_all
qed

lemma skip_0x_id: "x \<noteq> 120 \<Longrightarrow> x \<noteq> 88 \<Longrightarrow> skip_0x base (z # x # cs) = z # x # cs"
  by (cases cs) auto

lemma scan_hex_byte:
  assumes "rest = [] \<or> \<not> is_digit 16 (hd rest)"
  shows "scan_number 16 (print_02X b @ rest) = Some (False, unat b, rest)"
proof -
  let ?h = "unat b div 16" and ?l = "unat b mod 16"
  have "unat b < 2 ^ LENGTH(8)" by (rule unsigned_less)
  then have hl: "?h < 16" "?l < 16" by auto
  note F = hex_char_facts [OF hl(1)] and G = hex_char_facts [OF hl(2)]
  have d: "is_digit 16 (hex_char ?h)" "is_digit 16 (hex_char ?l)" using F(1) G(1) by (simp_all add: is_digit_def)
  have r: "takeWhile (is_digit 16) rest = []" "dropWhile (is_digit 16) rest = rest"
    using assms by (cases rest; auto)+
  have "number 16 [hex_char ?h, hex_char ?l] = unat b" using F(1) G(1) by (simp add: number_def)
  then show ?thesis
    using F(2-4) d r by (simp add: scan_number_def print_02X_def skip_0x_id [OF G(5,6)])
qed

lemma strtoul_hex_byte:
  assumes "rest = [] \<or> \<not> is_digit 16 (hd rest)"
  shows "strtoul 16 (print_02X b @ rest) = (of_nat (unat b), rest)"
proof -
  have "unat b < 2 ^ LENGTH(8)" by (rule unsigned_less)
  then show ?thesis by (simp add: strtoul_def scan_hex_byte [OF assms])
qed

lemma etoa_from_shape: "etoa_from (Suc i) e = [] \<or> hd (etoa_from (Suc i) e) = 58"
  by (cases e) auto

lemma colon_no_digit: "\<not> is_digit 16 58"
  by (simp add: is_digit_def digit_def)

lemma atoe_loop_etoa:
  assumes "i + length e = 6" "e \<noteq> []" "length acc = 6"
  shows "atoe_loop (print_02X (hd e) @ etoa_from (Suc i) (tl e)) i acc = (True, take i acc @ e)"
  using assms
proof (induction e arbitrary: i acc)
  case (Cons b e)
  let ?rest = "etoa_from (Suc i) e"
  have nd: "?rest = [] \<or> \<not> is_digit 16 (hd ?rest)"
    using etoa_from_shape [of i e] colon_no_digit by auto
  have b: "ucast (ucast b :: u64) = b" by (rule bit_word_eqI) (simp add: bit_simps)
  have i: "i < 6" "i < length acc" using Cons.prems by auto
  have step: "atoe_loop (print_02X b @ ?rest) i acc =
      (if ?rest = [] \<or> Suc i = 6 then (Suc i = 6, acc[i := b]) else atoe_loop (tl ?rest) (Suc i) (acc[i := b]))"
    using i(1) by (subst atoe_loop.simps) (simp add: strtoul_hex_byte [OF nd] b)
  show ?case
  proof (cases e)
    case Nil
    then show ?thesis using step i Cons.prems by (simp add: take_Suc_conv_app_nth list_update_append upd_conv_take_nth_drop)
  next
    case more: (Cons c e')
    then have t: "?rest = 58 # print_02X c @ etoa_from (Suc (Suc i)) e'" by simp
    have "atoe_loop (print_02X (hd e) @ etoa_from (Suc (Suc i)) (tl e)) (Suc i) (acc[i := b])
        = (True, take (Suc i) (acc[i := b]) @ e)"
      using Cons.IH [of "Suc i" "acc[i := b]"] Cons.prems more by simp
    moreover have "take (Suc i) (acc[i := b]) = take i acc @ [b]" using i by (simp add: take_Suc_conv_app_nth)
    moreover have "Suc i \<noteq> 6" using Cons.prems more by simp
    ultimately show ?thesis using step t more by simp
  qed
qed simp

lemma ether_roundtrip: "length e = 6 \<Longrightarrow> ether_atoe (ether_etoa e) = (True, e)"
proof -
  assume l: "length e = 6"
  then obtain b e' where e: "e = b # e'" by (cases e) auto
  have "ether_etoa e = print_02X (hd e) @ etoa_from (Suc 0) (tl e)" using l by (simp add: ether_etoa_def e)
  then show ?thesis using atoe_loop_etoa [of 0 e "replicate 6 0"] l by (simp add: ether_atoe_def e)
qed

section \<open>A file as a sequence of lines\<close>

lemma fgets_line: "10 \<notin> set l \<Longrightarrow> length l < n \<Longrightarrow> fgets n (l @ 10 # rest) = (l @ [10], rest, False)"
proof (induction l arbitrary: n)
  case Nil
  then show ?case by (cases n) auto
next
  case (Cons c l)
  then show ?case by (cases n) auto
qed

lemma fgets_end: "10 \<notin> set l \<Longrightarrow> length l < n \<Longrightarrow> fgets n l = (l, [], True)"
proof (induction l arbitrary: n)
  case Nil
  then show ?case by (cases n) auto
next
  case (Cons c l)
  then show ?case by (cases n) auto
qed

text \<open>A text without a newline that fits into the buffer.\<close>

definition short_line :: "u8 list \<Rightarrow> bool" where
  "short_line l \<longleftrightarrow> 10 \<notin> set l \<and> length l < BUFSIZ - 1"

fun apply_lines :: "(nat \<Rightarrow> u32 \<times> u32) \<Rightarrow> nat \<Rightarrow> u8 list list \<Rightarrow> sim_config \<Rightarrow> line_result" where
  "apply_lines junk n [] config = Next config"
| "apply_lines junk n (l # ls) config =
     (case config_line (fst (junk n)) (snd (junk n)) (l @ [10]) config of
        Next config' \<Rightarrow> apply_lines junk (Suc n) ls config' | r \<Rightarrow> r)"

lemma read_lines_apply:
  assumes "list_all short_line ls" "short_line tail"
  shows "read_lines junk n (concat (map (\<lambda>l. l @ [10]) ls) @ tail) config = apply_lines junk n ls config"
  using assms(1)
proof (induction ls arbitrary: n config)
  case Nil
  show ?case using fgets_end [of tail "BUFSIZ - 1"] assms(2)
    by (subst read_lines.simps) (simp add: short_line_def)
next
  case (Cons l ls)
  then have "fgets (BUFSIZ - 1) (l @ 10 # concat (map (\<lambda>l. l @ [10]) ls) @ tail)
      = (l @ [10], concat (map (\<lambda>l. l @ [10]) ls) @ tail, False)"
    by (intro fgets_line) (simp_all add: short_line_def)
  with Cons show ?case by (subst read_lines.simps) (simp split: line_result.split)
qed

section \<open>Decimal numbers\<close>

fun dec :: "nat \<Rightarrow> u8 list" where
  "dec n = (if n < 10 then [48 + of_nat n] else dec (n div 10) @ [48 + of_nat (n mod 10)])"

declare dec.simps [simp del]

lemma dec_digit_facts:
  assumes "d < 10"
  shows "digit 10 (48 + of_nat d) = Some d" "\<not> isspace (48 + of_nat d)" "48 + of_nat d \<noteq> (45 :: u8)"
    "48 + of_nat d \<noteq> (43 :: u8)"
proof -
  have "\<forall>d\<in>set [0..<10]. digit 10 (48 + of_nat d) = Some d \<and> \<not> isspace (48 + of_nat d)
      \<and> 48 + of_nat d \<noteq> (45 :: u8) \<and> 48 + of_nat d \<noteq> (43 :: u8)"
    by code_simp
  then show "digit 10 (48 + of_nat d) = Some d" "\<not> isspace (48 + of_nat d)" "48 + of_nat d \<noteq> (45 :: u8)"
    "48 + of_nat d \<noteq> (43 :: u8)" using assms by simp_all
qed

lemma number_dec: "number 10 (dec n) = n"
proof (induction n rule: dec.induct)
  case (1 n)
  have d: "digit 10 (48 + of_nat (n mod 10)) = Some (n mod 10)" by (simp add: dec_digit_facts(1))
  show ?case
  proof (cases "n < 10")
    case True
    then show ?thesis by (simp add: dec.simps [of n] number_def dec_digit_facts(1))
  next
    case False
    then have "number 10 (dec n) = number 10 (dec (n div 10)) * 10 + n mod 10"
      using d by (simp add: dec.simps [of n] number_def)
    with 1 False show ?thesis by simp
  qed
qed

lemma dec_digits: "c \<in> set (dec n) \<Longrightarrow> \<exists>d<10. c = 48 + of_nat d"
proof (induction n rule: dec.induct)
  case (1 n)
  show ?case
  proof (cases "n < 10")
    case True
    then show ?thesis using 1(2) by (auto simp: dec.simps [of n])
  next
    case False
    then have "c \<in> set (dec (n div 10)) \<or> c = 48 + of_nat (n mod 10)" using 1(2) by (auto simp: dec.simps [of n])
    then show ?thesis using 1(1) [OF False] by (metis mod_less_divisor zero_less_numeral)
  qed
qed

lemma dec_nonempty [simp]: "dec n \<noteq> []"
  by (simp add: dec.simps [of n])

text \<open>What stops a number: the end of the text or a character that is not a digit.\<close>

definition stops :: "u8 list \<Rightarrow> bool" where
  "stops rest \<longleftrightarrow> rest = [] \<or> \<not> is_digit 10 (hd rest)"

lemma scan_dec:
  assumes "stops rest"
  shows "scan_number 10 (dec n @ rest) = Some (False, n, rest)"
proof -
  obtain c cs where c: "dec n = c # cs" by (cases "dec n") auto
  then obtain d where d: "d < 10" "c = 48 + of_nat d" using dec_digits [of c n] by auto
  note F = dec_digit_facts [OF d(1), folded d(2)]
  have all: "is_digit 10 x" if "x \<in> set (dec n)" for x
    using dec_digits [OF that] dec_digit_facts(1) by (auto simp: is_digit_def)
  have r: "takeWhile (is_digit 10) rest = []" "dropWhile (is_digit 10) rest = rest"
    using assms by (cases rest; auto simp: stops_def)+
  have "skip_0x 10 xs = xs" for xs by (induction "10::nat" xs rule: skip_0x.induct) auto
  moreover have "sign (dropWhile isspace (dec n @ rest)) = (False, dec n @ rest)" using F(2-4) by (simp add: c)
  moreover have "takeWhile (is_digit 10) (dec n @ rest) = dec n" "dropWhile (is_digit 10) (dec n @ rest) = rest"
    using all r by (simp_all add: takeWhile_append2 dropWhile_append2)
  ultimately show ?thesis by (simp add: scan_number_def number_dec)
qed

lemma strtoul_dec: "stops rest \<Longrightarrow> n < 2 ^ 64 \<Longrightarrow> strtoul 10 (dec n @ rest) = (of_nat n, rest)"
  by (simp add: strtoul_def scan_dec)

lemma scan_fields_dec:
  assumes "n < 2 ^ 32" "stops rest"
  shows "scan_fields [] (dec n @ rest) = [of_nat n]"
    and "rest = sep # cs \<Longrightarrow> scan_fields (sep # seps) (dec n @ rest) = of_nat n # scan_fields seps cs"
    and "rest = [] \<or> hd rest \<noteq> sep \<Longrightarrow> scan_fields (sep # seps) (dec n @ rest) = [of_nat n]"
proof -
  have "n < 2 ^ 64" using assms(1) by (rule less_trans) simp
  note S = scan_dec [OF assms(2), of n] strtoul_dec [OF assms(2) this]
  have u: "ucast (of_nat n :: u64) = (of_nat n :: u32)"
    by (rule bit_word_eqI) (simp add: bit_simps)
  show "scan_fields [] (dec n @ rest) = [of_nat n]" by (simp add: S u)
  show "rest = sep # cs \<Longrightarrow> scan_fields (sep # seps) (dec n @ rest) = of_nat n # scan_fields seps cs"
    using S u by simp
  show "rest = [] \<or> hd rest \<noteq> sep \<Longrightarrow> scan_fields (sep # seps) (dec n @ rest) = [of_nat n]"
    using S u by (auto split: list.split)
qed

lemma stops_simps [simp]: "stops []" "stops (46 # cs)" "stops (43 # cs)" "stops (10 # cs)"
  by (simp_all add: stops_def is_digit_def digit_def)

section \<open>Address lines\<close>

definition dotted :: "u8 \<Rightarrow> u8 \<Rightarrow> u8 \<Rightarrow> u8 \<Rightarrow> u8 list" where
  "dotted a b c d = dec (unat a) @ 46 # dec (unat b) @ 46 # dec (unat c) @ 46 # dec (unat d)"

lemma u8_small: "unat (a :: u8) < 2 ^ 32"
proof -
  have "unat a < 2 ^ LENGTH(8)" by (rule unsigned_less)
  then show ?thesis by simp
qed

lemma dec_start: "dropWhile isspace (dec n @ rest) = dec n @ rest" "skip_opeartor (dec n @ rest) = dec n @ rest"
proof -
  obtain c cs where c: "dec n = c # cs" by (cases "dec n") auto
  then obtain d where d: "d < 10" "c = 48 + of_nat d" using dec_digits [of c n] by auto
  have "\<forall>d\<in>set [0..<10]. 48 + of_nat d \<noteq> (61 :: u8)" by code_simp
  then have "c \<noteq> 61" using d by simp
  then show "dropWhile isspace (dec n @ rest) = dec n @ rest" "skip_opeartor (dec n @ rest) = dec n @ rest"
    using dec_digit_facts(2) [OF d(1), folded d(2)] by (simp_all add: c skip_opeartor_def)
qed

lemma scan_dotted:
  assumes "stops rest"
  shows "scan_fields [46, 46, 46, 43] (dotted a b c d @ rest) =
    [ucast a, ucast b, ucast c, ucast d] @ (case rest of [] \<Rightarrow> [] | x # xs \<Rightarrow> if x = 43 then scan_fields [] xs else [])"
proof -
  have "scan_fields [43] (dec (unat d) @ rest) =
      ucast d # (case rest of [] \<Rightarrow> [] | x # xs \<Rightarrow> if x = 43 then scan_fields [] xs else [])"
    using scan_fields_dec(2) [OF u8_small [of d] assms, of 43 "tl rest" "[]"]
      scan_fields_dec(3) [OF u8_small [of d] assms, of 43 "[]"] by (cases rest) (auto simp del: scan_fields.simps)
  then show ?thesis
    by (simp add: dotted_def scan_fields_dec(2) [OF u8_small, of _ 46] del: scan_fields.simps)
qed

lemma sscanf_dotted:
  "stops rest \<Longrightarrow> sscanf_u [46, 46, 46, 43] (dotted a b c d @ rest) = Some ([ucast a, ucast b, ucast c, ucast d]
     @ (case rest of [] \<Rightarrow> [] | x # xs \<Rightarrow> if x = 43 then scan_fields [] xs else []))"
  using dec_start(1) [of "unat a"] by (simp add: sscanf_u_def scan_dotted del: scan_fields.simps) (simp add: dotted_def isspace_def)

lemma ip_of_bytes: "ip_of ([ucast a, ucast b, ucast c, ucast d] @ xs) = le32 [d, c, b, a]"
  by (simp add: ip_of_def le32_def or.commute or.left_commute)

lemma dec_no_zero: "0 \<notin> set (dec n)"
proof
  assume "0 \<in> set (dec n)"
  then obtain d where "d < 10" "(0::u8) = 48 + of_nat d" using dec_digits by blast
  moreover have "\<forall>d\<in>set [0..<10]. (0::u8) \<noteq> 48 + of_nat d" by code_simp
  ultimately show False by simp
qed

lemma split_named:
  assumes "name = ascii ''SRCIP'' \<or> name = ascii ''DSTIP''" "0 \<notin> set v" "skip_opeartor v = v"
  shows "split_line (takeWhile (\<lambda>c. c \<noteq> 0) (name @ 61 # v)) = Some (name, v)"
proof -
  have n: "name \<noteq> []" "\<forall>c\<in>set name. \<not> isspace c \<and> c \<noteq> 61 \<and> c \<noteq> 0 \<and> c \<noteq> 35 \<and> toupper c = c"
    using assms(1) by (auto simp: ascii_def isspace_def toupper_def)
  have t: "takeWhile (\<lambda>c. c \<noteq> 0) (name @ 61 # v) = name @ 61 # v"
    using n(2) assms(2) by (auto intro!: takeWhile_eq_all_conv [THEN iffD2])
  have s: "dropWhile isspace (name @ 61 # v) = name @ 61 # v" using n by (cases name) auto
  have q: "skip_var_name (name @ 61 # v) = 61 # v"
    unfolding skip_var_name_def using n(2) by (subst dropWhile_append2) auto
  have o: "skip_opeartor (61 # v) = v" using assms(3) by (simp add: skip_opeartor_def)
  have u: "strupr name = name" using n(2) by (simp add: strupr_def map_idI)
  have h: "hd (name @ 61 # v) \<noteq> 35" using n by (cases name) auto
  show ?thesis unfolding t split_line_def Let_def s q o using h n(1) u by simp
qed

lemma address_line:
  assumes "stops rest" "0 \<notin> set rest" "sscanf_u [46, 46, 46, 43] (dotted a b c d @ rest) = Some f"
  shows "config_line counter port (ascii ''SRCIP='' @ dotted a b c d @ rest) config =
      Next (config\<lparr>saddr_min := ip_of f, saddr_cur := ip_of f, saddr_max := ip_of f + counter_of 4 f counter\<rparr>)"
    and "config_line counter port (ascii ''DSTIP='' @ dotted a b c d @ rest) config =
      Next (config\<lparr>daddr_min := ip_of f, daddr_cur := ip_of f, daddr_max := ip_of f + counter_of 4 f counter\<rparr>)"
proof -
  let ?v = "dotted a b c d @ rest"
  have v: "0 \<notin> set ?v" "skip_opeartor ?v = ?v"
    using assms(2) dec_no_zero dec_start(2) [of "unat a"] by (auto simp: dotted_def)
  have e: "ascii ''SRCIP='' @ ?v = ascii ''SRCIP'' @ 61 # ?v" "ascii ''DSTIP='' @ ?v = ascii ''DSTIP'' @ 61 # ?v"
    by (simp_all add: ascii_def)
  have n: "ascii ''SRCIP'' \<noteq> ascii ''PROTO''" "ascii ''SRCIP'' \<noteq> ascii ''SRCMAC''" "ascii ''SRCIP'' \<noteq> ascii ''DSTMAC''"
    "ascii ''DSTIP'' \<noteq> ascii ''PROTO''" "ascii ''DSTIP'' \<noteq> ascii ''SRCMAC''" "ascii ''DSTIP'' \<noteq> ascii ''DSTMAC''"
    "ascii ''DSTIP'' \<noteq> ascii ''SRCIP''"
    by (simp_all add: ascii_def)
  show "config_line counter port (ascii ''SRCIP='' @ ?v) config =
      Next (config\<lparr>saddr_min := ip_of f, saddr_cur := ip_of f, saddr_max := ip_of f + counter_of 4 f counter\<rparr>)"
    unfolding e(1) config_line_def split_named [OF disjI1 [OF refl] v] option.case prod.case set_entry_def
    using n by (simp add: set_srcip_def assms(3) Let_def)
  show "config_line counter port (ascii ''DSTIP='' @ ?v) config =
      Next (config\<lparr>daddr_min := ip_of f, daddr_cur := ip_of f, daddr_max := ip_of f + counter_of 4 f counter\<rparr>)"
    unfolding e(2) config_line_def split_named [OF disjI2 [OF refl] v] option.case prod.case set_entry_def
    using n by (simp add: set_dstip_def assms(3) Let_def)
qed

section \<open>Properties\<close>

text \<open>C26. Round trip of Ethernet addresses: reading what \<^verbatim>\<open>ether_etoa\<close> prints for six bytes succeeds and gives
  the six bytes back.\<close>

theorem ether_etoa_atoe:
  assumes "length e = 6"
  shows "ether_atoe (ether_etoa e) = (True, e)"
  using assms by (rule ether_roundtrip)

theorem ether_etoa_atoe_witness:
  "ether_etoa [16, 191, 72, 215, 156, 248] = ascii ''10:BF:48:D7:9C:F8''
   \<and> ether_atoe (ether_etoa [16, 191, 72, 215, 156, 248]) = (True, [16, 191, 72, 215, 156, 248])"
proof -
  have "ether_etoa [16, 191, 72, 215, 156, 248] = ascii ''10:BF:48:D7:9C:F8''"
    by (simp add: ether_etoa_def print_02X_def hex_char_def ascii_def)
  with ether_etoa_atoe [of "[16, 191, 72, 215, 156, 248]"] show ?thesis by simp
qed

text \<open>C25. A configuration file is read line by line, in order, until a line makes the reader return or the
  process exit; what follows the last newline is ignored, so that a last line without a newline has
  no effect. Lines are shorter than the buffer of 8192 bytes.\<close>

theorem config_file_lines:
  assumes "list_all short_line ls" "short_line tail"
  shows "read_config_file junk (Some (concat (map (\<lambda>l. l @ [10]) ls) @ tail)) config = apply_lines junk 0 ls config"
  using read_lines_apply [OF assms] by (simp add: read_config_file_def)

theorem config_file_lines_witness:
  "read_config_file (\<lambda>_. (0, 0)) (Some (ascii ''PKTLEN=60'' @ [10] @ ascii ''SPEED=7'')) demo_cfg
     = Next (demo_cfg\<lparr>pktlen := 60\<rparr>)"
proof -
  have "list_all short_line [ascii ''PKTLEN=60'']" "short_line (ascii ''SPEED=7'')"
    by (simp_all add: short_line_def ascii_def BUFSIZ_def)
  from config_file_lines [OF this, of "\<lambda>_. (0, 0)" demo_cfg]
  have "read_config_file (\<lambda>_. (0, 0)) (Some (ascii ''PKTLEN=60'' @ [10] @ ascii ''SPEED=7'')) demo_cfg
      = apply_lines (\<lambda>_. (0, 0)) 0 [ascii ''PKTLEN=60''] demo_cfg" by simp
  also have "\<dots> = Next (demo_cfg\<lparr>pktlen := 60\<rparr>)"
    by (simp add: config_line_def split_line_def ascii_def isspace_def skip_var_name_def skip_opeartor_def strupr_def
        toupper_def set_entry_def atoi_def scan_number_def number_def is_digit_def digit_def)
  finally show ?thesis .
qed

text \<open>A line with an address and a count, such as \<^verbatim>\<open>SRCIP=10.0.0.1+5\<close>, sets the range of addresses that
  starts at the address, in host byte order, and extends by the count. Without a count the range
  ends at an address that depends on the uninitialised variable \<^verbatim>\<open>counter\<close>.\<close>

theorem address_range_line:
  assumes "n < 2 ^ 32"
  shows "config_line counter port (ascii ''SRCIP='' @ dotted a b c d @ 43 # dec n @ [10]) config =
      (let x = le32 [d, c, b, a] in Next (config\<lparr>saddr_min := x, saddr_cur := x, saddr_max := x + of_nat n\<rparr>))
    \<and> config_line counter port (ascii ''DSTIP='' @ dotted a b c d @ 43 # dec n @ [10]) config =
      (let x = le32 [d, c, b, a] in Next (config\<lparr>daddr_min := x, daddr_cur := x, daddr_max := x + of_nat n\<rparr>))
    \<and> config_line counter port (ascii ''SRCIP='' @ dotted a b c d @ [10]) config =
      (let x = le32 [d, c, b, a] in Next (config\<lparr>saddr_min := x, saddr_cur := x, saddr_max := x + counter\<rparr>))"
proof -
  have r: "0 \<notin> set (43 # dec n @ [10])" "0 \<notin> set ([10] :: u8 list)" using dec_no_zero by auto
  have f: "sscanf_u [46, 46, 46, 43] (dotted a b c d @ 43 # dec n @ [10]) =
      Some ([ucast a, ucast b, ucast c, ucast d] @ [of_nat n])"
    "sscanf_u [46, 46, 46, 43] (dotted a b c d @ [10]) = Some ([ucast a, ucast b, ucast c, ucast d] @ [])"
    using sscanf_dotted [of "43 # dec n @ [10]" a b c d] sscanf_dotted [of "[10]" a b c d]
      scan_fields_dec(1) [OF assms, of "[10]"] by (simp_all del: scan_fields.simps)
  show ?thesis
    unfolding address_line(1) [OF stops_simps(3) r(1) f(1)] address_line(2) [OF stops_simps(3) r(1) f(1)]
      address_line(1) [OF stops_simps(4) r(2) f(2)] ip_of_bytes Let_def
    by (simp add: counter_of_def)
qed

theorem address_range_line_witness:
  "config_line 0 0 (ascii ''SRCIP='' @ dotted 10 0 0 1 @ 43 # dec 5 @ [10]) demo_cfg =
     (let x = le32 [1, 0, 0, 10] in Next (demo_cfg\<lparr>saddr_min := x, saddr_cur := x, saddr_max := x + 5\<rparr>))
   \<and> le32 [1, 0, 0, 10] = 167772161"
  using address_range_line [of 5 0 0 10 0 0 1 demo_cfg] by (simp add: le32_def)

section \<open>The two readers\<close>

text \<open>The four entries that both readers know, and a configuration with the four taken from another.\<close>

definition switches :: "sim_config \<Rightarrow> int \<times> int \<times> int \<times> int" where
  "switches c = (pipe_depth c, screen_display c, speed_mode c, destory_time c)"

definition with_switches :: "sim_config \<Rightarrow> sim_config \<Rightarrow> sim_config" where
  "with_switches c d = c\<lparr>pipe_depth := pipe_depth d, screen_display := screen_display d,
     speed_mode := speed_mode d, destory_time := destory_time d\<rparr>"

lemma with_switches_simps [simp]:
  "switches (with_switches c d) = switches d" "with_switches c c = c"
  "with_switches (with_switches c d) e = with_switches c e"
  by (simp_all add: with_switches_def switches_def)

lemma switches_eq: "switches d = switches e \<Longrightarrow> with_switches c d = with_switches c e"
  by (simp add: with_switches_def switches_def)

lemma of_char_u8_eq: "(of_char c :: u8) = of_char d \<longleftrightarrow> c = d"
proof
  assume e: "(of_char c :: u8) = of_char d"
  have n: "(of_char x :: u8) = of_nat (of_char x)" for x :: char by (rule of_nat_of_char [symmetric])
  have s: "(of_char x :: nat) < 2 ^ LENGTH(8)" for x :: char using nat_of_char_less_256 [of x] by simp
  have "unat (of_nat (of_char c) :: u8) = unat (of_nat (of_char d) :: u8)" using e unfolding n by simp
  then have "(of_char c :: nat) = of_char d" using s by (simp only: unat_of_nat_small)
  then show "c = d" by simp
qed simp

lemma ascii_eq_iff: "ascii s = ascii t \<longleftrightarrow> s = t"
  unfolding ascii_def by (rule inj_map_eq_map) (simp add: inj_def of_char_u8_eq)

lemma simple_lines_step:
  "fgets (BUFSIZ - 1) s = (buf, rest, e) \<Longrightarrow> simple_lines s c = (if e then c else simple_lines rest
     (case split_line (takeWhile (\<lambda>c. c \<noteq> 0) buf) of None \<Rightarrow> c | Some (pname, p) \<Rightarrow> simple_entry pname p c))"
  by (subst simple_lines.simps) (simp only: prod.case Let_def)

lemma read_lines_step:
  "fgets (BUFSIZ - 1) s = (buf, rest, e) \<Longrightarrow> read_lines junk n s c = (if e then Next c
     else case config_line (fst (junk n)) (snd (junk n)) buf c of
            Next c' \<Rightarrow> read_lines junk (Suc n) rest c' | r \<Rightarrow> r)"
  by (subst read_lines.simps) (simp only: prod.case Let_def)

lemma simple_entry_with: "simple_entry pname p c = with_switches c (simple_entry pname p c)"
  by (simp add: simple_entry_def with_switches_def)

lemma simple_lines_with: "simple_lines s c = with_switches c (simple_lines s c)"
proof (induction s c rule: simple_lines.induct)
  case (1 s c)
  obtain buf rest e where f: "fgets (BUFSIZ - 1) s = (buf, rest, e)" by (cases "fgets (BUFSIZ - 1) s") auto
  show ?case
  proof (cases e)
    case True
    then show ?thesis by (simp add: simple_lines_step [OF f])
  next
    case False
    let ?c = "case split_line (takeWhile (\<lambda>c. c \<noteq> 0) buf) of None \<Rightarrow> c | Some (pname, p) \<Rightarrow> simple_entry pname p c"
    have "?c = with_switches c ?c" using simple_entry_with by (auto split: option.split)
    moreover have "simple_lines rest ?c = with_switches ?c (simple_lines rest ?c)"
      using 1 [OF f [symmetric] refl refl] False by simp
    ultimately have "simple_lines rest ?c = with_switches c (simple_lines rest ?c)"
      by (metis with_switches_simps(3))
    then show ?thesis using False by (simp add: simple_lines_step [OF f])
  qed
qed

text \<open>The names of the entries that set anything else.\<close>

definition text_names :: "string list" where
  "text_names = [''PROTO'', ''SRCMAC'', ''DSTMAC'', ''SRCIP'', ''DSTIP'', ''SRCPORT'', ''DSTPORT'', ''PKTLEN'', ''PKTDATA'',
     ''SPEED'', ''LINK_NAME'']"

definition number_names :: "string list" where
  "number_names = [''GENERATOR_NUMS'', ''PARSER_NUMS'', ''MANAGER_NUMS'', ''GENERATOR_POOL_SIZE'', ''PARSER_QUEUE_LENGTH'',
     ''PARSER_POOL_SIZE'', ''MANAGER_POOL_SIZE'', ''MANAGER_QUEUE_LENGTH'', ''MANAGER_HASH_LENGTH'', ''MANAGER_BUFFER_SIZE'',
     ''PACKET_GENERATOR_MODE'']"

lemma other_names:
  assumes "t \<in> set (text_names @ number_names)"
  shows "simple_entry (ascii t) p c = c"
proof -
  have "list_all (\<lambda>t. t \<noteq> ''PIPE_DEPTH'' \<and> t \<noteq> ''SCREEN_DISPLAY'' \<and> t \<noteq> ''SPEED_MODE'' \<and> t \<noteq> ''DESTORY_TIME'')
      (text_names @ number_names)" by code_simp
  with assms have "t \<noteq> ''PIPE_DEPTH'' \<and> t \<noteq> ''SCREEN_DISPLAY'' \<and> t \<noteq> ''SPEED_MODE'' \<and> t \<noteq> ''DESTORY_TIME''"
    unfolding list_all_iff by blast
  then show ?thesis by (simp only: simple_entry_def ascii_eq_iff) simp
qed

lemma set_number_switches:
  assumes "switches c = switches d"
  shows "switches (set_number pname p c) = switches (simple_entry pname p d)"
proof (cases "pname \<in> ascii ` set number_names")
  case True
  then have "simple_entry pname p d = d" using other_names by auto
  moreover have "switches (set_number pname p c) = switches c"
    using True unfolding number_names_def list.set image_insert image_empty set_number_def
    by (elim insertE emptyE) (simp_all add: switches_def)
  ultimately show ?thesis using assms by simp
next
  case False
  then show ?thesis
    using assms unfolding number_names_def list.set image_insert image_empty set_number_def simple_entry_def
    by (simp add: switches_def)
qed

lemma set_entry_switches:
  assumes "switches c = switches d" "set_entry counter port pname p c = Next c'"
  shows "switches c' = switches (simple_entry pname p d)"
proof (cases "pname \<in> ascii ` set text_names")
  case True
  have "switches c' = switches c"
    using assms(2) True
    unfolding text_names_def list.set image_insert image_empty set_entry_def
      set_srcip_def set_dstip_def set_srcport_def set_dstport_def set_link_name_def Let_def
    by (elim insertE emptyE) (simp_all add: switches_def split: if_splits option.splits, auto)
  moreover have "simple_entry pname p d = d" using True other_names by auto
  ultimately show ?thesis using assms(1) by simp
next
  case False
  then have "c' = set_number pname p c"
    using assms(2) unfolding text_names_def list.set image_insert image_empty set_entry_def by simp
  with set_number_switches [OF assms(1)] show ?thesis by simp
qed

lemma readers_agree:
  assumes "read_lines junk n s c = Next c'" "switches c = switches d"
  shows "switches (simple_lines s d) = switches c'"
  using assms
proof (induction junk n s c arbitrary: d rule: read_lines.induct)
  case (1 junk n s c)
  obtain buf rest e where f: "fgets (BUFSIZ - 1) s = (buf, rest, e)" by (cases "fgets (BUFSIZ - 1) s") auto
  show ?case
  proof (cases e)
    case True
    then show ?thesis using "1.prems" by (simp add: read_lines_step [OF f] simple_lines_step [OF f])
  next
    case False
    obtain c1 where c1: "config_line (fst (junk n)) (snd (junk n)) buf c = Next c1" "read_lines junk (Suc n) rest c1 = Next c'"
      using "1.prems"(1) False by (simp add: read_lines_step [OF f] split: line_result.splits)
    let ?d = "case split_line (takeWhile (\<lambda>c. c \<noteq> 0) buf) of None \<Rightarrow> d | Some (pname, p) \<Rightarrow> simple_entry pname p d"
    have "switches c1 = switches ?d"
      using c1(1) "1.prems"(2) unfolding config_line_def
      by (auto split: option.splits dest: set_entry_switches)
    from "1.IH" [OF f [symmetric] refl refl _ c1(1) c1(2) this] False
    show ?thesis by (simp add: simple_lines_step [OF f])
  qed
qed

text \<open>C27. Rereading at run time: when the file has changed and the full reader would accept it, the simple
  reader takes over exactly the values of the four run-time entries that the full reader would set,
  and changes nothing else of the configuration; when the file has not changed or is not there it
  changes nothing.\<close>

theorem rereading_agrees:
  assumes "read_config_file junk (Some s) c = Next c'" "new \<noteq> old"
  shows "read_config_simple (Some new) (Some s) (old, c) = Some (new, with_switches c c')
    \<and> read_config_simple (Some old) (Some s) (old, c) = Some (old, c)
    \<and> read_config_simple None (Some s) (old, c) = Some (old, c)"
proof -
  have "read_lines junk 0 s c = Next c'" using assms(1) by (simp add: read_config_file_def)
  then have "switches (simple_lines s c) = switches c'" by (rule readers_agree) simp
  then have "simple_lines s c = with_switches c c'" using simple_lines_with [of s c] switches_eq by metis
  then show ?thesis using assms(2) by (simp add: read_config_simple_def)
qed

theorem rereading_agrees_witness:
  "read_config_simple (Some 2) (Some (ascii ''PIPE_DEPTH=3'' @ [10])) (1, demo_cfg) = Some (2, demo_cfg\<lparr>pipe_depth := 3\<rparr>)"
proof -
  have l: "list_all short_line [ascii ''PIPE_DEPTH=3'']" "short_line []"
    by (simp_all add: short_line_def ascii_def BUFSIZ_def)
  have "read_config_file (\<lambda>_. (0, 0)) (Some (ascii ''PIPE_DEPTH=3'' @ [10])) demo_cfg
      = apply_lines (\<lambda>_. (0, 0)) 0 [ascii ''PIPE_DEPTH=3''] demo_cfg"
    using read_lines_apply [OF l, of "\<lambda>_. (0, 0)" 0 demo_cfg] by (simp add: read_config_file_def)
  also have "\<dots> = Next (demo_cfg\<lparr>pipe_depth := 3\<rparr>)"
    by (simp add: config_line_def split_line_def ascii_def isspace_def skip_var_name_def skip_opeartor_def strupr_def
        toupper_def set_entry_def set_number_def atoi_def scan_number_def number_def is_digit_def digit_def)
  finally have r: "read_config_file (\<lambda>_. (0, 0)) (Some (ascii ''PIPE_DEPTH=3'' @ [10])) demo_cfg
      = Next (demo_cfg\<lparr>pipe_depth := 3\<rparr>)" .
  from rereading_agrees [OF r, of 2 1] show ?thesis by (simp add: with_switches_def)
qed

end
