(* ===== verification/Simulation.thy ===== *)
theory Simulation
  imports Config_File Packet_Generator Packet_Manager
begin

text \<open>
  \<^verbatim>\<open>src/simulation.c\<close>, the main program: defaults, configuration file and command line, the check of the
  numbers of threads, and the start of the three groups. The parsing of the argument vector is the C library's \<^verbatim>\<open>getopt_long\<close>: the model
  takes the sequence of options that it delivers.
\<close>

section \<open>Command line\<close>

definition long_options :: "string list" where
  "long_options = [''generator_nums'', ''parser_nums'', ''pktlen'', ''config'', ''manager_nums'', ''gpool_size'',
     ''pqueue_length'', ''ppool_size'', ''mqueue_length'', ''mpool_size'', ''mhash_length'', ''mbuffer_size'',
     ''packet_generator_mode'']"

text \<open>The character that \<^verbatim>\<open>getopt_long\<close> returns for a long option.\<close>

definition long_values :: string where
  "long_values = ''gpoomoqoqohbc''"

text \<open>One round of the loop: the character, the index of the long option and the argument.\<close>

definition parse_option :: "char \<times> nat \<times> u8 list \<Rightarrow> sim_config \<Rightarrow> sim_config" where
  "parse_option = (\<lambda>(c, option_index, optarg) config.
     let name = long_options ! option_index
     in if c = CHR ''g'' then config\<lparr>generator_nums := atoi optarg\<rparr>
        else if c = CHR ''p'' then config\<lparr>parser_nums := atoi optarg\<rparr>
        else if c = CHR ''m'' then config\<lparr>manager_nums := atoi optarg\<rparr>
        else if c = CHR ''o''
        then if name = ''gpool_size'' then config\<lparr>generator_pool_size := atoi optarg\<rparr>
             else if name = ''parser_pool_size'' then config\<lparr>parser_pool_size := atoi optarg\<rparr>
             else if name = ''manager_pool_size'' then config\<lparr>manager_pool_size := atoi optarg\<rparr>
             else if name = ''pktlen'' then config\<lparr>pktlen := atoi optarg\<rparr>
             else config
        else if c = CHR ''q''
        then if name = ''pqueue_length'' then config\<lparr>parser_queue_length := atoi optarg\<rparr>
             else if name = ''manager_queue_length'' then config\<lparr>manager_queue_length := atoi optarg\<rparr>
             else config
        else if c = CHR ''h'' then config
        else if c = CHR ''b'' then config
        else if c = CHR ''c'' then config\<lparr>packet_generator_mode := atoi optarg\<rparr>
        else config)"

definition parse_args :: "(char \<times> nat \<times> u8 list) list \<Rightarrow> sim_config \<Rightarrow> sim_config" where
  "parse_args opts config = fold parse_option opts config"

text \<open>The search for \<^verbatim>\<open>--config\<close> among the arguments after the program's name.\<close>

fun config_path :: "u8 list list \<Rightarrow> u8 list \<Rightarrow> u8 list" where
  "config_path (arg # next # args) config_file =
     (if arg = ascii ''--config'' then config_path args next else config_path (next # args) config_file)"
| "config_path args config_file = config_file"

section \<open>Main\<close>

text \<open>The memory that \<^verbatim>\<open>bzero\<close> has cleared.\<close>

definition zero_config :: sim_config where
  "zero_config = \<lparr>cfg_protocol = 0, srcmac = replicate 6 0, dstmac = replicate 6 0, saddr_min = 0, daddr_min = 0,
     saddr_cur = 0, daddr_cur = 0, saddr_max = 0, daddr_max = 0, sport_min = 0, dport_min = 0, sport_cur = 0,
     dport_cur = 0, sport_max = 0, dport_max = 0, speed = 0, pkt_data = None, pktlen = 0, period = 0,
     link_name = None, packet_generator_mode = 0, generator_nums = 0, parser_nums = 0, manager_nums = 0,
     generator_pool_size = 0, parser_queue_length = 0, parser_pool_size = 0, manager_queue_length = 0,
     manager_pool_size = 0, manager_hash_length = 0, manager_buffer_size = 0, pipe_depth = 0, screen_display = 0,
     speed_mode = 0, mhz = 0, destory_time = 0\<rparr>"

text \<open>
  The configuration \<^verbatim>\<open>main\<close> starts with: \<open>files\<close> gives the content of a path, \<open>calc\<close> is the floating-point
  computation of the period. \<open>Return\<close> of the reader is a normal return, too; \<open>Exit\<close> ends the process.
\<close>

definition main_config ::
    "(u8 list \<Rightarrow> u8 list option) \<Rightarrow> (sim_config \<Rightarrow> u32) \<Rightarrow> (u64 \<times> u64) list \<Rightarrow> (nat \<Rightarrow> u32 \<times> u32) \<Rightarrow> u8 list list
      \<Rightarrow> (char \<times> nat \<times> u8 list) list \<Rightarrow> line_result" where
  "main_config files calc samples junk argv opts =
     (let path = config_path argv (ascii ''./generator.conf'');
          finish = (\<lambda>config. let config' = parse_args opts config in Next (config'\<lparr>period := calc config'\<rparr>))
      in case read_config_file junk (files path) (init_config_s samples zero_config) of
           Next config \<Rightarrow> finish config
         | Return config \<Rightarrow> finish config
         | r \<Rightarrow> r)"

text \<open>
  The start of the groups. \<open>fresh\<close> packs what fresh memory holds: the queue arrays, the session buffers, the
  bytes of the packets and the structs. No group exists before, so \<open>None\<close> is not reached; \<^verbatim>\<open>main\<close> would exit
  for a group that is NULL.
\<close>

record fresh =
  fr_null :: nat
  fr_queue :: "nat list"
  fr_pool :: "nat list"
  fr_bufs :: "nat \<Rightarrow> u8 list"
  fr_room :: "nat \<Rightarrow> nat \<Rightarrow> u8"
  fr_manager :: manager
  fr_parser :: parser
  fr_generator :: generator

definition main_start ::
    "fresh \<Rightarrow> int \<times> int \<Rightarrow> sim_config \<Rightarrow> world \<Rightarrow> (generator list \<times> parser list \<times> manager list \<times> world) run" where
  "main_start fr inac_open cfg w =
     (if generator_nums cfg > parser_nums cfg then Exits 0
      else run_bind (init_manager_group cfg (fr_null fr) (fr_queue fr) (fr_pool fr) (fr_bufs fr) (fr_manager fr))
             (\<lambda>(ms, cleaner).
           run_bind (init_parser_group cfg (fr_null fr) (fr_queue fr) (fr_parser fr) (None, w)) (\<lambda>p.
           case p of None \<Rightarrow> Exits (- 1)
           | Some (prs, w1) \<Rightarrow>
               run_bind (init_generator_group cfg inac_open (fr_null fr) (fr_queue fr) (fr_room fr) (fr_generator fr) (None, w1))
                 (\<lambda>g. case g of None \<Rightarrow> Exits (- 1) | Some (gs, w2) \<Rightarrow> Ret (gs, prs, ms, w2)))))"

section \<open>The groups at the start\<close>

text \<open>A manager with an empty table, a full pool of sessions and an empty queue.\<close>

definition manager_fresh :: "sim_config \<Rightarrow> nat \<Rightarrow> manager \<Rightarrow> bool" where
  "manager_fresh cfg i m \<longleftrightarrow> table_inv cfg (\<lambda>_. []) m \<and> session_of m = (\<lambda>_. None) \<and> mindex m = i
     \<and> intel_inv LG2_CAPACITY (mqueue m) \<and> intel_list LG2_CAPACITY (mqueue m) = []"

text \<open>Fresh memory of the sizes that the configuration asks for, and sizes of the arrays of buckets and of
  packets that fit the \<^verbatim>\<open>int\<close>s they are computed in.\<close>

definition tables_fit :: "fresh \<Rightarrow> sim_config \<Rightarrow> bool" where
  "tables_fit fr cfg \<longleftrightarrow> length (fr_queue fr) = 2 ^ LG2_CAPACITY \<and> length (fr_pool fr) = 2 ^ MANAGER_POOL
     \<and> (\<forall>j. length (fr_bufs fr j) = nat (manager_buffer_size cfg))
     \<and> 0 \<le> manager_buffer_size cfg \<and> manager_buffer_size cfg < 2 ^ 31 \<and> 0 \<le> manager_hash_length cfg
     \<and> (\<exists>n. next_prime (manager_hash_length cfg) = Some n \<and> 0 < n \<and> n * SIZEOF_BUCKET < 2 ^ 31)"

definition sizes_fit :: "fresh \<Rightarrow> sim_config \<Rightarrow> bool" where
  "sizes_fit fr cfg \<longleftrightarrow> tables_fit fr cfg \<and> pool_fits cfg"

lemma init_managers_fresh:
  assumes "tables_fit fr cfg"
  shows "\<exists>ms. init_managers cfg null (fr_queue fr) (fr_pool fr) (fr_bufs fr) m0 n = Ret ms \<and> length ms = n
    \<and> (\<forall>i<n. manager_fresh cfg i (ms ! i))"
proof (induction n)
  case (Suc n)
  then obtain ms where ms: "init_managers cfg null (fr_queue fr) (fr_pool fr) (fr_bufs fr) m0 n = Ret ms" "length ms = n"
    "\<forall>i<n. manager_fresh cfg i (ms ! i)" by blast
  obtain m where m: "init_signle_manager cfg null (fr_queue fr) (fr_pool fr) (fr_bufs fr) n m0 = Ret m" "manager_fresh cfg n m"
    using assms init_signle_manager_ok [of cfg _ "fr_bufs fr" "fr_queue fr" "fr_pool fr" null n m0]
    unfolding tables_fit_def manager_fresh_def by blast
  with ms show ?case by (auto simp: nth_append less_Suc_eq)
qed simp

lemma init_generator_group_runs:
  assumes "packet_generator_mode cfg \<noteq> 0 \<or> fst inac_open = 0" "0 \<le> generator_nums cfg"
  shows "\<exists>dev. init_generator_group cfg inac_open null junk room g0 (None, w)
    = run_bind (init_generators cfg null junk room dev g0 (nat (generator_nums cfg)) ([], w)) (\<lambda>s. Ret (Some s))"
  using assms by (cases inac_open) (auto simp: init_generator_group_def malloc_or_exit_def)

text \<open>The managers and the parsers start before the generators.\<close>

lemma main_start_managers:
  assumes "tables_fit fr cfg" "0 \<le> generator_nums cfg" "generator_nums cfg \<le> parser_nums cfg" "0 \<le> manager_nums cfg"
    and "packet_generator_mode cfg \<noteq> 0 \<or> fst inac_open = 0"
  shows "\<exists>ms prs w1 dev. length ms = nat (manager_nums cfg) \<and> (\<forall>i<length ms. manager_fresh cfg i (ms ! i))
    \<and> init_parsers (fr_null fr) (fr_queue fr) (fr_parser fr) (nat (parser_nums cfg)) ([], w) = (prs, w1)
    \<and> main_start fr inac_open cfg w
      = run_bind (init_generators cfg (fr_null fr) (fr_queue fr) (fr_room fr) dev (fr_generator fr) (nat (generator_nums cfg)) ([], w1))
          (\<lambda>(gs, w2). Ret (gs, prs, ms, w2))"
proof -
  obtain ms where ms: "init_managers cfg (fr_null fr) (fr_queue fr) (fr_pool fr) (fr_bufs fr) (fr_manager fr)
      (nat (manager_nums cfg)) = Ret ms" "length ms = nat (manager_nums cfg)" "\<forall>i<nat (manager_nums cfg). manager_fresh cfg i (ms ! i)"
    using init_managers_fresh [OF assms(1)] by blast
  obtain prs w1 where p: "init_parsers (fr_null fr) (fr_queue fr) (fr_parser fr) (nat (parser_nums cfg)) ([], w) = (prs, w1)"
    by (metis prod.exhaust)
  obtain dev where d: "init_generator_group cfg inac_open (fr_null fr) (fr_queue fr) (fr_room fr) (fr_generator fr) (None, w1)
      = run_bind (init_generators cfg (fr_null fr) (fr_queue fr) (fr_room fr) dev (fr_generator fr) (nat (generator_nums cfg)) ([], w1))
          (\<lambda>s. Ret (Some s))"
    using init_generator_group_runs [OF assms(5,2)] by blast
  have "main_start fr inac_open cfg w
      = run_bind (init_generators cfg (fr_null fr) (fr_queue fr) (fr_room fr) dev (fr_generator fr) (nat (generator_nums cfg)) ([], w1))
          (\<lambda>(gs, w2). Ret (gs, prs, ms, w2))"
    using assms(2-4)
    by (simp add: main_start_def init_manager_group_def ms(1) init_parser_group_def p d malloc_or_exit_def run_bind_assoc
        case_prod_beta')
  with p ms(2,3) show ?thesis by auto
qed

lemma main_start_runs:
  assumes "sizes_fit fr cfg" "0 \<le> generator_nums cfg" "generator_nums cfg \<le> parser_nums cfg" "0 \<le> manager_nums cfg"
    and "packet_generator_mode cfg \<noteq> 0 \<or> fst inac_open = 0"
  shows "\<exists>gs prs ms w'. main_start fr inac_open cfg w = Ret (gs, prs, ms, w')
    \<and> length gs = nat (generator_nums cfg) \<and> (\<forall>i<length gs. generator_fresh cfg w' i (gs ! i))
    \<and> length prs = nat (parser_nums cfg) \<and> (\<forall>i<length prs. parser_fresh w' i (prs ! i))
    \<and> length ms = nat (manager_nums cfg) \<and> (\<forall>i<length ms. manager_fresh cfg i (ms ! i))"
proof -
  have fit: "tables_fit fr cfg" "pool_fits cfg" "length (fr_queue fr) = 2 ^ LG2_CAPACITY"
    using assms(1) by (simp_all add: sizes_fit_def tables_fit_def)
  obtain ms prs w1 dev where M: "length ms = nat (manager_nums cfg)" "\<forall>i<length ms. manager_fresh cfg i (ms ! i)"
    and p: "init_parsers (fr_null fr) (fr_queue fr) (fr_parser fr) (nat (parser_nums cfg)) ([], w) = (prs, w1)"
    and R: "main_start fr inac_open cfg w
      = run_bind (init_generators cfg (fr_null fr) (fr_queue fr) (fr_room fr) dev (fr_generator fr) (nat (generator_nums cfg)) ([], w1))
          (\<lambda>(gs, w2). Ret (gs, prs, ms, w2))"
    using main_start_managers [OF fit(1) assms(2-5), of w] by blast
  obtain gs w2 where g: "init_generators cfg (fr_null fr) (fr_queue fr) (fr_room fr) dev (fr_generator fr)
      (nat (generator_nums cfg)) ([], w1) = Ret (gs, w2)"
    using init_generators_runs [OF fit(2)] by (metis prod.exhaust)
  note P = init_parsers_fresh [OF fit(3) p] and G = init_generators_fresh [OF fit(2,3) g]
  have "main_start fr inac_open cfg w = Ret (gs, prs, ms, w2)" unfolding R by (simp add: g)
  moreover have "parser_fresh w2 i (prs ! i)" if "i < nat (parser_nums cfg)" for i
    using P G that unfolding parser_fresh_def by auto
  ultimately show ?thesis using P G M by (intro exI [of _ gs] exI [of _ prs] exI [of _ ms] exI [of _ w2]) simp
qed

text \<open>The first generator of a group whose pool does not fit faults, and so does the group.\<close>

lemma init_generators_too_large:
  assumes "2 ^ 31 \<le> 1024 * (pktlen cfg + 26)"
  shows "init_generators cfg null junk room dev g0 (Suc n) s = Fault"
proof (induction n)
  case 0
  then show ?case using init_signle_generator_too_large [OF assms] by (cases s) simp
next
  case (Suc n)
  show ?case by (subst init_generators.simps) (simp add: Suc.IH del: init_generators.simps)
qed

lemma init_managers_too_large:
  assumes "next_prime (manager_hash_length cfg) = Some n" "2 ^ 31 \<le> n * SIZEOF_BUCKET"
  shows "init_managers cfg null junkq junkp bufs m0 (Suc k) \<in> {Exits (- 1), Fault}"
proof (induction k)
  case 0
  then show ?case
    using hash_create_too_large [OF assms, of "m0\<lparr>mqueue := intel_init LG2_CAPACITY null junkq\<rparr>"]
    by (auto simp: init_signle_manager_def)
next
  case (Suc k)
  show ?case by (subst init_managers.simps) (use Suc.IH in \<open>auto simp del: init_managers.simps\<close>)
qed

section \<open>Settings that do not take effect\<close>

text \<open>Five long options are accepted and change nothing.\<close>

lemma ignored_options:
  "map (\<lambda>n. long_options ! n) [7, 8, 9, 10, 11] = [''ppool_size'', ''mqueue_length'', ''mpool_size'', ''mhash_length'', ''mbuffer_size'']"
  "n \<in> {7, 8, 9, 10, 11} \<Longrightarrow> parse_option (long_values ! n, n, optarg) config = config"
  by (simp add: long_options_def)
    (elim insertE emptyE; simp add: parse_option_def long_values_def long_options_def)

text \<open>The defaults: without \<^verbatim>\<open>DESTORY_TIME\<close> in the file sessions live for 0 cycles, without \<^verbatim>\<open>PKTDATA\<close> the first
  packet faults, and the default addresses are in network order where the generator expects host order.\<close>

lemma default_lifetime: "lifetime (init_config_s samples zero_config) = 0"
  by (simp add: lifetime_def init_config_s_def zero_config_def)

lemma default_text_faults: "generator_tcp_packet d (init_config_s samples zero_config) = Fault"
  by (simp add: generator_tcp_packet_def init_config_s_def pop_payload_def)

lemma default_source_reversed: "bytes32 (htonl (saddr_min (init_config_s samples zero_config))) = [19, 103, 168, 192]"
  by (simp add: init_config_s_def inet_addr_def htonl_def bytes32_le32)

text \<open>An empty \<^verbatim>\<open>LINK_NAME\<close> writes before the start of a buffer, and \<^verbatim>\<open>none\<close> for \<^verbatim>\<open>PKTDATA\<close> is taken as the text.\<close>

lemma empty_link_name: "config_line counter port (ascii ''LINK_NAME='' @ [10]) config = Bad_Write"
  by (simp add: config_line_def split_line_def ascii_def isspace_def skip_var_name_def skip_opeartor_def strupr_def
      toupper_def set_entry_def set_link_name_def)

lemma none_is_a_text:
  "config_line counter port (ascii ''PKTDATA=none'' @ [10]) config = Next (config\<lparr>pkt_data := Some (ascii ''none'' @ [10])\<rparr>)"
  by (simp add: config_line_def split_line_def ascii_def isspace_def skip_var_name_def skip_opeartor_def strupr_def
      toupper_def set_entry_def)

section \<open>Properties\<close>

text \<open>C14. The start of the program. Let the bytes of a table's buckets and of a generator's packets each be fewer
  than \<open>2 ^ 31\<close>, the numbers of threads not negative and, in collector mode, the card open. When there are at most
  as many generators as parsers, the main program starts all three groups: every generator has a pool of
  1024 packets of its own and only ever sends to a parser that exists, every parser has an empty queue and
  a pool of 1024 flows of its own, every manager an empty table and an empty queue. With more generators
  than parsers, however many, the program exits with status 0 and starts nothing.\<close>

theorem startup_establishes:
  assumes "sizes_fit fr cfg" "0 \<le> generator_nums cfg" "0 \<le> manager_nums cfg"
    and "packet_generator_mode cfg \<noteq> 0 \<or> fst inac_open = 0"
  shows "if generator_nums cfg \<le> parser_nums cfg
    then \<exists>gs prs ms w'. main_start fr inac_open cfg w = Ret (gs, prs, ms, w')
      \<and> length gs = nat (generator_nums cfg) \<and> length prs = nat (parser_nums cfg) \<and> length ms = nat (manager_nums cfg)
      \<and> (\<forall>i<length gs. generator_fresh cfg w' i (gs ! i)
           \<and> (\<forall>k. 0 \<le> (next_parser cfg (int i) ^^ k) (int i) \<and> (next_parser cfg (int i) ^^ k) (int i) < int (length prs)))
      \<and> (\<forall>i<length prs. parser_fresh w' i (prs ! i))
      \<and> (\<forall>i<length ms. manager_fresh cfg i (ms ! i))
    else main_start fr inac_open cfg w = Exits 0"
proof (cases "generator_nums cfg \<le> parser_nums cfg")
  case True
  obtain gs prs ms w' where S: "main_start fr inac_open cfg w = Ret (gs, prs, ms, w')"
    "length gs = nat (generator_nums cfg)" "\<forall>i<length gs. generator_fresh cfg w' i (gs ! i)"
    "length prs = nat (parser_nums cfg)" "\<forall>i<length prs. parser_fresh w' i (prs ! i)"
    "length ms = nat (manager_nums cfg)" "\<forall>i<length ms. manager_fresh cfg i (ms ! i)"
    using main_start_runs [OF assms(1,2) True assms(3,4)] by blast
  have "0 \<le> (next_parser cfg (int i) ^^ k) (int i) \<and> (next_parser cfg (int i) ^^ k) (int i) < int (length prs)"
    if "i < length gs" for i k
  proof -
    have "int i < generator_nums cfg" using that S(2) by linarith
    then have "0 < generator_nums cfg" "int i < parser_nums cfg" using True by linarith+
    from turn_bounds [OF this(1) _ this(2), of k] show ?thesis unfolding S(4) by auto
  qed
  with S True show ?thesis by auto
qed (simp add: main_start_def)

definition demo_fresh :: fresh where
  "demo_fresh = \<lparr>fr_null = 0, fr_queue = replicate (2 ^ LG2_CAPACITY) 0, fr_pool = replicate (2 ^ MANAGER_POOL) 0,
     fr_bufs = \<lambda>_. replicate 64 0, fr_room = \<lambda>_ _. 0, fr_manager = demo_manager, fr_parser = demo_parser,
     fr_generator = demo_generator\<rparr>"

lemma demo_fresh_tables: "tables_fit demo_fresh demo_cfg"
proof -
  have "length (replicate 64 (0::u8)) = nat (manager_buffer_size demo_cfg)" unfolding demo_fields length_replicate by simp
  moreover have "next_prime (manager_hash_length demo_cfg) = Some 11" unfolding demo_fields by (rule next_prime_8)
  moreover have "length (fr_queue demo_fresh) = 2 ^ LG2_CAPACITY" "length (fr_pool demo_fresh) = 2 ^ MANAGER_POOL"
    "fr_bufs demo_fresh = (\<lambda>_. replicate 64 0)"
    unfolding demo_fresh_def fresh.select_convs by (simp_all only: length_replicate)
  ultimately show ?thesis unfolding tables_fit_def by (simp add: demo_fields SIZEOF_BUCKET_def)
qed

lemma demo_fresh_fits: "sizes_fit demo_fresh demo_cfg"
  using demo_fresh_tables by (simp add: sizes_fit_def pool_fits_def demo_cfg_def)

theorem startup_establishes_witness:
  "\<exists>gs prs ms w'. main_start demo_fresh (0, 3) demo_cfg one_packet_world = Ret (gs, prs, ms, w')
     \<and> length gs = 1 \<and> parser_fresh w' 0 (prs ! 0) \<and> manager_fresh demo_cfg 0 (ms ! 0)"
proof -
  have n: "generator_nums demo_cfg = 1" "parser_nums demo_cfg = 1" "manager_nums demo_cfg = 1"
    by (simp_all add: demo_cfg_def)
  have "0 \<le> generator_nums demo_cfg" "0 \<le> manager_nums demo_cfg" "packet_generator_mode demo_cfg \<noteq> 0 \<or> fst (0::int, 3::int) = 0"
    by (simp_all add: n)
  from startup_establishes [OF demo_fresh_fits this, of one_packet_world] show ?thesis unfolding n by auto
qed

text \<open>Sizes that do not fit an \<^verbatim>\<open>int\<close> stop the start of the program, with at most as many generators as parsers and
  at least one of every kind of thread. When the buckets of a table need \<open>2 ^ 31\<close> bytes or more, \<^verbatim>\<open>hash_create\<close> cuts the size to
  32 bits: the process exits with status -1, or the loop that initialises the buckets leaves the array
  it was given. When the tables fit and the 1024 packets of a generator need \<open>2 ^ 31\<close> bytes or more, the
  product of \<^verbatim>\<open>init_signle_generator\<close> overflows. So the bounds in the hypotheses of the start are needed.\<close>

theorem oversized_start_fails:
  assumes "0 < generator_nums cfg" "generator_nums cfg \<le> parser_nums cfg" "0 < manager_nums cfg"
    and "packet_generator_mode cfg \<noteq> 0 \<or> fst inac_open = 0"
  shows "(\<forall>n. next_prime (manager_hash_length cfg) = Some n \<and> 2 ^ 31 \<le> n * SIZEOF_BUCKET
           \<longrightarrow> main_start fr inac_open cfg w \<in> {Exits (- 1), Fault})
    \<and> (tables_fit fr cfg \<and> 2 ^ 31 \<le> 1024 * (pktlen cfg + 26) \<longrightarrow> main_start fr inac_open cfg w = Fault)"
proof (intro conjI allI impI)
  fix n
  assume n: "next_prime (manager_hash_length cfg) = Some n \<and> 2 ^ 31 \<le> n * SIZEOF_BUCKET"
  obtain k where k: "nat (manager_nums cfg) = Suc k" using assms(3) by (cases "nat (manager_nums cfg)") auto
  have "init_managers cfg (fr_null fr) (fr_queue fr) (fr_pool fr) (fr_bufs fr) (fr_manager fr) (Suc k) \<in> {Exits (- 1), Fault}"
    using init_managers_too_large n by blast
  then show "main_start fr inac_open cfg w \<in> {Exits (- 1), Fault}"
    using assms(2,3) by (auto simp: main_start_def init_manager_group_def malloc_or_exit_def k simp del: init_managers.simps)
next
  assume t: "tables_fit fr cfg \<and> 2 ^ 31 \<le> 1024 * (pktlen cfg + 26)"
  obtain k where k: "nat (generator_nums cfg) = Suc k" using assms(1) by (cases "nat (generator_nums cfg)") auto
  obtain ms prs w1 dev where "main_start fr inac_open cfg w
      = run_bind (init_generators cfg (fr_null fr) (fr_queue fr) (fr_room fr) dev (fr_generator fr) (Suc k) ([], w1))
          (\<lambda>(gs, w2). Ret (gs, prs, ms, w2))"
    using main_start_managers [of fr cfg inac_open w] t assms unfolding k by (metis less_imp_le)
  then show "main_start fr inac_open cfg w = Fault" unfolding init_generators_too_large [OF conjunct2 [OF t]] by simp
qed

theorem oversized_start_fails_witness:
  "main_start demo_fresh (0, 3) (demo_cfg\<lparr>pktlen := 2100000\<rparr>) one_packet_world = Fault"
proof -
  let ?c = "demo_cfg\<lparr>pktlen := 2100000\<rparr>"
  have "0 < generator_nums ?c" "generator_nums ?c \<le> parser_nums ?c" "0 < manager_nums ?c"
    "packet_generator_mode ?c \<noteq> 0 \<or> fst (0::int, 3::int) = 0" by (simp_all add: demo_cfg_def)
  note F = oversized_start_fails [OF this, of demo_fresh one_packet_world]
  have "tables_fit demo_fresh ?c" using demo_fresh_tables by (simp add: tables_fit_def)
  then show ?thesis using F by simp
qed

end
