(* ===== verification/Thread_System.thy ===== *)
theory Thread_System
  imports Pipeline Simulation
begin

text \<open>
  The whole program in generator mode: generators, parsers, managers and the cleaner as one system,
  in which any thread may make its next pass at any time. A pass of a thread is one step (the
  passes of \<^verbatim>\<open>packet_generator.c\<close>, \<^verbatim>\<open>packet_parser.c\<close> and \<^verbatim>\<open>packet_manager.c\<close>; the cleaner visits one bucket); a
  thread whose pass would wait is not stepped until it can complete it.
\<close>

section \<open>The system\<close>

text \<open>Every generator with its \<^verbatim>\<open>next_thread_id\<close>, the parsers, the managers, packets and pools,
  \<^verbatim>\<open>global_loss->send_total\<close> and the view of the dispatcher.\<close>

record system =
  sys_gens :: "(generator \<times> int) list"
  sys_prs :: "parser list"
  sys_ms :: "manager list"
  sys_world :: world
  sys_sent :: u64
  sys_view :: "u32 list"

text \<open>A pass of generator \<open>i\<close>, of parser \<open>r\<close>, of manager \<open>j\<close> at a time, and a visit of the cleaner to a bucket of manager \<open>j\<close>.\<close>

datatype action = Send nat | Parse nat | File nat u64 | Clean nat nat u64

fun has_thread :: "action \<Rightarrow> system \<Rightarrow> bool" where
  "has_thread (Send i) s = (i < length (sys_gens s))"
| "has_thread (Parse r) s = (r < length (sys_prs s))"
| "has_thread (File j now) s = (j < length (sys_ms s))"
| "has_thread (Clean j b now) s = (j < length (sys_ms s) \<and> b < nbuckets (sys_ms s ! j))"

fun sys_act :: "sim_config \<Rightarrow> action \<Rightarrow> system \<Rightarrow> system run" where
  "sys_act cfg (Send i) s =
     (let (g, next) = sys_gens s ! i
      in run_bind (generator_pass cfg (g, next, sys_world s, sys_prs s, sys_sent s)) (\<lambda>(g', next', w, prs, sent).
         Ret (s\<lparr>sys_gens := (sys_gens s)[i := (g', next')], sys_world := w, sys_prs := prs, sys_sent := sent\<rparr>)))"
| "sys_act cfg (Parse r) s =
     run_bind (parser_pass cfg r (sys_prs s ! r, sys_world s, sys_ms s, sys_view s)) (\<lambda>(pr, w, ms, view).
     Ret (s\<lparr>sys_prs := (sys_prs s)[r := pr], sys_world := w, sys_ms := ms, sys_view := view\<rparr>))"
| "sys_act cfg (File j now) s =
     run_bind (manager_turn cfg (j, now) (sys_ms s, sys_world s)) (\<lambda>(ms, w).
     Ret (s\<lparr>sys_ms := ms, sys_world := w\<rparr>))"
| "sys_act cfg (Clean j b now) s =
     run_bind (delete_session cfg now b (sys_ms s ! j)) (\<lambda>m. Ret (s\<lparr>sys_ms := (sys_ms s)[j := m]\<rparr>))"

text \<open>The states that can be reached, with the number of parser passes on the way: the counter that
  bounds them is the 32-bit copy in \<^verbatim>\<open>dequeue_multiple\<close>.\<close>

definition parses :: "action \<Rightarrow> nat" where
  "parses a = (case a of Parse r \<Rightarrow> 1 | _ \<Rightarrow> 0)"

inductive runs :: "sim_config \<Rightarrow> system \<Rightarrow> nat \<Rightarrow> system \<Rightarrow> bool" for cfg s where
  runs_start: "runs cfg s 0 s"
| runs_step: "runs cfg s n s1 \<Longrightarrow> has_thread a s1 \<Longrightarrow> sys_act cfg a s1 = Ret s2 \<Longrightarrow> runs cfg s (n + parses a) s2"

section \<open>The start\<close>

text \<open>The generator threads fill their packets (\<^verbatim>\<open>generator_mode\<close> chooses the handler) before they begin to send.\<close>

fun start_generators :: "handler \<Rightarrow> generator list \<Rightarrow> world \<Rightarrow> ((generator \<times> int) list \<times> world) run" where
  "start_generators Handler [] w = Ret ([], w)"
| "start_generators Handler (g # gs) w =
     run_bind (make_all_packet Handler (g, w)) (\<lambda>(g', w').
     run_bind (start_generators Handler gs w') (\<lambda>(gens, w''). Ret ((g', g_index g') # gens, w'')))"

definition handler_of :: "sim_config \<Rightarrow> handler option" where
  "handler_of cfg = (if cfg_protocol cfg = 6 then Some generator_tcp_packet
     else if cfg_protocol cfg = 17 then Some generator_udp_packet else None)"

text \<open>The view has 36 entries, all zero. A generator exits the process when it knows no handler.\<close>

definition boot :: "fresh \<Rightarrow> int \<times> int \<Rightarrow> sim_config \<Rightarrow> world \<Rightarrow> system run" where
  "boot fr inac_open cfg w =
     run_bind (main_start fr inac_open cfg w) (\<lambda>(gs, prs, ms, w1).
       case handler_of cfg of
         Some Handler \<Rightarrow>
           run_bind (start_generators Handler gs w1) (\<lambda>(gens, w2).
           Ret \<lparr>sys_gens = gens, sys_prs = prs, sys_ms = ms, sys_world = w2, sys_sent = 0,
             sys_view = replicate 36 0\<rparr>)
       | None \<Rightarrow> Exits (- 1))"

section \<open>The invariant\<close>

text \<open>What pool \<open>i\<close> owns, and the packets of pool \<open>i\<close> that wait at the parsers.\<close>

definition own :: "nat \<Rightarrow> nat list" where
  "own i = [1024 * i..<1024 * i + 1024]"

lemma own_iff [simp]: "p \<in> set (own i) \<longleftrightarrow> p div 1024 = i"
  by (auto simp: own_def)

lemma own_simps [simp]: "distinct (own i)" "length (own i) = 2 ^ LG2_CAPACITY"
  by (simp_all add: own_def LG2_CAPACITY_def)

definition queued :: "parser list \<Rightarrow> nat \<Rightarrow> nat multiset" where
  "queued prs i = (\<Sum>pr\<leftarrow>prs. mset (filter (\<lambda>p. p div 1024 = i) (queue_list pr)))"

text \<open>A configuration the system can run with: TCP packets that fit the session buffers, all stages, and
  numbers of threads that fit each other.\<close>

definition sys_config :: "sim_config \<Rightarrow> u8 list \<Rightarrow> bool" where
  "sys_config cfg str \<longleftrightarrow> tcp_ready cfg str \<and> packet_generator_mode cfg = 1 \<and> cfg_protocol cfg = 6 \<and> 4 < pipe_depth cfg
     \<and> 0 < generator_nums cfg \<and> generator_nums cfg \<le> parser_nums cfg \<and> 0 < manager_nums cfg \<and> manager_nums cfg \<le> 36
     \<and> pktlen cfg + 2 < 2 ^ 32 \<and> nat (pktlen cfg) - 54 \<le> nat (manager_buffer_size cfg)"

abbreviation gnum :: "sim_config \<Rightarrow> nat" where "gnum cfg \<equiv> nat (generator_nums cfg)"

abbreviation pnum :: "sim_config \<Rightarrow> nat" where "pnum cfg \<equiv> nat (parser_nums cfg)"

text \<open>Every generator has its own pool, has set up its own packets, and is somewhere in its round.\<close>

definition gens_inv :: "sim_config \<Rightarrow> (generator \<times> int) list \<Rightarrow> bool" where
  "gens_inv cfg gens \<longleftrightarrow> length gens = gnum cfg
     \<and> (\<forall>i<gnum cfg. g_pool (fst (gens ! i)) = i \<and> g_index (fst (gens ! i)) = int i
          \<and> next_parser (g_config (fst (gens ! i))) = next_parser cfg \<and> (\<forall>p\<in>set (own i). g_ready (fst (gens ! i)) p)
          \<and> (\<exists>k. snd (gens ! i) = (next_parser cfg (int i) ^^ k) (int i))
          \<and> (\<exists>k. g_config (fst (gens ! i)) = (next_config ^^ k) cfg))"

text \<open>Every packet belongs to its pool and carries the configured text and the addresses and ports of some turn.\<close>

definition drawn :: "sim_config \<Rightarrow> packet \<Rightarrow> bool" where
  "drawn cfg pkt \<longleftrightarrow> (\<exists>k. packet_key pkt = drawn_key ((next_config ^^ k) cfg))"

definition packets_inv :: "sim_config \<Rightarrow> u8 list \<Rightarrow> world \<Rightarrow> bool" where
  "packets_inv cfg str w \<longleftrightarrow>
     (\<forall>p. p div 1024 < gnum cfg \<longrightarrow> ppool (packets w p) = p div 1024 \<and> made cfg str (packets w p)
        \<and> drawn cfg (packets w p))"

text \<open>The queues of the parsers hold packets of the one generator that serves them.\<close>

definition queues_inv :: "sim_config \<Rightarrow> nat \<Rightarrow> parser list \<Rightarrow> bool" where
  "queues_inv cfg n prs \<longleftrightarrow> length prs = pnum cfg
     \<and> (\<forall>r<pnum cfg. intel_inv LG2_CAPACITY (pqueue (prs ! r)) \<and> unat (dequeue_count (pqueue (prs ! r))) \<le> COUNT * n
          \<and> (\<forall>p\<in>set (queue_list (prs ! r)). p div 1024 = r mod gnum cfg))"

text \<open>Every packet of a pool is in one place: the pool, the queue of a parser, or, with the flow that
  decodes it, the queue of a manager.\<close>

definition pools_inv :: "sim_config \<Rightarrow> parser list \<Rightarrow> manager list \<Rightarrow> world \<Rightarrow> bool" where
  "pools_inv cfg prs ms w \<longleftrightarrow>
     (\<forall>i<gnum cfg. intel_inv LG2_CAPACITY (packet_pools w i) \<and> packet_stock (ms, w) i + queued prs i = mset (own i))"

text \<open>The same for the flows.\<close>

definition flows_inv :: "sim_config \<Rightarrow> nat \<Rightarrow> manager list \<Rightarrow> world \<Rightarrow> bool" where
  "flows_inv cfg n ms w \<longleftrightarrow>
     (\<forall>i<pnum cfg. intel_inv LG2_CAPACITY (flow_pools w i) \<and> unat (dequeue_count (flow_pools w i)) \<le> COUNT * n
        \<and> flow_stock (ms, w) i = mset (own i))
     \<and> (\<forall>f. f div 1024 < pnum cfg \<longrightarrow> fpool (flows w f) = f div 1024)"

text \<open>A flow that waits at a manager decodes its packet.\<close>

definition waits_well :: "sim_config \<Rightarrow> world \<Rightarrow> nat \<Rightarrow> bool" where
  "waits_well cfg w f \<longleftrightarrow> f div 1024 < pnum cfg \<and> fpacket (flows w f) div 1024 < gnum cfg \<and> decodes w f (fpacket (flows w f))"

definition managers_inv :: "sim_config \<Rightarrow> manager list \<Rightarrow> world \<Rightarrow> bool" where
  "managers_inv cfg ms w \<longleftrightarrow>
     (\<forall>m\<in>set ms. (\<exists>chs. table_inv cfg chs m) \<and> intel_inv LG2_CAPACITY (mqueue m) \<and> (\<forall>f\<in>set (mq m). waits_well cfg w f))"

definition sys_inv :: "sim_config \<Rightarrow> u8 list \<Rightarrow> nat \<Rightarrow> system \<Rightarrow> bool" where
  "sys_inv cfg str n s \<longleftrightarrow> gens_inv cfg (sys_gens s) \<and> packets_inv cfg str (sys_world s) \<and> queues_inv cfg n (sys_prs s)
     \<and> pools_inv cfg (sys_prs s) (sys_ms s) (sys_world s) \<and> flows_inv cfg n (sys_ms s) (sys_world s)
     \<and> managers_inv cfg (sys_ms s) (sys_world s)
     \<and> sys_ms s \<noteq> [] \<and> length (sys_ms s) \<le> length (sys_view s) \<and> length (sys_view s) = 36"

text \<open>Nothing is in two places at once.\<close>

lemma one_place:
  assumes "mset xs + W + R = mset (own i)"
  shows "x \<in> set xs \<Longrightarrow> x div 1024 = i" "x \<in> set xs \<Longrightarrow> x \<notin># W" "distinct xs"
proof -
  have own: "count (mset (own i)) q = (if q div 1024 = i then 1 else 0)" for q
    using distinct_count_atmost_1 [of "own i"] by simp
  have c: "count (mset xs) q + count W q \<le> (if q div 1024 = i then 1 else 0)" for q
    unfolding own [symmetric] assms [symmetric] by simp
  have le: "count (mset xs) q + count W q \<le> 1" for q by (rule order_trans [OF c]) simp
  have pos: "0 < count (mset xs) q" if "q \<in> set xs" for q using that by (simp only: set_mset_mset count_greater_zero_iff)
  show "x div 1024 = i" "x \<notin># W" if "x \<in> set xs"
  proof -
    have "count (mset xs) x + count W x = 0" if "x div 1024 \<noteq> i" using c [of x] that by simp
    with pos [OF that] le [of x] have "x div 1024 = i" "count W x = 0" by linarith+
    then show "x div 1024 = i" "x \<notin># W" by (simp_all only: not_in_iff)
  qed
  have "count (mset xs) q = 1" if "q \<in> set xs" for q using pos [OF that] le [of q] by linarith
  then show "distinct xs" unfolding distinct_count_atmost_1 by simp
qed

lemma sum_list_memberD:
  assumes "m \<in> set ms" "x \<in># g m"
  shows "x \<in># (\<Sum>m\<leftarrow>ms. g m :: nat multiset)"
  using assms by (induction ms) auto

lemma pool_member:
  assumes "pools_inv cfg prs ms w" "i < gnum cfg" "p \<in> set (intel_list LG2_CAPACITY (packet_pools w i))"
  shows "p div 1024 = i" "m \<in> set ms \<Longrightarrow> f \<in> set (mq m) \<Longrightarrow> home w f = i \<Longrightarrow> fpacket (flows w f) \<noteq> p"
proof -
  have "mset (intel_list LG2_CAPACITY (packet_pools w i)) + (\<Sum>m\<leftarrow>ms. waiting_packets w i m) + queued prs i = mset (own i)"
    using assms(1,2) by (simp add: pools_inv_def packet_stock_def)
  note O = one_place [OF this]
  from O(1) assms(3) show "p div 1024 = i" .
  show "fpacket (flows w f) \<noteq> p" if "m \<in> set ms" "f \<in> set (mq m)" "home w f = i"
  proof
    assume "fpacket (flows w f) = p"
    then have "p \<in># waiting_packets w i m" using that(2,3) by (auto simp: waiting_packets_def)
    then show False using sum_list_memberD [OF that(1)] O(2) [OF assms(3)] by blast
  qed
qed

lemma flow_member:
  assumes "flows_inv cfg n ms w" "i < pnum cfg"
  shows "f \<in> set (intel_list LG2_CAPACITY (flow_pools w i)) \<Longrightarrow> f div 1024 = i"
    "f \<in> set (intel_list LG2_CAPACITY (flow_pools w i)) \<Longrightarrow> m \<in> set ms \<Longrightarrow> f \<notin> set (mq m)"
    "distinct (intel_list LG2_CAPACITY (flow_pools w i))"
proof -
  have "mset (intel_list LG2_CAPACITY (flow_pools w i)) + (\<Sum>m\<leftarrow>ms. waiting_flows w i m) + {#} = mset (own i)"
    using assms by (simp add: flows_inv_def flow_stock_def)
  note O = one_place [OF this]
  show d: "f div 1024 = i" if "f \<in> set (intel_list LG2_CAPACITY (flow_pools w i))" using O(1) that .
  show "distinct (intel_list LG2_CAPACITY (flow_pools w i))" by (rule O(3))
  show "f \<notin> set (mq m)" if f: "f \<in> set (intel_list LG2_CAPACITY (flow_pools w i))" and m: "m \<in> set ms"
  proof
    assume "f \<in> set (mq m)"
    moreover have "fpool (flows w f) = i" using assms d [OF f] by (simp add: flows_inv_def)
    ultimately have "f \<in># waiting_flows w i m" by (simp add: waiting_flows_def)
    then show False using sum_list_memberD [OF m] O(2) [OF f] by blast
  qed
qed

text \<open>The managers can take their turns.\<close>

lemma sys_turns:
  assumes "sys_config cfg str" "packets_inv cfg str w" "pools_inv cfg prs ms w" "flows_inv cfg n ms w" "managers_inv cfg ms w"
  shows "turns_inv cfg (ms, w)"
proof -
  have c: "54 \<le> pktlen cfg" "pktlen cfg + 2 < 2 ^ 32" "nat (pktlen cfg) - 54 \<le> nat (manager_buffer_size cfg)" "4 < pipe_depth cfg"
    using assms(1) by (simp_all add: sys_config_def tcp_ready_def)
  have "flow_sound cfg (ms, w) f" if m: "m \<in> set ms" and f: "f \<in> set (mq m)" for m f
  proof -
    let ?p = "fpacket (flows w f)"
    have W: "f div 1024 < pnum cfg" "?p div 1024 < gnum cfg" "decodes w f ?p"
      using assms(5) m f by (auto simp: managers_inv_def waits_well_def)
    have P: "ppool (packets w ?p) = ?p div 1024" "made cfg str (packets w ?p)" using assms(2) W(2) by (auto simp: packets_inv_def)
    have F: "fpool (flows w f) = f div 1024" "intel_inv LG2_CAPACITY (flow_pools w (f div 1024))"
      "flow_stock (ms, w) (f div 1024) = mset (own (f div 1024))" using assms(4) W(1) by (auto simp: flows_inv_def)
    have S: "intel_inv LG2_CAPACITY (packet_pools w (?p div 1024))"
      "packet_stock (ms, w) (?p div 1024) + queued prs (?p div 1024) = mset (own (?p div 1024))"
      using assms(3) W(2) by (auto simp: pools_inv_def)
    have "size (packet_stock (ms, w) (?p div 1024)) \<le> size (mset (own (?p div 1024)))"
      unfolding S(2) [symmetric] size_union by (rule le_add1)
    then have "size (packet_stock (ms, w) (?p div 1024)) \<le> 2 ^ LG2_CAPACITY" by (simp only: size_mset own_simps)
    moreover have "size (flow_stock (ms, w) (f div 1024)) \<le> 2 ^ LG2_CAPACITY" unfolding F(3) size_mset own_simps by (rule order_refl)
    ultimately show ?thesis
      using flow_sound_decodes [OF W(3), of cfg ms "f div 1024"] made_sound [OF P(2) c(1-3)] P(1) F(1,2) S(1) by metis
  qed
  then show ?thesis using assms(5) c(4) by (auto simp: turns_inv_def managers_inv_def)
qed

section \<open>Every pass keeps the invariant\<close>

lemma map_same: "j < length ms \<Longrightarrow> g m' = g (ms ! j) \<Longrightarrow> map g (ms[j := m']) = map g ms"
  by (metis length_map list_update_id map_update nth_map)

lemma stock_same_queue:
  assumes "j < length ms" "mqueue m' = mqueue (ms ! j)"
  shows "packet_stock (ms[j := m'], w) = packet_stock (ms, w)" "flow_stock (ms[j := m'], w) = flow_stock (ms, w)"
proof -
  have "map (waiting_packets w pp) (ms[j := m']) = map (waiting_packets w pp) ms"
    "map (waiting_flows w i) (ms[j := m']) = map (waiting_flows w i) ms" for pp i
    using assms(2) by (auto intro!: map_same [OF assms(1)] simp: waiting_packets_def waiting_flows_def)
  then show "packet_stock (ms[j := m'], w) = packet_stock (ms, w)" "flow_stock (ms[j := m'], w) = flow_stock (ms, w)"
    by (simp_all add: packet_stock_def flow_stock_def fun_eq_iff)
qed

text \<open>The cleaner never waits.\<close>

lemma clean_pass:
  assumes "sys_inv cfg str n s" "has_thread (Clean j b now) s"
  shows "\<exists>m'. sys_act cfg (Clean j b now) s = Ret (s\<lparr>sys_ms := (sys_ms s)[j := m']\<rparr>) \<and> mqueue m' = mqueue (sys_ms s ! j)
    \<and> sys_inv cfg str n (s\<lparr>sys_ms := (sys_ms s)[j := m']\<rparr>)"
proof -
  let ?ms = "sys_ms s" and ?w = "sys_world s"
  have j: "j < length ?ms" "b < nbuckets (?ms ! j)" using assms(2) by simp_all
  have M: "managers_inv cfg ?ms ?w" using assms(1) by (simp add: sys_inv_def)
  obtain chs where "table_inv cfg chs (?ms ! j)" using M j(1) unfolding managers_inv_def by (meson nth_mem)
  from delete_session_ok [OF this j(2), of now] obtain m' chs' where m': "delete_session cfg now b (?ms ! j) = Ret m'"
    "table_inv cfg chs' m'" "mqueue m' = mqueue (?ms ! j)" by blast
  have "managers_inv cfg (?ms[j := m']) ?w"
    using M m'(2,3) nth_mem [OF j(1)] unfolding managers_inv_def by (auto dest!: set_update_subset_insert [THEN subsetD])
  then have "sys_inv cfg str n (s\<lparr>sys_ms := ?ms[j := m']\<rparr>)"
    using assms(1) by (simp add: sys_inv_def pools_inv_def flows_inv_def stock_same_queue [OF j(1) m'(3)])
  with m' show ?thesis by auto
qed

text \<open>A manager files the flow at the head of its queue, or waits: for a flow, or for a session when it
  needs a new one and none is free.\<close>

definition can_file :: "nat \<Rightarrow> system \<Rightarrow> bool" where
  "can_file j s \<longleftrightarrow> (\<exists>f fs. mq (sys_ms s ! j) = f # fs
     \<and> (session_of (sys_ms s ! j) (flow_key (flows (sys_world s) f)) \<noteq> None
        \<or> intel_list MANAGER_POOL (session_pool (sys_ms s ! j)) \<noteq> []))"

lemma filed_keeps:
  assumes I: "packets_inv cfg str w" "pools_inv cfg prs ms w" "flows_inv cfg n ms w" "managers_inv cfg ms w"
    and j: "j < length ms" "mq (ms ! j) = f # mq m'" and R: "turns_inv cfg (ms[j := m'], w')" "released f w w'"
      "packet_stock (ms[j := m'], w') = packet_stock (ms, w)" "flow_stock (ms[j := m'], w') = flow_stock (ms, w)"
  shows "packets_inv cfg str w' \<and> pools_inv cfg prs (ms[j := m']) w' \<and> flows_inv cfg n (ms[j := m']) w'
    \<and> managers_inv cfg (ms[j := m']) w'"
proof -
  have w: "packets w' = packets w" "flows w' = flows w" "pool_put (home w f) (fpacket (flows w f)) (packet_pools w) (packet_pools w')"
    "pool_put (fpool (flows w f)) f (flow_pools w) (flow_pools w')"
    using R(2) by (auto simp: released_def home_def)
  have "intel_inv LG2_CAPACITY (packet_pools w' k)" if "intel_inv LG2_CAPACITY (packet_pools w k)" for k
    using that w(3) by (cases "k = home w f") (auto simp: pool_put_def)
  then have P: "packets_inv cfg str w'" "pools_inv cfg prs (ms[j := m']) w'"
    using I(1,2) by (simp_all add: packets_inv_def pools_inv_def w R(3))
  have "intel_inv LG2_CAPACITY (flow_pools w' k) \<and> dequeue_count (flow_pools w' k) = dequeue_count (flow_pools w k)"
    if "intel_inv LG2_CAPACITY (flow_pools w k)" for k
    using that w(4) by (cases "k = fpool (flows w f)") (auto simp: pool_put_def)
  then have F: "flows_inv cfg n (ms[j := m']) w'" using I(3) by (simp add: flows_inv_def w R(4))
  have "waits_well cfg w' = waits_well cfg w"
    by (intro ext) (simp add: waits_well_def decodes_def payload_inside_def flow_bytes_def w)
  moreover have "(\<exists>chs. table_inv cfg chs m) \<and> intel_inv LG2_CAPACITY (mqueue m)" if "m \<in> set (ms[j := m'])" for m
    using R(1) that by (simp add: turns_inv_def)
  moreover have "\<forall>f\<in>set (mq m). waits_well cfg w f" if "m \<in> set (ms[j := m'])" for m
    using I(4) nth_mem [OF j(1)] j(2) set_update_subset_insert [THEN subsetD, OF that] by (auto simp: managers_inv_def)
  ultimately have "managers_inv cfg (ms[j := m']) w'" by (simp add: managers_inv_def)
  with P F show ?thesis by blast
qed

lemma file_pass:
  assumes "sys_config cfg str" "sys_inv cfg str n s" "has_thread (File j now) s"
  shows "if can_file j s then \<exists>s'. sys_act cfg (File j now) s = Ret s' \<and> sys_inv cfg str n s'
    else sys_act cfg (File j now) s = Spin"
proof -
  let ?ms = "sys_ms s" and ?w = "sys_world s"
  have j: "j < length ?ms" using assms(3) by simp
  have I: "packets_inv cfg str ?w" "pools_inv cfg (sys_prs s) ?ms ?w" "flows_inv cfg n ?ms ?w" "managers_inv cfg ?ms ?w"
    using assms(2) by (simp_all add: sys_inv_def)
  note T = sys_turns [OF assms(1) I]
  show ?thesis
  proof (cases "can_file j s")
    case False
    then have "mq (?ms ! j) = [] \<or> (\<exists>f fs. mq (?ms ! j) = f # fs \<and> session_of (?ms ! j) (flow_key (flows ?w f)) = None)
      \<and> intel_list MANAGER_POOL (session_pool (?ms ! j)) = []" unfolding can_file_def by (cases "mq (?ms ! j)") blast+
    from manager_turn_waits [OF T j this, of now] False show ?thesis by simp
  next
    case True
    then obtain f fs where q: "mq (?ms ! j) = f # fs" and free: "session_of (?ms ! j) (flow_key (flows ?w f)) \<noteq> None
        \<or> intel_list MANAGER_POOL (session_pool (?ms ! j)) \<noteq> []" unfolding can_file_def by blast
    from manager_turn_files [OF T j q free, of now] obtain m' w' where R:
      "manager_turn cfg (j, now) (?ms, ?w) = Ret (?ms[j := m'], w')" "turns_inv cfg (?ms[j := m'], w')"
      "released f ?w w'" "mq m' = fs"
      "packet_stock (?ms[j := m'], w') = packet_stock (?ms, ?w)" "flow_stock (?ms[j := m'], w') = flow_stock (?ms, ?w)"
      unfolding q by auto
    from filed_keeps [OF I j q [folded R(4)] R(2,3,5,6)] assms(2)
    have "sys_inv cfg str n (s\<lparr>sys_ms := ?ms[j := m'], sys_world := w'\<rparr>)" by (simp add: sys_inv_def)
    with R(1) True show ?thesis by auto
  qed
qed

text \<open>A generator sends the packet at the head of its pool, or waits.\<close>

lemma queued_put:
  assumes "r < length prs" "queue_list pr = queue_list (prs ! r) @ [p]"
  shows "queued (prs[r := pr]) i = queued prs i + (if p div 1024 = i then {#p#} else {#})"
proof -
  let ?g = "\<lambda>pr. mset (filter (\<lambda>p. p div 1024 = i) (queue_list pr))"
  have "?g pr = ?g (prs ! r) + (if p div 1024 = i then {#p#} else {#})" by (simp add: assms(2))
  then show ?thesis using sum_list_put [OF assms(1), of ?g pr] by (simp add: queued_def ac_simps)
qed

lemma decodes_cong:
  assumes "flows w' f = flows w f" "packets w' p = packets w p"
  shows "decodes w' f p \<longleftrightarrow> decodes w f p"
  using assms by (auto simp: decodes_def payload_inside_def flow_bytes_def)

lemma renewed_made: "made cfg str pkt \<Longrightarrow> renewed c (data pkt) d \<Longrightarrow> made cfg str (pkt\<lparr>data := d\<rparr>)"
  by (simp add: made_def renewed_def)

lemma renewed_drawn: "renewed ((next_config ^^ k) cfg) d (data pkt) \<Longrightarrow> drawn cfg pkt"
  unfolding drawn_def using renewed_key by blast

text \<open>Sending packet \<open>p\<close> from pool \<open>i\<close> to parser \<open>r\<close>.\<close>

lemma sent_keeps:
  assumes I: "packets_inv cfg str w" "queues_inv cfg n prs" "pools_inv cfg prs ms w" "flows_inv cfg n ms w" "managers_inv cfg ms w"
    and i: "i < gnum cfg" "intel_list LG2_CAPACITY (packet_pools w i) = p # free" "renewed ((next_config ^^ k) cfg) (data (packets w p)) d"
    and q: "intel_inv LG2_CAPACITY q" "intel_list LG2_CAPACITY q = free"
    and r: "r < pnum cfg" "r mod gnum cfg = i" "intel_inv LG2_CAPACITY (pqueue pr)" "queue_list pr = queue_list (prs ! r) @ [p]"
      "dequeue_count (pqueue pr) = dequeue_count (pqueue (prs ! r))"
  defines "w' \<equiv> set_packet p ((packets w p)\<lparr>data := d\<rparr>) (set_pool i q w)"
  shows "packets_inv cfg str w' \<and> queues_inv cfg n (prs[r := pr]) \<and> pools_inv cfg (prs[r := pr]) ms w'
    \<and> flows_inv cfg n ms w' \<and> managers_inv cfg ms w'"
proof -
  have p: "p div 1024 = i" "\<And>m f. m \<in> set ms \<Longrightarrow> f \<in> set (mq m) \<Longrightarrow> home w f = i \<Longrightarrow> fpacket (flows w f) \<noteq> p"
    using pool_member [OF I(3) i(1)] by (simp_all add: i(2))
  have w: "flows w' = flows w" "flow_pools w' = flow_pools w" "packet_pools w' = (packet_pools w)(i := q)"
    "packets w' = (packets w)(p := (packets w p)\<lparr>data := d\<rparr>)" by (simp_all add: w'_def set_packet_def set_pool_def)
  have "home w' f = home w f" for f by (simp add: home_def w)
  then have s: "waiting_packets w' = waiting_packets w" "waiting_flows w' = waiting_flows w"
    by (simp_all add: waiting_packets_def waiting_flows_def w fun_eq_iff)
  have len: "length prs = pnum cfg" using I(2) by (simp add: queues_inv_def)
  have "made cfg str (packets w p)" using I(1) i(1) p(1) by (simp add: packets_inv_def)
  then have 1: "packets_inv cfg str w'"
    using I(1) renewed_made [OF _ i(3)] renewed_drawn [of k cfg _ "(packets w p)\<lparr>data := d\<rparr>"] i(3) by (simp add: packets_inv_def w)
  have 2: "queues_inv cfg n (prs[r := pr])"
    using I(2) r p(1) by (auto simp: queues_inv_def nth_list_update)
  have "packet_stock (ms, w) i = add_mset p (packet_stock (ms, w') i)"
    "k \<noteq> i \<Longrightarrow> packet_stock (ms, w') k = packet_stock (ms, w) k" for k
    by (simp_all add: packet_stock_def s w q(2) i(2))
  then have 3: "pools_inv cfg (prs[r := pr]) ms w'"
    using I(3) q(1) p(1) r(1) unfolding pools_inv_def queued_put [OF r(1) [folded len] r(4)] by (auto simp: w)
  have 4: "flows_inv cfg n ms w'" using I(4) by (simp add: flows_inv_def flow_stock_def w s)
  have "waits_well cfg w' f" if m: "m \<in> set ms" and f: "f \<in> set (mq m)" for m f
  proof -
    have W: "waits_well cfg w f" using I(5) m f by (simp add: managers_inv_def)
    then have "home w f = fpacket (flows w f) div 1024" using I(1) by (simp add: waits_well_def packets_inv_def home_def)
    then have "fpacket (flows w f) \<noteq> p" using p(1,2) m f by metis
    then show ?thesis using W decodes_cong [of w' f w "fpacket (flows w f)"] by (simp add: waits_well_def w)
  qed
  then have "managers_inv cfg ms w'" using I(5) by (simp add: managers_inv_def)
  with 1 2 3 4 show ?thesis by blast
qed

text \<open>The parser whose turn it is exists and is served by this generator only.\<close>

lemma gens_turn:
  assumes "sys_config cfg str" "gens_inv cfg gens" "i < gnum cfg" "gens ! i = (g, nxt)"
  shows "0 \<le> nxt" "nxt < parser_nums cfg" "nat nxt < pnum cfg" "nat nxt mod gnum cfg = i"
proof -
  have c: "0 < generator_nums cfg" "int i < generator_nums cfg" "int i < parser_nums cfg"
    using assms(1,3) by (auto simp: sys_config_def)
  obtain k where "nxt = (next_parser cfg (int i) ^^ k) (int i)" using assms(2-4) by (auto simp: gens_inv_def)
  then have nx: "0 \<le> nxt" "nxt < parser_nums cfg" "nxt mod generator_nums cfg = int i"
    using turn_bounds [OF c(1) _ c(3)] turn_mod [OF c(1) _ c(2)] by simp_all
  then show "0 \<le> nxt" "nxt < parser_nums cfg" "nat nxt < pnum cfg" "nat nxt mod gnum cfg = i"
    using c(1) by (auto simp flip: nat_mod_distrib)
qed

lemma gens_keep:
  assumes "gens_inv cfg gens" "i < gnum cfg" "gens ! i = (g, nxt)"
  shows "gens_inv cfg (gens[i := (counted (next_config (g_config g)) g, next_parser cfg (int i) nxt)])"
proof -
  obtain k where "nxt = (next_parser cfg (int i) ^^ k) (int i)" using assms by (auto simp: gens_inv_def)
  then have n: "next_parser cfg (int i) nxt = (next_parser cfg (int i) ^^ Suc k) (int i)" by simp
  obtain l where "g_config g = (next_config ^^ l) cfg" using assms by (auto simp: gens_inv_def)
  then have "\<exists>l. next_config (g_config g) = (next_config ^^ l) cfg" by (intro exI [of _ "Suc l"]) simp
  with n assms show ?thesis unfolding gens_inv_def by (auto simp: nth_list_update counted_def simp del: funpow.simps)
qed

text \<open>What a generator needs for its pass: a packet in its pool and room at the parser whose turn it is.\<close>

definition can_send :: "nat \<Rightarrow> system \<Rightarrow> bool" where
  "can_send i s \<longleftrightarrow> intel_list LG2_CAPACITY (packet_pools (sys_world s) i) \<noteq> []
     \<and> Packet_Generator.has_room 1 (pqueue (sys_prs s ! nat (snd (sys_gens s ! i))))"

text \<open>What it then has done.\<close>

definition sent_one :: "sim_config \<Rightarrow> nat \<Rightarrow> system \<Rightarrow> system \<Rightarrow> bool" where
  "sent_one cfg i s s' \<longleftrightarrow> sys_ms s' = sys_ms s
     \<and> intel_list LG2_CAPACITY (packet_pools (sys_world s') i) = tl (intel_list LG2_CAPACITY (packet_pools (sys_world s) i))
     \<and> snd (sys_gens s' ! i) = next_parser cfg (int i) (snd (sys_gens s ! i))
     \<and> (\<forall>r<pnum cfg. length (queue_list (sys_prs s' ! r))
          = length (queue_list (sys_prs s ! r)) + (if int r = snd (sys_gens s ! i) then 1 else 0))"

lemma sender_facts:
  assumes C: "sys_config cfg str" and S: "sys_inv cfg str n s" and i: "i < gnum cfg" and g: "sys_gens s ! i = (g, nxt)"
  shows "g_pool g = i" "g_index g = int i" "next_parser (g_config g) = next_parser cfg"
    "nxt < int (length (sys_prs s))" "intel_inv LG2_CAPACITY (packet_pools (sys_world s) i)"
    "intel_inv LG2_CAPACITY (pqueue (sys_prs s ! nat nxt))"
    "p \<in> set (intel_list LG2_CAPACITY (packet_pools (sys_world s) i)) \<Longrightarrow> g_ready g p"
    "p \<in> set (intel_list LG2_CAPACITY (packet_pools (sys_world s) i)) \<Longrightarrow> tcp_shape (data (packets (sys_world s) p))"
    "p \<in> set (intel_list LG2_CAPACITY (packet_pools (sys_world s) i)) \<Longrightarrow> 56 \<le> length (data (packets (sys_world s) p))"
proof -
  have I: "gens_inv cfg (sys_gens s)" "packets_inv cfg str (sys_world s)" "queues_inv cfg n (sys_prs s)"
    "pools_inv cfg (sys_prs s) (sys_ms s) (sys_world s)" using S by (simp_all add: sys_inv_def)
  have G: "\<forall>p\<in>set (own i). g_ready g p" using I(1) i by (auto simp: gens_inv_def g)
  have c: "54 \<le> pktlen cfg" using C by (auto simp: sys_config_def tcp_ready_def)
  note nx = gens_turn [OF C I(1) i g]
  show "g_pool g = i" "g_index g = int i" "next_parser (g_config g) = next_parser cfg"
    using I(1) i by (auto simp: gens_inv_def g)
  show "nxt < int (length (sys_prs s))" "intel_inv LG2_CAPACITY (pqueue (sys_prs s ! nat nxt))"
    "intel_inv LG2_CAPACITY (packet_pools (sys_world s) i)" using nx I(3,4) i by (simp_all add: queues_inv_def pools_inv_def)
  assume "p \<in> set (intel_list LG2_CAPACITY (packet_pools (sys_world s) i))"
  then have "p div 1024 = i" by (rule pool_member(1) [OF I(4) i])
  then show "g_ready g p" "tcp_shape (data (packets (sys_world s) p))" "56 \<le> length (data (packets (sys_world s) p))"
    using G I(2) i c by (auto simp: packets_inv_def made_def)
qed

lemma send_pass:
  assumes C: "sys_config cfg str" and S: "sys_inv cfg str n s" and "has_thread (Send i) s"
  shows "if can_send i s then \<exists>s'. sys_act cfg (Send i) s = Ret s' \<and> sys_inv cfg str n s' \<and> sent_one cfg i s s'
    else sys_act cfg (Send i) s = Spin"
proof -
  obtain g nxt where g: "sys_gens s ! i = (g, nxt)" by (cases "sys_gens s ! i")
  let ?w = "sys_world s" and ?prs = "sys_prs s"
  have I: "gens_inv cfg (sys_gens s)" "packets_inv cfg str ?w" "queues_inv cfg n ?prs" "pools_inv cfg ?prs (sys_ms s) ?w"
    "flows_inv cfg n (sys_ms s) ?w" "managers_inv cfg (sys_ms s) ?w" using S by (simp_all add: sys_inv_def)
  have i: "i < gnum cfg" using assms(3) I(1) by (simp add: gens_inv_def)
  have d: "1 < pipe_depth cfg" using C by (simp add: sys_config_def)
  note G = sender_facts [OF C S i g] and nx = gens_turn [OF C I(1) i g]
  obtain l where l: "g_config g = (next_config ^^ l) cfg" using I(1) i by (auto simp: gens_inv_def g)
  show ?thesis
  proof (cases "intel_list LG2_CAPACITY (packet_pools ?w i)")
    case Nil
    then show ?thesis using generator_starved [of ?w g] G(1) by (simp add: g can_send_def)
  next
    case (Cons p free)
    then have p: "g_ready g p" "tcp_shape (data (packets ?w p))" "56 \<le> length (data (packets ?w p))" using G(7-9) [of p] by simp_all
    note P = G(5) [folded G(1)] and Cons' = Cons [folded G(1)]
    show ?thesis
    proof (cases "Packet_Generator.has_room 1 (pqueue (?prs ! nat nxt))")
      case False
      from generator_blocked [OF d P Cons' p nx(1) G(4,6) False] False show ?thesis by (simp add: g can_send_def)
    next
      case True
      from generator_pass_ok [where sent = "sys_sent s", OF d P Cons' p nx(1) G(4) True, unfolded G(1-3)] obtain d q r where R:
        "generator_pass cfg (g, nxt, ?w, ?prs, sys_sent s) = Ret (counted (next_config (g_config g)) g, next_parser cfg (int i) nxt,
           set_packet p ((packets ?w p)\<lparr>data := d\<rparr>) (set_pool i q ?w),
           ?prs[nat nxt := (?prs ! nat nxt)\<lparr>pqueue := r\<rparr>], sys_sent s + word_of_int (pktlen (g_config g)))"
        "renewed (g_config g) (data (packets ?w p)) d" "intel_inv LG2_CAPACITY q" "intel_list LG2_CAPACITY q = free"
        "intel_inv LG2_CAPACITY r" "intel_list LG2_CAPACITY r = queue_list (?prs ! nat nxt) @ [p]"
        "dequeue_count r = dequeue_count (pqueue (?prs ! nat nxt))" by blast
      obtain s' where s': "s' = s\<lparr>sys_gens := (sys_gens s)[i := (counted (next_config (g_config g)) g, next_parser cfg (int i) nxt)],
        sys_world := set_packet p ((packets ?w p)\<lparr>data := d\<rparr>) (set_pool i q ?w), sys_prs := ?prs[nat nxt := (?prs ! nat nxt)\<lparr>pqueue := r\<rparr>],
        sys_sent := sys_sent s + word_of_int (pktlen (g_config g))\<rparr>" by blast
      have "int k = nxt \<longleftrightarrow> k = nat nxt" for k using nx(1) by linarith
      then have "sent_one cfg i s s'" using assms(3) Cons R(4,6) G(4) nx(1)
        by (auto simp: s' sent_one_def g nth_list_update set_packet_def set_pool_def nat_less_iff simp del: length_intel_list)
      moreover have "sys_inv cfg str n s'"
        using sent_keeps [OF I(2-6) i Cons R(2) [unfolded l] R(3,4) nx(3,4), of "(?prs ! nat nxt)\<lparr>pqueue := r\<rparr>"] gens_keep [OF I(1) i g] R(5-7) S
        by (simp add: s' sys_inv_def)
      moreover have "sys_act cfg (Send i) s = Ret s'" by (simp add: g R(1) s')
      ultimately show ?thesis using True Cons by (auto simp: g can_send_def)
    qed
  qed
qed

section \<open>A pass of a parser\<close>

text \<open>Parser \<open>r\<close> has taken the packets \<open>ps\<close>, decoded them into the flows \<open>fs\<close> of its pool, and queued these at the
  managers: \<open>t\<close> gives the manager of a flow.\<close>

definition batch_moved :: "nat \<Rightarrow> (nat \<Rightarrow> nat) \<Rightarrow> nat list \<Rightarrow> nat list \<Rightarrow> manager list \<times> world \<Rightarrow> manager list \<times> world \<Rightarrow> bool" where
  "batch_moved r t ps fs = (\<lambda>(ms, w) (ms', w').
     packets w' = packets w \<and> packet_pools w' = packet_pools w \<and> (\<forall>k. k \<noteq> r \<longrightarrow> flow_pools w' k = flow_pools w k)
     \<and> (\<forall>f. f \<notin> set fs \<longrightarrow> flows w' f = flows w f)
     \<and> intel_inv LG2_CAPACITY (flow_pools w' r)
     \<and> intel_list LG2_CAPACITY (flow_pools w r) = fs @ intel_list LG2_CAPACITY (flow_pools w' r)
     \<and> unat (dequeue_count (flow_pools w' r)) = unat (dequeue_count (flow_pools w r)) + COUNT
     \<and> list_all2 (decodes w') fs ps \<and> (\<forall>f\<in>set fs. fpool (flows w' f) = r \<and> t f < length ms)
     \<and> length ms' = length ms
     \<and> (\<forall>j<length ms. \<exists>q. ms' ! j = (ms ! j)\<lparr>mqueue := q\<rparr> \<and> intel_inv LG2_CAPACITY q
          \<and> intel_list LG2_CAPACITY q = mq (ms ! j) @ filter (\<lambda>f. t f = j) fs))"

lemma batch_movedD:
  assumes "batch_moved r t ps fs (ms, w) (ms', w')"
  shows "packets w' = packets w" "packet_pools w' = packet_pools w" "k \<noteq> r \<Longrightarrow> flow_pools w' k = flow_pools w k"
    "f \<notin> set fs \<Longrightarrow> flows w' f = flows w f" "intel_inv LG2_CAPACITY (flow_pools w' r)"
    "intel_list LG2_CAPACITY (flow_pools w r) = fs @ intel_list LG2_CAPACITY (flow_pools w' r)"
    "unat (dequeue_count (flow_pools w' r)) = unat (dequeue_count (flow_pools w r)) + COUNT"
    "list_all2 (decodes w') fs ps" "f \<in> set fs \<Longrightarrow> fpool (flows w' f) = r" "\<forall>f\<in>set fs. t f < length ms"
    "length ms' = length ms" "\<forall>j<length ms. mq (ms' ! j) = mq (ms ! j) @ filter (\<lambda>f. t f = j) fs"
    "j < length ms \<Longrightarrow> \<exists>q. ms' ! j = (ms ! j)\<lparr>mqueue := q\<rparr> \<and> intel_inv LG2_CAPACITY q"
  using assms unfolding batch_moved_def by (simp, simp, simp, simp, simp, simp, simp, simp, simp, simp, simp, fastforce, fastforce)

text \<open>The flows that waited already are not touched.\<close>

lemma batch_moved_frame:
  assumes "flows_inv cfg n ms w" "r < pnum cfg" "batch_moved r t ps fs (ms, w) (ms', w')" "m \<in> set ms" "f \<in> set (mq m)"
  shows "flows w' f = flows w f"
proof -
  note B = batch_movedD [OF assms(3)]
  have "f \<notin> set fs" using flow_member(2) [OF assms(1,2) _ assms(4)] B(6) assms(5) by auto
  then show ?thesis by (rule B(4))
qed

lemma batch_moved_sums:
  assumes I: "packets_inv cfg str w" "flows_inv cfg n ms w" and r: "r < pnum cfg"
    and M: "batch_moved r t ps fs (ms, w) (ms', w')" and ps: "\<forall>p\<in>set ps. p div 1024 < gnum cfg"
  shows "packet_stock (ms', w') i = packet_stock (ms, w) i + mset (filter (\<lambda>p. p div 1024 = i) ps)"
    and "flow_stock (ms', w') = flow_stock (ms, w)"
proof -
  note B = batch_movedD [OF M]
  have same: "flows w' f = flows w f" "home w' f = home w f" if "m \<in> set ms" "f \<in> set (mq m)" for m f
    using batch_moved_frame [OF I(2) r M that] B(1) by (simp_all add: home_def)
  have w: "waiting_packets w' k m = waiting_packets w k m" "waiting_flows w' k m = waiting_flows w k m" if "m \<in> set ms" for m k
    unfolding waiting_packets_def waiting_flows_def using same [OF that]
    by (auto intro!: arg_cong [where f = mset] map_cong filter_cong simp del: mset_map mset_filter)
  then have old: "(\<Sum>m\<leftarrow>ms. waiting_packets w' k m) = (\<Sum>m\<leftarrow>ms. waiting_packets w k m)"
    "(\<Sum>m\<leftarrow>ms. waiting_flows w' k m) = (\<Sum>m\<leftarrow>ms. waiting_flows w k m)" for k by (simp_all cong: map_cong)
  have "filter (\<lambda>p. ppool (packets w' p) = i) ps = filter (\<lambda>p. p div 1024 = i) ps"
    using I(1) ps B(1) by (auto simp: packets_inv_def intro!: filter_cong)
  then have "(\<Sum>m\<leftarrow>ms'. waiting_packets w' i m) = (\<Sum>m\<leftarrow>ms. waiting_packets w i m) + mset (filter (\<lambda>p. p div 1024 = i) ps)"
    unfolding old(1) [symmetric] unfolding waiting_packets_def sum_list_spread [OF refl B(11,10,12)] decoded_packets [OF B(8)]
    by (simp only:)
  then show "packet_stock (ms', w') i = packet_stock (ms, w) i + mset (filter (\<lambda>p. p div 1024 = i) ps)"
    by (simp add: packet_stock_def B(2))
  have "flow_stock (ms', w') k = flow_stock (ms, w) k" for k
  proof -
    have "filter (\<lambda>f. fpool (flows w' f) = k) fs = (if k = r then fs else [])" using B(9) by (auto simp: filter_id_conv filter_empty_conv)
    then have "(\<Sum>m\<leftarrow>ms'. waiting_flows w' k m) = (\<Sum>m\<leftarrow>ms. waiting_flows w k m) + mset (if k = r then fs else [])"
      unfolding old(2) [symmetric] unfolding waiting_flows_def
      using sum_list_spread [OF refl B(11,10,12), of "\<lambda>f. f" "\<lambda>f. fpool (flows w' f) = k"] by simp
    then show ?thesis using B(3,6) by (cases "k = r") (simp_all add: flow_stock_def)
  qed
  then show "flow_stock (ms', w') = flow_stock (ms, w)" by (rule ext)
qed

lemma queued_take:
  assumes "r < length prs" "queue_list (prs ! r) = ps @ queue_list pr"
  shows "queued prs i = queued (prs[r := pr]) i + mset (filter (\<lambda>p. p div 1024 = i) ps)"
proof -
  let ?g = "\<lambda>pr. mset (filter (\<lambda>p. p div 1024 = i) (queue_list pr))"
  have "?g (prs ! r) = ?g pr + mset (filter (\<lambda>p. p div 1024 = i) ps)" by (simp add: assms(2))
  then show ?thesis using sum_list_put [OF assms(1), of ?g pr] by (simp add: queued_def ac_simps)
qed

lemma batch_queues:
  assumes I: "queues_inv cfg n prs" and r: "r < pnum cfg"
    and pr: "intel_inv LG2_CAPACITY (pqueue pr)" "queue_list (prs ! r) = ps @ queue_list pr"
      "unat (dequeue_count (pqueue pr)) = unat (dequeue_count (pqueue (prs ! r))) + COUNT"
  shows "queues_inv cfg (Suc n) (prs[r := pr])"
  unfolding queues_inv_def
proof (intro conjI allI impI)
  show len: "length (prs[r := pr]) = pnum cfg" using I by (simp add: queues_inv_def)
  fix k assume k: "k < pnum cfg"
  then have "intel_inv LG2_CAPACITY (pqueue (prs ! k))" "unat (dequeue_count (pqueue (prs ! k))) \<le> COUNT * n"
    "\<forall>p\<in>set (queue_list (prs ! k)). p div 1024 = k mod gnum cfg" using I by (simp_all add: queues_inv_def)
  then show "intel_inv LG2_CAPACITY (pqueue (prs[r := pr] ! k))"
    "unat (dequeue_count (pqueue (prs[r := pr] ! k))) \<le> COUNT * Suc n"
    "\<forall>p\<in>set (queue_list (prs[r := pr] ! k)). p div 1024 = k mod gnum cfg"
    using pr r k len by (auto simp: nth_list_update)
qed

lemma batch_flows:
  assumes I: "flows_inv cfg n ms w" and r: "r < pnum cfg"
    and M: "batch_moved r t ps fs (ms, w) (ms', w')" and st: "flow_stock (ms', w') = flow_stock (ms, w)"
  shows "flows_inv cfg (Suc n) ms' w'"
  unfolding flows_inv_def st
proof (intro conjI allI impI)
  note B = batch_movedD [OF M]
  show "fpool (flows w' f) = f div 1024" if "f div 1024 < pnum cfg" for f
    using B(4) [of f] B(9) [of f] I that flow_member(1) [OF I r, of f] B(6)
    by (cases "f \<in> set fs") (auto simp: flows_inv_def)
  fix k assume "k < pnum cfg"
  then have "intel_inv LG2_CAPACITY (flow_pools w k)" "unat (dequeue_count (flow_pools w k)) \<le> COUNT * n"
    "flow_stock (ms, w) k = mset (own k)" using I by (simp_all add: flows_inv_def)
  then show "intel_inv LG2_CAPACITY (flow_pools w' k)" "unat (dequeue_count (flow_pools w' k)) \<le> COUNT * Suc n"
    "flow_stock (ms, w) k = mset (own k)" using B(3,5,7) by (cases "k = r"; simp)+
qed

lemma batch_managers:
  assumes I: "flows_inv cfg n ms w" "managers_inv cfg ms w" and r: "r < pnum cfg"
    and M: "batch_moved r t ps fs (ms, w) (ms', w')" and ps: "\<forall>p\<in>set ps. p div 1024 < gnum cfg"
  shows "managers_inv cfg ms' w'"
proof -
  note B = batch_movedD [OF M]
  have new: "waits_well cfg w' f" if f: "f \<in> set fs" for f
  proof -
    obtain p where "p \<in> set ps" "decodes w' f p" using B(8) f list_all2_in_left by metis
    moreover have "f div 1024 = r" using flow_member(1) [OF I(1) r, of f] B(6) f by simp
    ultimately show ?thesis using ps r by (auto simp: waits_well_def decodes_def)
  qed
  have old: "waits_well cfg w' f" if m: "m \<in> set ms" and f: "f \<in> set (mq m)" for m f
    using I(2) m f batch_moved_frame [OF I(1) r M m f] decodes_cong [of w' f w] B(1) by (auto simp: managers_inv_def waits_well_def)
  have "(\<exists>chs. table_inv cfg chs (ms' ! j)) \<and> intel_inv LG2_CAPACITY (mqueue (ms' ! j)) \<and> (\<forall>f\<in>set (mq (ms' ! j)). waits_well cfg w' f)"
    if j: "j < length ms" for j
  proof -
    obtain q where "ms' ! j = (ms ! j)\<lparr>mqueue := q\<rparr>" "intel_inv LG2_CAPACITY q" using B(13) [OF j] by blast
    moreover have "\<exists>chs. table_inv cfg chs (ms ! j)" using I(2) nth_mem [OF j] by (simp add: managers_inv_def)
    moreover have "mq (ms' ! j) = mq (ms ! j) @ filter (\<lambda>f. t f = j) fs" using B(12) j by simp
    ultimately show ?thesis using new old [OF nth_mem [OF j]] by auto
  qed
  then show ?thesis using B(11) by (simp add: managers_inv_def all_set_conv_all_nth)
qed

lemma batch_keeps:
  assumes I: "packets_inv cfg str w" "queues_inv cfg n prs" "pools_inv cfg prs ms w" "flows_inv cfg n ms w" "managers_inv cfg ms w"
    and r: "r < pnum cfg" "0 < gnum cfg" and M: "batch_moved r t ps fs (ms, w) (ms', w')"
    and pr: "intel_inv LG2_CAPACITY (pqueue pr)" "queue_list (prs ! r) = ps @ queue_list pr"
      "unat (dequeue_count (pqueue pr)) = unat (dequeue_count (pqueue (prs ! r))) + COUNT"
  shows "packets_inv cfg str w' \<and> queues_inv cfg (Suc n) (prs[r := pr]) \<and> pools_inv cfg (prs[r := pr]) ms' w'
    \<and> flows_inv cfg (Suc n) ms' w' \<and> managers_inv cfg ms' w'"
proof -
  note B = batch_movedD [OF M]
  have len: "length prs = pnum cfg" and q: "\<forall>p\<in>set (queue_list (prs ! r)). p div 1024 = r mod gnum cfg"
    using I(2) r(1) by (simp_all add: queues_inv_def)
  have ps: "\<forall>p\<in>set ps. p div 1024 < gnum cfg" using q r(2) pr(2) by auto
  note S = batch_moved_sums [OF I(1,4) r(1) M ps] and Q = queued_take [OF r(1) [folded len] pr(2)]
  have "packets_inv cfg str w'" using I(1) by (simp add: packets_inv_def B(1))
  moreover have "pools_inv cfg (prs[r := pr]) ms' w'" using I(3) Q by (simp add: pools_inv_def S(1) B(2) ac_simps)
  ultimately show ?thesis
    using batch_queues [OF I(2) r(1) pr] batch_flows [OF I(4) r(1) M S(2)] batch_managers [OF I(4,5) r(1) M ps] by blast
qed

text \<open>What a parser needs for its pass: 64 packets and 64 flows. It then completes the pass as soon as every
  manager has room for the flows that are meant for it.\<close>

definition can_parse :: "nat \<Rightarrow> system \<Rightarrow> bool" where
  "can_parse r s \<longleftrightarrow> has_batch (pqueue (sys_prs s ! r)) \<and> has_batch (flow_pools (sys_world s) r)"

lemma parse_counts:
  assumes "sys_inv cfg str n s" "r < pnum cfg" "n < 2 ^ 26 - 1"
  shows "intel_inv LG2_CAPACITY (pqueue (sys_prs s ! r))" "unat (dequeue_count (pqueue (sys_prs s ! r))) + COUNT < 2 ^ 32"
    "intel_inv LG2_CAPACITY (flow_pools (sys_world s) r)" "unat (dequeue_count (flow_pools (sys_world s) r)) + COUNT < 2 ^ 32"
proof -
  have b: "COUNT * n + COUNT < 2 ^ 32" using assms(3) by (simp add: COUNT_def)
  have "unat (dequeue_count (pqueue (sys_prs s ! r))) \<le> COUNT * n" "unat (dequeue_count (flow_pools (sys_world s) r)) \<le> COUNT * n"
    using assms(1,2) by (simp_all add: sys_inv_def queues_inv_def flows_inv_def)
  then show "unat (dequeue_count (pqueue (sys_prs s ! r))) + COUNT < 2 ^ 32"
    "unat (dequeue_count (flow_pools (sys_world s) r)) + COUNT < 2 ^ 32" using b by linarith+
  show "intel_inv LG2_CAPACITY (pqueue (sys_prs s ! r))" "intel_inv LG2_CAPACITY (flow_pools (sys_world s) r)"
    using assms(1,2) by (simp_all add: sys_inv_def queues_inv_def flows_inv_def)
qed

lemma parse_waits:
  assumes "sys_config cfg str" "sys_inv cfg str n s" "has_thread (Parse r) s" "n < 2 ^ 26 - 1" "\<not> can_parse r s"
  shows "sys_act cfg (Parse r) s = Spin"
proof -
  have "r < pnum cfg" using assms(2,3) by (simp add: sys_inv_def queues_inv_def)
  note B = parse_counts [OF assms(2) this assms(4)]
  have d: "2 < pipe_depth cfg" using assms(1) by (simp add: sys_config_def)
  show ?thesis
  proof (cases "has_batch (pqueue (sys_prs s ! r))")
    case False
    from no_batch [OF B(1,2) False] show ?thesis by (simp add: parser_pass_def Let_def)
  next
    case True
    then obtain q where q: "intel_dequeue_multiple LG2_CAPACITY (pqueue (sys_prs s ! r)) (of_nat COUNT)
      = Some (take COUNT (queue_list (sys_prs s ! r)), q)" using take_batch by metis
    have "\<not> has_batch (flow_pools (sys_world s) r)" using True assms(5) by (simp add: can_parse_def)
    from no_batch [OF B(3,4) this] q d show ?thesis by (simp add: parser_pass_def Let_def)
  qed
qed

lemma parse_decodes:
  assumes C: "sys_config cfg str" and S: "sys_inv cfg str n s" and r: "r < pnum cfg" and b: "can_parse r s"
  defines "ps \<equiv> batch_of (pqueue (sys_prs s ! r))" and "fs \<equiv> batch_of (flow_pools (sys_world s) r)"
  shows "\<exists>q1 w2. parser_pass cfg r (sys_prs s ! r, sys_world s, sys_ms s, sys_view s)
      = run_bind (dispatch fs w2 (sys_ms s) (sys_view s)) (\<lambda>(ms', view').
          Ret ((sys_prs s ! r)\<lparr>p_alive := p_alive (sys_prs s ! r) + 1, pqueue := q1\<rparr>, w2, ms', view'))
    \<and> intel_inv LG2_CAPACITY q1 \<and> queue_list (sys_prs s ! r) = ps @ intel_list LG2_CAPACITY q1
    \<and> unat (dequeue_count q1) = unat (dequeue_count (pqueue (sys_prs s ! r))) + COUNT
    \<and> packets w2 = packets (sys_world s) \<and> packet_pools w2 = packet_pools (sys_world s)
    \<and> (\<forall>k. k \<noteq> r \<longrightarrow> flow_pools w2 k = flow_pools (sys_world s) k) \<and> (\<forall>f. f \<notin> set fs \<longrightarrow> flows w2 f = flows (sys_world s) f)
    \<and> intel_inv LG2_CAPACITY (flow_pools w2 r)
    \<and> intel_list LG2_CAPACITY (flow_pools (sys_world s) r) = fs @ intel_list LG2_CAPACITY (flow_pools w2 r)
    \<and> unat (dequeue_count (flow_pools w2 r)) = unat (dequeue_count (flow_pools (sys_world s) r)) + COUNT
    \<and> list_all2 (decodes w2) fs ps \<and> (\<forall>f\<in>set fs. fpool (flows w2 f) = r)"
proof -
  let ?w = "sys_world s" and ?pr = "sys_prs s ! r"
  have I: "packets_inv cfg str ?w" "queues_inv cfg n (sys_prs s)" "flows_inv cfg n (sys_ms s) ?w" using S by (simp_all add: sys_inv_def)
  have c: "54 \<le> pktlen cfg" "pktlen cfg + 2 < 2 ^ 32" "nat (pktlen cfg) - 54 \<le> nat (manager_buffer_size cfg)" "3 < pipe_depth cfg"
    "0 < gnum cfg" using C by (simp_all add: sys_config_def tcp_ready_def)
  have sub: "set ps \<subseteq> set (queue_list ?pr)" "set fs \<subseteq> set (intel_list LG2_CAPACITY (flow_pools ?w r))"
    by (auto simp: ps_def fs_def batch_of_def dest: in_set_takeD)
  have sound: "sound_packet cfg (packets ?w p)" if p: "p \<in> set ps" for p
  proof -
    have "p div 1024 = r mod gnum cfg" using I(2) r sub(1) p by (auto simp: queues_inv_def)
    then have "made cfg str (packets ?w p)" using I(1) c(5) by (simp add: packets_inv_def)
    from made_sound [OF this c(1-3)] show ?thesis by blast
  qed
  then have "\<forall>p\<in>set (take COUNT (queue_list ?pr)). headers_inside (data (packets ?w p))"
    unfolding ps_def batch_of_def by (simp add: sound_packet_def)
  with parser_pass_decodes [OF c(4) _ _ flow_member(3) [OF I(3) r], of ?pr "sys_ms s" "sys_view s"] b
  obtain q1 q2 w2 where P: "parser_pass cfg r (?pr, ?w, sys_ms s, sys_view s)
      = run_bind (dispatch fs w2 (sys_ms s) (sys_view s)) (\<lambda>(ms', view'). Ret (?pr\<lparr>p_alive := p_alive ?pr + 1, pqueue := q1\<rparr>, w2, ms', view'))"
    "intel_inv LG2_CAPACITY q1" "intel_list LG2_CAPACITY q1 = drop COUNT (queue_list ?pr)"
    "unat (dequeue_count q1) = unat (dequeue_count (pqueue ?pr)) + COUNT"
    "intel_inv LG2_CAPACITY q2" "intel_list LG2_CAPACITY q2 = drop COUNT (intel_list LG2_CAPACITY (flow_pools ?w r))"
    "unat (dequeue_count q2) = unat (dequeue_count (flow_pools ?w r)) + COUNT"
    "packets w2 = packets ?w" "packet_pools w2 = packet_pools ?w" "flow_pools w2 = (flow_pools ?w)(r := q2)"
    "\<forall>k<COUNT. make_flow_item_tcp (ps ! k) (packets ?w (ps ! k)) (flows ?w (fs ! k)) = Ret (flows w2 (fs ! k))"
    "\<forall>f. f \<notin> set fs \<longrightarrow> flows w2 f = flows ?w f"
    unfolding can_parse_def ps_def fs_def batch_of_def by blast
  have len: "length ps = COUNT" "length fs = COUNT"
    using b by (simp_all add: ps_def fs_def batch_of_def can_parse_def has_batch_def del: length_intel_list)
  have D: "decodes w2 (fs ! k) (ps ! k) \<and> fpool (flows w2 (fs ! k)) = r" if k: "k < COUNT" for k
  proof -
    have m: "ps ! k \<in> set ps" "fs ! k \<in> set fs" using k len by simp_all
    then have "(fs ! k) div 1024 = r" using flow_member(1) [OF I(3) r] sub(2) by auto
    then have "fpool (flows ?w (fs ! k)) = r" using I(3) r by (simp add: flows_inv_def)
    with make_flow_decodes [OF sound [OF m(1)] P(11) [rule_format, OF k] P(8)] show ?thesis by simp
  qed
  have "list_all2 (decodes w2) fs ps" using D len by (simp add: list_all2_conv_all_nth)
  moreover have "\<forall>f\<in>set fs. fpool (flows w2 f) = r" using D len by (metis in_set_conv_nth)
  moreover have "queue_list ?pr = ps @ intel_list LG2_CAPACITY q1"
    "intel_list LG2_CAPACITY (flow_pools ?w r) = fs @ intel_list LG2_CAPACITY q2"
    unfolding P(3,6) ps_def fs_def batch_of_def by simp_all
  ultimately show ?thesis using P(1,2,4,5,7-10,12) by (intro exI [of _ q1] exI [of _ w2] conjI) simp_all
qed

text \<open>Handing over succeeds, or some manager has no room for a whole batch.\<close>

lemma dispatch_cases:
  assumes "ms \<noteq> []" "length ms \<le> length view" "length view < 2 ^ 32" "\<forall>j<length ms. intel_inv LG2_CAPACITY (mqueue (ms ! j))"
    and "length fs \<le> COUNT"
  shows "dispatch fs w ms view = Spin \<and> (\<exists>m\<in>set ms. 2 ^ LG2_CAPACITY < length (mq m) + COUNT)
    \<or> (\<exists>ms' view'. dispatch fs w ms view = Ret (ms', view') \<and> length ms' = length ms \<and> length view' = length view
        \<and> (\<forall>j<length ms. \<exists>q. ms' ! j = (ms ! j)\<lparr>mqueue := q\<rparr> \<and> intel_inv LG2_CAPACITY q
            \<and> intel_list LG2_CAPACITY q = mq (ms ! j) @ filter (\<lambda>f. target w (length ms) f = j) fs))"
proof (cases "\<exists>j<length ms. 2 ^ LG2_CAPACITY < length (mq (ms ! j)) + length (filter (\<lambda>f. target w (length ms) f = j) fs)")
  case True
  then obtain j where j: "j < length ms"
    "2 ^ LG2_CAPACITY < length (mq (ms ! j)) + length (filter (\<lambda>f. target w (length ms) f = j) fs)" by blast
  have "length (filter (\<lambda>f. target w (length ms) f = j) fs) \<le> COUNT" by (rule order_trans [OF length_filter_le assms(5)])
  then have "2 ^ LG2_CAPACITY < length (mq (ms ! j)) + COUNT" using j(2) by linarith
  with dispatch_waits [OF assms(2-4) j] nth_mem [OF j(1)] show ?thesis by blast
next
  case False
  then have "\<forall>j<length ms. intel_inv LG2_CAPACITY (mqueue (ms ! j))
    \<and> length (mq (ms ! j)) + length (filter (\<lambda>f. target w (length ms) f = j) fs) \<le> 2 ^ LG2_CAPACITY"
    using assms(4) by (meson not_le)
  from dispatch_result [OF assms(1-3) this] show ?thesis by blast
qed

lemma parse_pass:
  assumes C: "sys_config cfg str" and S: "sys_inv cfg str n s" and "has_thread (Parse r) s" and b: "can_parse r s"
  shows "sys_act cfg (Parse r) s = Spin \<and> (\<exists>m\<in>set (sys_ms s). 2 ^ LG2_CAPACITY < length (mq m) + COUNT)
    \<or> (\<exists>s'. sys_act cfg (Parse r) s = Ret s' \<and> sys_inv cfg str (Suc n) s')"
proof -
  let ?w = "sys_world s" and ?pr = "sys_prs s ! r" and ?ms = "sys_ms s"
  let ?ps = "batch_of (pqueue ?pr)" and ?fs = "batch_of (flow_pools ?w r)"
  have I: "packets_inv cfg str ?w" "queues_inv cfg n (sys_prs s)" "pools_inv cfg (sys_prs s) ?ms ?w" "flows_inv cfg n ?ms ?w"
    "managers_inv cfg ?ms ?w" and v: "?ms \<noteq> []" "length ?ms \<le> length (sys_view s)" "length (sys_view s) = 36"
    using S by (simp_all add: sys_inv_def)
  then have v32: "length (sys_view s) < 2 ^ 32" "length ?ms < 2 ^ 32" by simp_all
  have r: "r < pnum cfg" "0 < gnum cfg" using assms(3) I(2) C by (simp_all add: queues_inv_def sys_config_def)
  have mi: "\<forall>j<length ?ms. intel_inv LG2_CAPACITY (mqueue (?ms ! j))" using I(5) by (simp add: managers_inv_def all_set_conv_all_nth)
  from parse_decodes [OF C S r(1) b] obtain q1 w2 where P: "parser_pass cfg r (?pr, ?w, ?ms, sys_view s)
      = run_bind (dispatch ?fs w2 ?ms (sys_view s)) (\<lambda>(ms', view'). Ret (?pr\<lparr>p_alive := p_alive ?pr + 1, pqueue := q1\<rparr>, w2, ms', view'))"
    "intel_inv LG2_CAPACITY q1" "queue_list ?pr = ?ps @ intel_list LG2_CAPACITY q1"
    "unat (dequeue_count q1) = unat (dequeue_count (pqueue ?pr)) + COUNT"
    and W: "packets w2 = packets ?w \<and> packet_pools w2 = packet_pools ?w \<and> (\<forall>k. k \<noteq> r \<longrightarrow> flow_pools w2 k = flow_pools ?w k)
      \<and> (\<forall>f. f \<notin> set ?fs \<longrightarrow> flows w2 f = flows ?w f) \<and> intel_inv LG2_CAPACITY (flow_pools w2 r)
      \<and> intel_list LG2_CAPACITY (flow_pools ?w r) = ?fs @ intel_list LG2_CAPACITY (flow_pools w2 r)
      \<and> unat (dequeue_count (flow_pools w2 r)) = unat (dequeue_count (flow_pools ?w r)) + COUNT
      \<and> list_all2 (decodes w2) ?fs ?ps \<and> (\<forall>f\<in>set ?fs. fpool (flows w2 f) = r)" by blast
  let ?t = "target w2 (length ?ms)"
  have "length ?fs \<le> COUNT" by (simp add: batch_of_def)
  from dispatch_cases [OF v(1,2) v32(1) mi this, of w2] show ?thesis
  proof (elim disjE exE conjE)
    fix ms' view'
    assume D: "dispatch ?fs w2 ?ms (sys_view s) = Ret (ms', view')" "length ms' = length ?ms" "length view' = length (sys_view s)"
      "\<forall>j<length ?ms. \<exists>q. ms' ! j = (?ms ! j)\<lparr>mqueue := q\<rparr> \<and> intel_inv LG2_CAPACITY q
         \<and> intel_list LG2_CAPACITY q = mq (?ms ! j) @ filter (\<lambda>f. ?t f = j) ?fs"
    have "\<forall>f\<in>set ?fs. ?t f < length ?ms" using v(1) v32(2) by (intro ballI target_less) auto
    then have M: "batch_moved r ?t ?ps ?fs (?ms, ?w) (ms', w2)" using W D(2,4) by (simp add: batch_moved_def)
    let ?pr' = "?pr\<lparr>p_alive := p_alive ?pr + 1, pqueue := q1\<rparr>"
    let ?s = "s\<lparr>sys_prs := (sys_prs s)[r := ?pr'], sys_world := w2, sys_ms := ms', sys_view := view'\<rparr>"
    have "ms' \<noteq> []" using v(1) D(2) by auto
    then have "sys_inv cfg str (Suc n) ?s"
      using batch_keeps [OF I r M, of ?pr'] P(2-4) D(2,3) S by (simp add: sys_inv_def del: length_intel_list)
    moreover have "sys_act cfg (Parse r) s = Ret ?s" by (simp add: P(1) D(1) del: length_intel_list)
    ultimately show ?thesis by blast
  qed (simp add: P(1) del: length_intel_list)
qed

section \<open>The start establishes it\<close>

text \<open>A generator that has filled its pool.\<close>

definition filled :: "sim_config \<Rightarrow> u8 list \<Rightarrow> world \<Rightarrow> nat \<Rightarrow> generator \<times> int \<Rightarrow> bool" where
  "filled cfg str w i = (\<lambda>(g, nxt). g_pool g = i \<and> g_index g = int i \<and> nxt = int i
     \<and> next_parser (g_config g) = next_parser cfg \<and> (\<forall>p\<in>set (own i). g_ready g p)
     \<and> (\<exists>k. g_config g = (next_config ^^ k) cfg)
     \<and> intel_inv LG2_CAPACITY (packet_pools w i) \<and> intel_list LG2_CAPACITY (packet_pools w i) = own i
     \<and> (\<forall>p\<in>set (own i). ppool (packets w p) = i \<and> made cfg str (packets w p) \<and> drawn cfg (packets w p)))"

lemma start_generator:
  assumes "tcp_ready cfg str" "generator_fresh cfg w i g"
  shows "\<exists>g' w'. make_all_packet generator_tcp_packet (g, w) = Ret (g', w') \<and> filled cfg str w' i (g', g_index g')
    \<and> (\<forall>p. p div 1024 \<noteq> i \<longrightarrow> packets w' p = packets w p) \<and> (\<forall>k. k \<noteq> i \<longrightarrow> packet_pools w' k = packet_pools w k)
    \<and> flows w' = flows w \<and> flow_pools w' = flow_pools w"
proof -
  have G: "g_config g = cfg" "g_index g = int i" "g_pool g = i" "intel_inv LG2_CAPACITY (packet_pools w (g_pool g))"
    "pool_list g w = own i" "\<forall>p\<in>set (own i). length (data (packets w p)) = nat (pktlen (g_config g)) + 2"
    using assms(2) unfolding generator_fresh_def own_def by auto
  have r: "tcp_ready (g_config g) str" using assms(1) G(1) by simp
  from make_all_packet_stocks [OF r G(4,5) own_simps(2,1) G(6)] obtain g' w' where R:
    "make_all_packet generator_tcp_packet (g, w) = Ret (g', w')"
    "g' = g\<lparr>g_ready := \<lambda>p. g_ready g p \<or> p \<in> set (own i), g_config := config_at g (2 ^ LG2_CAPACITY)\<rparr>"
    "pool_list g' w' = own i" "stocked g' w'" "\<forall>k<length (own i). built g str k (packets w' (own i ! k))"
    "\<forall>p. p \<notin> set (own i) \<longrightarrow> packets w' p = packets w p" "\<forall>k. k \<noteq> g_pool g \<longrightarrow> packet_pools w' k = packet_pools w k"
    "flows w' = flows w" "flow_pools w' = flow_pools w" by blast
  have "ppool (packets w' p) = i \<and> made cfg str (packets w' p) \<and> drawn cfg (packets w' p)" if p: "p \<in> set (own i)" for p
  proof -
    obtain k where "k < length (own i)" "p = own i ! k" using p by (metis in_set_conv_nth)
    then have "built g str k (packets w' p)" using R(5) by blast
    moreover have "generated ((next_config ^^ k) cfg) str (data (packets w' p))" using calculation G(1) by (simp add: built_def config_at_def)
    then have "drawn cfg (packets w' p)" unfolding drawn_def using generated_key by blast
    ultimately show ?thesis using G(1,3) by (simp add: built_def made_def generated_def)
  qed
  moreover have t: "\<exists>k. config_at g (2 ^ LG2_CAPACITY) = (next_config ^^ k) (g_config g)" by (auto simp: config_at_def)
  moreover have "intel_inv LG2_CAPACITY (packet_pools w' i)" using R(4) G(3) by (simp add: stocked_def R(2))
  ultimately have "filled cfg str w' i (g', g_index g')" using G(1-3) R(3) t by (auto simp: filled_def R(2))
  with R(1,6-9) G(3) show ?thesis by (intro exI [of _ g'] exI [of _ w'] conjI) simp_all
qed

lemma filled_frame:
  assumes "filled cfg str w i gn" "\<forall>p. p div 1024 = i \<longrightarrow> packets w' p = packets w p" "packet_pools w' i = packet_pools w i"
  shows "filled cfg str w' i gn"
  using assms by (cases gn) (simp add: filled_def)

lemma start_generators_ok:
  assumes "tcp_ready cfg str" "\<forall>i<length gs. generator_fresh cfg w (i0 + i) (gs ! i)"
  shows "\<exists>gens w'. start_generators generator_tcp_packet gs w = Ret (gens, w') \<and> length gens = length gs
    \<and> (\<forall>i<length gs. filled cfg str w' (i0 + i) (gens ! i))
    \<and> (\<forall>p. p div 1024 < i0 \<longrightarrow> packets w' p = packets w p) \<and> (\<forall>k<i0. packet_pools w' k = packet_pools w k)
    \<and> flows w' = flows w \<and> flow_pools w' = flow_pools w"
  using assms(2)
proof (induction gs arbitrary: w i0)
  case (Cons g gs)
  have "generator_fresh cfg w i0 g" using Cons.prems by force
  from start_generator [OF assms(1) this] obtain g' w1 where R: "make_all_packet generator_tcp_packet (g, w) = Ret (g', w1)"
    "filled cfg str w1 i0 (g', g_index g')" "\<forall>p. p div 1024 \<noteq> i0 \<longrightarrow> packets w1 p = packets w p"
    "\<forall>k. k \<noteq> i0 \<longrightarrow> packet_pools w1 k = packet_pools w k" "flows w1 = flows w" "flow_pools w1 = flow_pools w" by blast
  have "generator_fresh cfg w1 (Suc i0 + i) (gs ! i)" if "i < length gs" for i
  proof -
    have "generator_fresh cfg w (Suc i0 + i) (gs ! i)" using Cons.prems that by force
    moreover have "packets w1 p = packets w p" if "p \<in> set (own (Suc i0 + i))" for p using that R(3) by simp
    moreover have "packet_pools w1 (Suc i0 + i) = packet_pools w (Suc i0 + i)" using R(4) by simp
    ultimately show ?thesis unfolding generator_fresh_def own_def by metis
  qed
  then have "\<forall>i<length gs. generator_fresh cfg w1 (Suc i0 + i) (gs ! i)" by blast
  from Cons.IH [OF this] obtain gens w' where S: "start_generators generator_tcp_packet gs w1 = Ret (gens, w')"
    "length gens = length gs" "\<forall>i<length gs. filled cfg str w' (Suc i0 + i) (gens ! i)"
    "\<forall>p. p div 1024 < Suc i0 \<longrightarrow> packets w' p = packets w1 p" "\<forall>k<Suc i0. packet_pools w' k = packet_pools w1 k"
    "flows w' = flows w1" "flow_pools w' = flow_pools w1" by blast
  have "filled cfg str w' i0 (g', g_index g')" by (rule filled_frame [OF R(2)]) (use S(4,5) in simp_all)
  then have "filled cfg str w' (i0 + i) (((g', g_index g') # gens) ! i)" if "i < length (g # gs)" for i
    using S(3) that by (cases i) auto
  then show ?case using R(1,3-6) S(1,2,4-7) by (intro exI [of _ "(g', g_index g') # gens"] exI [of _ w']) simp
qed simp

text \<open>All packets and flows at home, all queues and tables empty.\<close>

definition sys_fresh :: "sim_config \<Rightarrow> system \<Rightarrow> bool" where
  "sys_fresh cfg s \<longleftrightarrow>
     (\<forall>i<gnum cfg. snd (sys_gens s ! i) = int i \<and> intel_list LG2_CAPACITY (packet_pools (sys_world s) i) = own i)
     \<and> (\<forall>r<pnum cfg. queue_list (sys_prs s ! r) = [] \<and> intel_list LG2_CAPACITY (flow_pools (sys_world s) r) = own r)
     \<and> (\<forall>m\<in>set (sys_ms s). mq m = [] \<and> session_of m = (\<lambda>_. None))"

lemma idle_sums:
  assumes "\<forall>m\<in>set ms. mq m = []"
  shows "packet_stock (ms, w) i = mset (intel_list LG2_CAPACITY (packet_pools w i))"
    "flow_stock (ms, w) i = mset (intel_list LG2_CAPACITY (flow_pools w i))"
proof -
  have "(\<Sum>m\<leftarrow>ms. waiting_packets w i m) = {#}" "(\<Sum>m\<leftarrow>ms. waiting_flows w i m) = {#}"
    using assms by (auto simp: waiting_packets_def waiting_flows_def cong: map_cong)
  then show "packet_stock (ms, w) i = mset (intel_list LG2_CAPACITY (packet_pools w i))"
    "flow_stock (ms, w) i = mset (intel_list LG2_CAPACITY (flow_pools w i))" by (simp_all add: packet_stock_def flow_stock_def)
qed

lemma parser_fresh_own:
  assumes "parser_fresh w i pr"
  shows "intel_list LG2_CAPACITY (flow_pools w i) = own i" "f div 1024 = i \<Longrightarrow> fpool (flows w f) = i"
proof -
  show "intel_list LG2_CAPACITY (flow_pools w i) = own i" using assms unfolding parser_fresh_def own_def by blast
  assume "f div 1024 = i"
  then have "f = 1024 * i + f mod 1024" "f mod 1024 < 1024" by auto
  with assms show "fpool (flows w f) = i" unfolding parser_fresh_def by metis
qed

lemma fresh_invs:
  assumes g: "length gens = gnum cfg" "\<And>i. i < gnum cfg \<Longrightarrow> filled cfg str w i (gens ! i)"
    and p: "length prs = pnum cfg" "\<And>r. r < pnum cfg \<Longrightarrow> parser_fresh w r (prs ! r)"
    and m: "ms \<noteq> []" "length ms \<le> 36" "\<And>i. i < length ms \<Longrightarrow> manager_fresh cfg i (ms ! i)"
  defines "s \<equiv> \<lparr>sys_gens = gens, sys_prs = prs, sys_ms = ms, sys_world = w, sys_sent = 0, sys_view = replicate 36 0\<rparr>"
  shows "sys_inv cfg str 0 s \<and> sys_fresh cfg s"
proof -
  have g': "g_pool (fst (gens ! i)) = i" "g_index (fst (gens ! i)) = int i" "snd (gens ! i) = int i"
    "next_parser (g_config (fst (gens ! i))) = next_parser cfg" "\<forall>p\<in>set (own i). g_ready (fst (gens ! i)) p"
    "intel_inv LG2_CAPACITY (packet_pools w i)" "intel_list LG2_CAPACITY (packet_pools w i) = own i"
    "\<And>p. p div 1024 = i \<Longrightarrow> ppool (packets w p) = i \<and> made cfg str (packets w p) \<and> drawn cfg (packets w p)"
    "\<exists>k. g_config (fst (gens ! i)) = (next_config ^^ k) cfg"
    if "i < gnum cfg" for i using g(2) [OF that] by (auto simp: filled_def split: prod.splits)
  have m': "\<exists>chs. table_inv cfg chs m" "session_of m = (\<lambda>_. None)" "intel_inv LG2_CAPACITY (mqueue m)" "mq m = []"
    if "m \<in> set ms" for m using m(3) that unfolding manager_fresh_def by (metis in_set_conv_nth)+
  have p': "intel_inv LG2_CAPACITY (pqueue (prs ! r))" "queue_list (prs ! r) = []" "intel_inv LG2_CAPACITY (flow_pools w r)"
    "dequeue_count (pqueue (prs ! r)) = 0" "dequeue_count (flow_pools w r) = 0"
    if "r < pnum cfg" for r using p(2) [OF that] by (simp_all add: parser_fresh_def)
  note po = parser_fresh_own [OF p(2)] and S = idle_sums [of ms w]
  have "queue_list pr = []" if "pr \<in> set prs" for pr using that p(1) p'(2) by (metis in_set_conv_nth)
  then have "queued prs i = {#}" for i by (simp add: queued_def cong: map_cong)
  then have "pools_inv cfg prs ms w" using g'(6,7) S(1) m'(4) by (simp add: pools_inv_def)
  moreover have "gens_inv cfg gens"
    unfolding gens_inv_def using g(1) g'(1,2,4,5,9) g'(3) by (auto intro: exI [of _ 0])
  moreover have "packets_inv cfg str w" using g'(8) by (auto simp: packets_inv_def)
  moreover have "queues_inv cfg 0 prs" using p(1) p'(1,2,4) by (simp add: queues_inv_def)
  moreover have "flows_inv cfg 0 ms w" using p'(3,5) po S(2) m'(4) by (simp add: flows_inv_def)
  moreover have "managers_inv cfg ms w" using m' by (simp add: managers_inv_def)
  ultimately show ?thesis
    unfolding sys_inv_def sys_fresh_def s_def using m g'(3,7) p'(2) po(1) m'(2,4) by simp
qed

lemma boot_inv:
  assumes "sys_config cfg str" "sizes_fit fr cfg"
  shows "\<exists>s. boot fr inac_open cfg w = Ret s \<and> sys_inv cfg str 0 s \<and> sys_fresh cfg s"
proof -
  have C: "generator_nums cfg \<le> parser_nums cfg" "packet_generator_mode cfg \<noteq> 0 \<or> fst inac_open = 0" "tcp_ready cfg str"
    "cfg_protocol cfg = 6" "0 < manager_nums cfg" "manager_nums cfg \<le> 36" "0 \<le> generator_nums cfg" "0 \<le> manager_nums cfg"
    using assms(1) by (simp_all add: sys_config_def)
  from main_start_runs [OF assms(2) C(7,1,8,2), of w] obtain gs prs ms w1 where M: "main_start fr inac_open cfg w = Ret (gs, prs, ms, w1)"
    "length gs = gnum cfg" "\<forall>i<length gs. generator_fresh cfg w1 i (gs ! i)"
    "length prs = pnum cfg" "\<forall>i<length prs. parser_fresh w1 i (prs ! i)"
    "length ms = nat (manager_nums cfg)" "\<forall>i<length ms. manager_fresh cfg i (ms ! i)" by blast
  have "\<forall>i<length gs. generator_fresh cfg w1 (0 + i) (gs ! i)" using M(3) by simp
  from start_generators_ok [OF C(3) this] obtain gens w2 where G: "start_generators generator_tcp_packet gs w1 = Ret (gens, w2)"
    "length gens = length gs" "\<forall>i<length gs. filled cfg str w2 i (gens ! i)" "flows w2 = flows w1" "flow_pools w2 = flow_pools w1" by auto
  have "parser_fresh w2 i (prs ! i)" if "i < pnum cfg" for i using M(4,5) G(4,5) that by (simp add: parser_fresh_def)
  moreover have "ms \<noteq> []" "length ms \<le> 36" using M(6) C(5,6) by auto
  moreover have "length gens = gnum cfg" "\<And>i. i < gnum cfg \<Longrightarrow> filled cfg str w2 i (gens ! i)" using G(2,3) M(2) by simp_all
  ultimately have "sys_inv cfg str 0 \<lparr>sys_gens = gens, sys_prs = prs, sys_ms = ms, sys_world = w2, sys_sent = 0, sys_view = replicate 36 0\<rparr>
      \<and> sys_fresh cfg \<lparr>sys_gens = gens, sys_prs = prs, sys_ms = ms, sys_world = w2, sys_sent = 0, sys_view = replicate 36 0\<rparr>"
    using M(4,7) by (intro fresh_invs) auto
  moreover have "boot fr inac_open cfg w = Ret \<lparr>sys_gens = gens, sys_prs = prs, sys_ms = ms, sys_world = w2, sys_sent = 0,
      sys_view = replicate 36 0\<rparr>" using C(4) by (simp add: boot_def M(1) handler_of_def G(1))
  ultimately show ?thesis by blast
qed

section \<open>Reachable states\<close>

lemma act_keeps:
  assumes "sys_config cfg str" "sys_inv cfg str n s" "has_thread a s" "n + parses a < 2 ^ 26"
  shows "sys_act cfg a s = Spin \<or> (\<exists>s'. sys_act cfg a s = Ret s' \<and> sys_inv cfg str (n + parses a) s')"
proof (cases a)
  case (Send i)
  then show ?thesis using send_pass [OF assms(1,2), of i] assms(3) by (auto simp: parses_def split: if_splits)
next
  case (Parse r)
  then have "n < 2 ^ 26 - 1" "has_thread (Parse r) s" using assms(3,4) by (simp_all add: parses_def)
  then show ?thesis
    using parse_pass [OF assms(1,2)] parse_waits [OF assms(1,2)] by (cases "can_parse r s") (auto simp: Parse parses_def)
next
  case (File j now)
  then show ?thesis using file_pass [OF assms(1,2), of j now] assms(3) by (simp add: parses_def split: if_splits)
next
  case (Clean j b now)
  then show ?thesis using clean_pass [OF assms(2), of j b now] assms(3) by (auto simp: parses_def)
qed

lemma runs_inv:
  assumes "runs cfg s0 n s" "sys_config cfg str" "sys_inv cfg str k s0" "k + n < 2 ^ 26"
  shows "sys_inv cfg str (k + n) s"
  using assms(1,4)
proof (induction rule: runs.induct)
  case runs_start
  then show ?case using assms(3) by simp
next
  case (runs_step n s1 a s2)
  then have "sys_inv cfg str (k + n) s1" by simp
  from act_keeps [OF assms(2) this runs_step.hyps(2)] runs_step.hyps(3) runs_step.prems show ?case by (auto simp: add.assoc)
qed

lemma runs_trans: "runs cfg s1 m s2 \<Longrightarrow> runs cfg s0 n s1 \<Longrightarrow> runs cfg s0 (n + m) s2"
proof (induction rule: runs.induct)
  case (runs_step m s2 a s3)
  then show ?case using runs.runs_step [of cfg s0 "n + m" s2 a s3] by (simp add: add.assoc)
qed simp

section \<open>Progress\<close>

text \<open>A generator serves every \<open>generator_nums\<close>-th parser: at most \<open>k\<close> of them when there are at most \<open>k\<close> times as
  many parsers as generators.\<close>

lemma served_bound:
  assumes "0 < g" "p \<le> k * g"
  shows "card {r. r < p \<and> r mod g = i} \<le> (k::nat)"
proof -
  have "inj_on (\<lambda>r. r div g) {r. r < p \<and> r mod g = i}"
    by (rule inj_onI) (metis (mono_tags) div_mult_mod_eq mem_Collect_eq)
  moreover have "(\<lambda>r. r div g) ` {r. r < p \<and> r mod g = i} \<subseteq> {..<k}"
    using assms by (auto simp: less_mult_imp_div_less)
  ultimately have "card {r. r < p \<and> r mod g = i} \<le> card {..<k}" by (metis card_image card_mono finite_lessThan)
  then show ?thesis by simp
qed

lemma queued_size:
  assumes "queues_inv cfg n prs" "\<And>r. r < pnum cfg \<Longrightarrow> length (queue_list (prs ! r)) \<le> b"
  shows "size (queued prs i) \<le> b * card {r. r < pnum cfg \<and> r mod gnum cfg = i}"
proof -
  have len: "length prs = pnum cfg" using assms(1) by (simp add: queues_inv_def)
  have "size (queued prs i) = (\<Sum>pr\<leftarrow>prs. length (filter (\<lambda>p. p div 1024 = i) (queue_list pr)))"
    unfolding queued_def by (induction prs) (simp_all flip: size_mset)
  also have "\<dots> = (\<Sum>r<pnum cfg. length (filter (\<lambda>p. p div 1024 = i) (queue_list (prs ! r))))"
    by (simp add: sum_list_sum_nth len atLeast0LessThan)
  also have "\<dots> \<le> (\<Sum>r<pnum cfg. if r mod gnum cfg = i then b else 0)"
  proof (rule sum_mono)
    fix r assume "r \<in> {..<pnum cfg}"
    then have r: "r < pnum cfg" by simp
    have "\<forall>p\<in>set (queue_list (prs ! r)). p div 1024 = r mod gnum cfg" using assms(1) r by (simp add: queues_inv_def)
    then have "filter (\<lambda>p. p div 1024 = i) (queue_list (prs ! r)) = (if r mod gnum cfg = i then queue_list (prs ! r) else [])"
      by (auto simp: filter_id_conv filter_empty_conv)
    then show "length (filter (\<lambda>p. p div 1024 = i) (queue_list (prs ! r))) \<le> (if r mod gnum cfg = i then b else 0)"
      using assms(2) [OF r] by (simp del: length_intel_list)
  qed
  also have "\<dots> = b * card {r. r < pnum cfg \<and> r mod gnum cfg = i}"
    by (simp add: sum.If_cases mult.commute) (simp add: Int_def lessThan_def conj_commute)
  finally show ?thesis .
qed

text \<open>When the managers are idle and no parser has a full batch, every generator still has a packet.\<close>

lemma send_ready:
  assumes C: "sys_config cfg str" and S: "sys_inv cfg str n s" and i: "i < gnum cfg"
    and few: "parser_nums cfg \<le> 16 * generator_nums cfg" and m: "\<forall>m\<in>set (sys_ms s). mq m = []"
    and q: "\<And>r. r < pnum cfg \<Longrightarrow> length (queue_list (sys_prs s ! r)) < COUNT"
  shows "can_send i s"
proof -
  have I: "gens_inv cfg (sys_gens s)" "queues_inv cfg n (sys_prs s)" "pools_inv cfg (sys_prs s) (sys_ms s) (sys_world s)"
    using S by (simp_all add: sys_inv_def)
  obtain g nxt where g: "sys_gens s ! i = (g, nxt)" by (cases "sys_gens s ! i")
  note nx = gens_turn [OF C I(1) i g]
  have c: "0 < gnum cfg" "pnum cfg \<le> 16 * gnum cfg" using C few by (auto simp: sys_config_def)
  have "size (queued (sys_prs s) i) \<le> 63 * card {r. r < pnum cfg \<and> r mod gnum cfg = i}"
    by (rule queued_size [OF I(2)]) (use q in \<open>fastforce simp: COUNT_def simp del: length_intel_list\<close>)
  then have "size (queued (sys_prs s) i) \<le> 63 * 16" using served_bound [OF c, of i] by linarith
  moreover have "mset (intel_list LG2_CAPACITY (packet_pools (sys_world s) i)) + queued (sys_prs s) i = mset (own i)"
    using I(3) i idle_sums(1) [OF m] by (simp add: pools_inv_def)
  then have "length (intel_list LG2_CAPACITY (packet_pools (sys_world s) i)) + size (queued (sys_prs s) i) = length (own i)"
    by (metis size_mset size_union)
  then have "length (intel_list LG2_CAPACITY (packet_pools (sys_world s) i)) + size (queued (sys_prs s) i) = 1024"
    by (simp add: own_def)
  ultimately have "intel_list LG2_CAPACITY (packet_pools (sys_world s) i) \<noteq> []" by (auto simp del: length_intel_list)
  moreover have "Packet_Generator.has_room 1 (pqueue (sys_prs s ! nat nxt))"
    using q [OF nx(3)] I(2) nx(3) unfolding Packet_Generator.has_room_def queues_inv_def
    by (simp add: COUNT_def LG2_CAPACITY_def del: length_intel_list)
  ultimately show ?thesis by (simp add: can_send_def g)
qed

lemma parse_ready:
  assumes S: "sys_inv cfg str n s" "n < 2 ^ 26 - 1" and r: "r < pnum cfg"
    and m: "\<forall>m\<in>set (sys_ms s). mq m = []" and q: "COUNT \<le> length (queue_list (sys_prs s ! r))"
  shows "can_parse r s"
proof -
  have "mset (intel_list LG2_CAPACITY (flow_pools (sys_world s) r)) = mset (own r)"
    using S(1) r idle_sums(2) [OF m] by (simp add: sys_inv_def flows_inv_def)
  then have "length (intel_list LG2_CAPACITY (flow_pools (sys_world s) r)) = 1024" by (metis size_mset own_def diff_add_inverse length_upt)
  then show ?thesis
    using parse_counts [OF S(1) r S(2)] q unfolding can_parse_def has_batch_def by (simp add: COUNT_def del: length_intel_list)
qed

lemma some_pass:
  assumes C: "sys_config cfg str" and S: "sys_inv cfg str n s" and n: "n < 2 ^ 26 - 1"
    and few: "parser_nums cfg \<le> 16 * generator_nums cfg"
    and free: "\<forall>m\<in>set (sys_ms s). intel_list MANAGER_POOL (session_pool m) \<noteq> []"
  shows "\<exists>a s'. has_thread a s \<and> (\<forall>j b now. a \<noteq> Clean j b now) \<and> sys_act cfg a s = Ret s'"
proof (cases "\<exists>j<length (sys_ms s). mq (sys_ms s ! j) \<noteq> []")
  case True
  then obtain j where j: "j < length (sys_ms s)" "mq (sys_ms s ! j) \<noteq> []" by blast
  have "can_file j s" unfolding can_file_def using j(2) free nth_mem [OF j(1)] by (cases "mq (sys_ms s ! j)") auto
  with file_pass [OF C S, of j 0] j(1) show ?thesis by (intro exI [of _ "File j 0"]) auto
next
  case False
  then have m: "\<forall>m\<in>set (sys_ms s). mq m = []" by (auto simp: in_set_conv_nth)
  have l: "length (sys_prs s) = pnum cfg" "length (sys_gens s) = gnum cfg" "0 < gnum cfg"
    using S C by (simp_all add: sys_inv_def queues_inv_def gens_inv_def sys_config_def)
  show ?thesis
  proof (cases "\<exists>r<pnum cfg. COUNT \<le> length (queue_list (sys_prs s ! r))")
    case True
    then obtain r where r: "r < pnum cfg" "COUNT \<le> length (queue_list (sys_prs s ! r))" by blast
    have t: "has_thread (Parse r) s" using r(1) l(1) by simp
    have "length (mq m) + COUNT \<le> 2 ^ LG2_CAPACITY" if "m \<in> set (sys_ms s)" for m
      using m that by (simp add: COUNT_def LG2_CAPACITY_def del: length_intel_list)
    with parse_pass [OF C S t parse_ready [OF S n r(1) m r(2)]] obtain s' where "sys_act cfg (Parse r) s = Ret s'" by force
    with t show ?thesis by (intro exI [of _ "Parse r"]) auto
  next
    case False
    then have "can_send 0 s" using send_ready [OF C S l(3) few m] by (meson not_le)
    with send_pass [OF C S, of 0] l show ?thesis by (intro exI [of _ "Send 0"]) auto
  qed
qed

section \<open>Too many parsers\<close>

text \<open>No packet left in the pools, less than a batch at every parser, nothing at the managers.\<close>

definition starved :: "sim_config \<Rightarrow> system \<Rightarrow> bool" where
  "starved cfg s \<longleftrightarrow> (\<forall>i<gnum cfg. intel_list LG2_CAPACITY (packet_pools (sys_world s) i) = [])
     \<and> (\<forall>r<pnum cfg. length (queue_list (sys_prs s ! r)) < COUNT) \<and> (\<forall>m\<in>set (sys_ms s). mq m = [])"

lemma starved_waits:
  assumes C: "sys_config cfg str" and S: "sys_inv cfg str n s" and n: "n < 2 ^ 26 - 1" and st: "starved cfg s" and a: "has_thread a s"
  shows "(\<exists>j b now. a = Clean j b now) \<or> sys_act cfg a s = Spin"
proof (cases a)
  case (Send i)
  have "i < gnum cfg" using S a Send by (simp add: sys_inv_def gens_inv_def)
  then have "\<not> can_send i s" using st by (simp add: starved_def can_send_def)
  then show ?thesis using send_pass [OF C S, of i] a Send by simp
next
  case (Parse r)
  have "r < pnum cfg" using S a Parse by (simp add: sys_inv_def queues_inv_def)
  then have "\<not> can_parse r s" using st by (auto simp: starved_def can_parse_def has_batch_def simp del: length_intel_list)
  then show ?thesis using parse_waits [OF C S _ n, of r] a Parse by simp
next
  case (File j now)
  then have "\<not> can_file j s" using st a by (simp add: starved_def can_file_def)
  then show ?thesis using file_pass [OF C S, of j now] a File by simp
qed simp

lemma starved_runs:
  assumes C: "sys_config cfg str" and S: "sys_inv cfg str 0 s" "starved cfg s" and R: "runs cfg s n s'"
  shows "n = 0 \<and> sys_inv cfg str 0 s' \<and> starved cfg s'"
  using R
proof (induction rule: runs.induct)
  case (runs_step n s1 a s2)
  then have I: "n = 0" "sys_inv cfg str 0 s1" "starved cfg s1" by simp_all
  have "\<exists>j b now. a = Clean j b now" using starved_waits [OF C I(2) _ I(3) runs_step.hyps(2)] runs_step.hyps(3) by auto
  then obtain j b now where a: "a = Clean j b now" by blast
  from clean_pass [OF I(2) runs_step.hyps(2) [unfolded a]] obtain m' where m': "s2 = s1\<lparr>sys_ms := (sys_ms s1)[j := m']\<rparr>"
    "mqueue m' = mqueue (sys_ms s1 ! j)" "sys_inv cfg str 0 s2" using runs_step.hyps(3) a by auto
  have "j < length (sys_ms s1)" using runs_step.hyps(2) a by simp
  then have "mq m' = []" using I(3) m'(2) by (simp add: starved_def)
  then have "starved cfg s2" using I(3) m'(1) by (auto simp: starved_def dest!: set_update_subset_insert [THEN subsetD])
  with I(1) m'(3) show ?case by (simp add: a parses_def)
qed (use S in simp)

lemma card_turns: "card {j. j < Suc k \<and> j mod p = r} = card {j. j < k \<and> j mod p = r} + (if k mod p = r then 1 else 0)"
proof -
  have "{j. j < Suc k \<and> j mod p = r} = {j. j < k \<and> j mod p = r} \<union> (if k mod p = r then {k} else {})" by (auto simp: less_Suc_eq)
  then show ?thesis by simp
qed

lemma next_parser_single:
  assumes "generator_nums cfg = 1" "0 < pnum cfg"
  shows "next_parser cfg 0 (int (k mod pnum cfg)) = int (Suc k mod pnum cfg)"
proof -
  have "k mod pnum cfg < pnum cfg" using assms(2) by simp
  moreover have "parser_nums cfg = int (pnum cfg)" using assms(2) by simp
  ultimately show ?thesis using assms(1) unfolding next_parser_def mod_Suc by auto
qed

text \<open>A single generator that sends \<open>k\<close> packets while nobody else runs.\<close>

lemma single_sends:
  assumes C: "sys_config cfg str" and one: "generator_nums cfg = 1" and S: "sys_inv cfg str 0 s0" "sys_fresh cfg s0"
  shows "k \<le> 1024 \<Longrightarrow> \<exists>s. runs cfg s0 0 s \<and> sys_inv cfg str 0 s \<and> (\<forall>m\<in>set (sys_ms s). mq m = [])
    \<and> intel_list LG2_CAPACITY (packet_pools (sys_world s) 0) = drop k (own 0) \<and> snd (sys_gens s ! 0) = int (k mod pnum cfg)
    \<and> (\<forall>r<pnum cfg. length (queue_list (sys_prs s ! r)) = card {j. j < k \<and> j mod pnum cfg = r})"
proof (induction k)
  case 0
  show ?case using S one by (intro exI [of _ s0]) (auto simp: sys_fresh_def intro: runs_start)
next
  case (Suc k)
  have P: "0 < pnum cfg" using C by (auto simp: sys_config_def)
  from Suc obtain s where s: "runs cfg s0 0 s" "sys_inv cfg str 0 s" "\<forall>m\<in>set (sys_ms s). mq m = []"
    "intel_list LG2_CAPACITY (packet_pools (sys_world s) 0) = drop k (own 0)" "snd (sys_gens s ! 0) = int (k mod pnum cfg)"
    "\<forall>r<pnum cfg. length (queue_list (sys_prs s ! r)) = card {j. j < k \<and> j mod pnum cfg = r}" by auto
  have t: "has_thread (Send 0) s" using s(2) one by (simp add: sys_inv_def gens_inv_def)
  have l: "length (own 0) = 1024" by (simp add: own_def)
  have "k mod pnum cfg < pnum cfg" using P by simp
  then have "intel_inv LG2_CAPACITY (pqueue (sys_prs s ! (k mod pnum cfg)))"
    "length (queue_list (sys_prs s ! (k mod pnum cfg))) = card {j. j < k \<and> j mod pnum cfg = k mod pnum cfg}"
    using s(2,6) by (simp_all add: sys_inv_def queues_inv_def del: length_intel_list)
  moreover have "card {j. j < k \<and> j mod pnum cfg = k mod pnum cfg} \<le> card {..<k}" by (intro card_mono) auto
  ultimately have "Packet_Generator.has_room 1 (pqueue (sys_prs s ! (k mod pnum cfg)))"
    using Suc.prems unfolding Packet_Generator.has_room_def by (simp add: LG2_CAPACITY_def del: length_intel_list)
  moreover have "drop k (own 0) \<noteq> []" using Suc.prems l by simp
  ultimately have "can_send 0 s" using s(4,5) by (simp add: can_send_def)
  with send_pass [OF C s(2) t] obtain s' where R: "sys_act cfg (Send 0) s = Ret s'" "sys_inv cfg str 0 s'" "sent_one cfg 0 s s'" by auto
  have "runs cfg s0 0 s'" using runs_step [OF s(1) t R(1)] by (simp add: parses_def)
  moreover have "length (queue_list (sys_prs s' ! r)) = card {j. j < Suc k \<and> j mod pnum cfg = r}" if "r < pnum cfg" for r
    using R(3) s(5,6) that unfolding card_turns sent_one_def by (auto simp del: length_intel_list)
  moreover have "snd (sys_gens s' ! 0) = int (Suc k mod pnum cfg)"
    using R(3) s(5) next_parser_single [OF one P] by (simp add: sent_one_def)
  moreover have "intel_list LG2_CAPACITY (packet_pools (sys_world s') 0) = drop (Suc k) (own 0)" "\<forall>m\<in>set (sys_ms s'). mq m = []"
    using R(3) s(3,4) by (simp_all add: sent_one_def drop_Suc tl_drop)
  ultimately show ?case using R(2) by blast
qed

lemma single_starves:
  assumes C: "sys_config cfg str" and one: "generator_nums cfg = 1" "17 \<le> parser_nums cfg" and S: "sys_inv cfg str 0 s0" "sys_fresh cfg s0"
  shows "\<exists>s. runs cfg s0 0 s \<and> sys_inv cfg str 0 s \<and> starved cfg s"
proof -
  obtain s where s: "runs cfg s0 0 s" "sys_inv cfg str 0 s" "\<forall>m\<in>set (sys_ms s). mq m = []"
    "intel_list LG2_CAPACITY (packet_pools (sys_world s) 0) = drop 1024 (own 0)"
    "\<forall>r<pnum cfg. length (queue_list (sys_prs s ! r)) = card {j. j < 1024 \<and> j mod pnum cfg = r}"
    using single_sends [OF C one(1) S, of 1024] by auto
  have p: "17 \<le> pnum cfg" using one(2) by linarith
  have "card {j. j < 1024 \<and> j mod pnum cfg = r} \<le> 61" for r
    by (rule served_bound) (use p in linarith)+
  then have "card {j. j < 1024 \<and> j mod pnum cfg = r} < COUNT" for r by (rule order_le_less_trans) (simp add: COUNT_def)
  then have "\<forall>r<pnum cfg. length (queue_list (sys_prs s ! r)) < COUNT" using s(5) by metis
  moreover have "drop 1024 (own 0) = []" by (simp add: own_def)
  ultimately have "starved cfg s" using s(3,4) one(1) by (simp add: starved_def del: length_intel_list)
  with s(1,2) show ?thesis by blast
qed

section \<open>Properties\<close>

text \<open>C1. The running program is safe: from its start, under a configuration that fits, and in every
  interleaving of the passes of generators, parsers, managers and the cleaner, no thread ever leaves a
  buffer or an array, follows a pointer that is not set, divides by zero, or ends the process, up to the
  parser pass at which the 32-bit counters of the queues would wrap. A configuration fits when the buckets of
  a table and the packets of a generator each take fewer than \<open>2 ^ 31\<close> bytes, the payloads fit the session
  buffers, all stages run on TCP packets and the numbers of threads fit each other.\<close>

theorem system_never_faults:
  assumes "sys_config cfg str" "sizes_fit fr cfg"
  shows "\<exists>s0. boot fr inac_open cfg w = Ret s0
    \<and> (\<forall>n s a. runs cfg s0 n s \<and> n < 2 ^ 26 - 1 \<and> has_thread a s \<longrightarrow>
         sys_act cfg a s \<noteq> Fault \<and> (\<forall>status. sys_act cfg a s \<noteq> Exits status))"
proof -
  obtain s0 where s0: "boot fr inac_open cfg w = Ret s0" "sys_inv cfg str 0 s0" using boot_inv [OF assms] by blast
  have "sys_act cfg a s \<noteq> Fault \<and> (\<forall>status. sys_act cfg a s \<noteq> Exits status)"
    if r: "runs cfg s0 n s" "n < 2 ^ 26 - 1" "has_thread a s" for n s a
  proof -
    have "sys_inv cfg str n s" using runs_inv [OF r(1) assms(1) s0(2)] r(2) by simp
    moreover have "n + parses a < 2 ^ 26" using r(2) by (cases a) (simp_all add: parses_def)
    ultimately show ?thesis using act_keeps [OF assms(1) _ r(3)] by fastforce
  qed
  with s0(1) show ?thesis by blast
qed

lemma tcp_cfg_sys:
  assumes "1 \<le> p"
  shows "sys_config (tcp_cfg\<lparr>parser_nums := p\<rparr>) [97, 98, 99]" "sizes_fit demo_fresh (tcp_cfg\<lparr>parser_nums := p\<rparr>)"
    "generator_nums (tcp_cfg\<lparr>parser_nums := p\<rparr>) = 1"
proof -
  show "sys_config (tcp_cfg\<lparr>parser_nums := p\<rparr>) [97, 98, 99]" "generator_nums (tcp_cfg\<lparr>parser_nums := p\<rparr>) = 1"
    using assms by (simp_all add: sys_config_def tcp_ready_def tcp_cfg_def demo_cfg_def)
  have "manager_buffer_size (tcp_cfg\<lparr>parser_nums := p\<rparr>) = manager_buffer_size demo_cfg"
    "manager_hash_length (tcp_cfg\<lparr>parser_nums := p\<rparr>) = manager_hash_length demo_cfg" by (simp_all add: tcp_cfg_def)
  then have "tables_fit demo_fresh (tcp_cfg\<lparr>parser_nums := p\<rparr>)" using demo_fresh_tables unfolding tables_fit_def by metis
  then show "sizes_fit demo_fresh (tcp_cfg\<lparr>parser_nums := p\<rparr>)" using tcp_cfg_fits by (simp add: sizes_fit_def pool_fits_def)
qed

theorem system_never_faults_witness:
  "\<exists>s0. boot demo_fresh (0, 3) (tcp_cfg\<lparr>parser_nums := 2\<rparr>) one_packet_world = Ret s0
     \<and> sys_act (tcp_cfg\<lparr>parser_nums := 2\<rparr>) (Parse 1) s0 \<noteq> Fault"
proof -
  let ?c = "tcp_cfg\<lparr>parser_nums := 2\<rparr>"
  have c: "sys_config ?c [97, 98, 99]" "sizes_fit demo_fresh ?c" using tcp_cfg_sys [of 2] by simp_all
  obtain s0 where s: "boot demo_fresh (0, 3) ?c one_packet_world = Ret s0" "sys_inv ?c [97, 98, 99] 0 s0"
    using boot_inv [OF c] by blast
  have "has_thread (Parse 1) s0" using s(2) by (simp add: sys_inv_def queues_inv_def)
  with system_never_faults [OF c, of "(0, 3)" one_packet_world] s(1) runs_start [of ?c s0]
  show ?thesis by (intro exI [of _ s0]) fastforce
qed

text \<open>C2. Nothing is lost and nothing is duplicated: in every reachable state each of the 1024 packets of every
  pool is in exactly one place (its pool, the queue of a parser, or the queue of a manager together
  with its flow), each of the 1024 flows of a parser is in its pool or in the queue of a manager, a
  parser's queue holds packets of one generator only, and every flow that waits at a manager carries
  the key and exactly the bytes of its packet, which are the configured text.\<close>

theorem system_conserves:
  assumes "sys_config cfg str" "sizes_fit fr cfg"
  shows "\<exists>s0. boot fr inac_open cfg w = Ret s0
    \<and> (\<forall>n s. runs cfg s0 n s \<and> n < 2 ^ 26 \<longrightarrow>
         (\<forall>i<gnum cfg. packet_stock (sys_ms s, sys_world s) i + queued (sys_prs s) i = mset [1024 * i..<1024 * i + 1024])
       \<and> (\<forall>r<pnum cfg. flow_stock (sys_ms s, sys_world s) r = mset [1024 * r..<1024 * r + 1024]
            \<and> (\<forall>p\<in>set (queue_list (sys_prs s ! r)). ppool (packets (sys_world s) p) = r mod gnum cfg))
       \<and> (\<forall>m\<in>set (sys_ms s). \<forall>f\<in>set (mq m). \<exists>p. decodes (sys_world s) f p
            \<and> flow_bytes (sys_world s) (flows (sys_world s) f) = cycle_text str (nat (pktlen cfg) - 54)))"
proof -
  obtain s0 where s0: "boot fr inac_open cfg w = Ret s0" "sys_inv cfg str 0 s0" using boot_inv [OF assms] by blast
  have c: "54 \<le> pktlen cfg" "pktlen cfg + 2 < 2 ^ 32" "nat (pktlen cfg) - 54 \<le> nat (manager_buffer_size cfg)" "0 < gnum cfg"
    using assms(1) by (simp_all add: sys_config_def tcp_ready_def)
  have "(\<forall>i<gnum cfg. packet_stock (sys_ms s, sys_world s) i + queued (sys_prs s) i = mset (own i))
       \<and> (\<forall>r<pnum cfg. flow_stock (sys_ms s, sys_world s) r = mset (own r)
            \<and> (\<forall>p\<in>set (queue_list (sys_prs s ! r)). ppool (packets (sys_world s) p) = r mod gnum cfg))
       \<and> (\<forall>m\<in>set (sys_ms s). \<forall>f\<in>set (mq m). \<exists>p. decodes (sys_world s) f p
            \<and> flow_bytes (sys_world s) (flows (sys_world s) f) = cycle_text str (nat (pktlen cfg) - 54))"
    if r: "runs cfg s0 n s" "n < 2 ^ 26" for n s
  proof -
    have I: "packets_inv cfg str (sys_world s)" "queues_inv cfg n (sys_prs s)" "pools_inv cfg (sys_prs s) (sys_ms s) (sys_world s)"
      "flows_inv cfg n (sys_ms s) (sys_world s)" "managers_inv cfg (sys_ms s) (sys_world s)"
      using runs_inv [OF r(1) assms(1) s0(2)] r(2) by (simp_all add: sys_inv_def)
    have "ppool (packets (sys_world s) p) = k mod gnum cfg" if "k < pnum cfg" "p \<in> set (queue_list (sys_prs s ! k))" for k p
      using I(1,2) that c(4) by (simp add: queues_inv_def packets_inv_def)
    moreover have "\<exists>p. decodes (sys_world s) f p \<and> flow_bytes (sys_world s) (flows (sys_world s) f) = cycle_text str (nat (pktlen cfg) - 54)"
      if "m \<in> set (sys_ms s)" "f \<in> set (mq m)" for m f
    proof -
      let ?p = "fpacket (flows (sys_world s) f)"
      have W: "?p div 1024 < gnum cfg" "decodes (sys_world s) f ?p" using I(5) that by (auto simp: managers_inv_def waits_well_def)
      then have "made cfg str (packets (sys_world s) ?p)" using I(1) by (simp add: packets_inv_def)
      with made_sound [OF _ c(1-3)] W(2) show ?thesis by (auto simp: decodes_def)
    qed
    ultimately show ?thesis using I(3,4) by (simp add: pools_inv_def flows_inv_def)
  qed
  with s0(1) show ?thesis unfolding own_def by blast
qed

lemma demo_first_send:
  assumes "c = tcp_cfg\<lparr>parser_nums := 2\<rparr>"
  shows "\<exists>s0 s1 p. boot demo_fresh (0, 3) c one_packet_world = Ret s0 \<and> sys_act c (Send 0) s0 = Ret s1
    \<and> runs c s0 0 s1 \<and> queue_list (sys_prs s1 ! 0) = [p]"
proof -
  have c: "sys_config c [97, 98, 99]" "sizes_fit demo_fresh c" "generator_nums c = 1" "parser_nums c = 2"
    using tcp_cfg_sys [of 2] assms by simp_all
  obtain s0 where s: "boot demo_fresh (0, 3) c one_packet_world = Ret s0" "sys_inv c [97, 98, 99] 0 s0" "sys_fresh c s0"
    using boot_inv [OF c(1,2)] by blast
  have t: "has_thread (Send 0) s0" using s(2) c(3) by (simp add: sys_inv_def gens_inv_def)
  have "length (queue_list (sys_prs s0 ! r)) < COUNT" if "r < pnum c" for r
    using s(3) that by (simp add: sys_fresh_def COUNT_def del: length_intel_list)
  then have "can_send 0 s0" using send_ready [OF c(1) s(2)] c(3,4) s(3) by (simp add: sys_fresh_def)
  with send_pass [OF c(1) s(2) t] obtain s1 where s1: "sys_act c (Send 0) s0 = Ret s1" "sent_one c 0 s0 s1" by auto
  have "runs c s0 0 s1" using runs_step [OF runs_start t s1(1)] by (simp add: parses_def)
  moreover have "length (queue_list (sys_prs s1 ! 0)) = 1"
    using s1(2) s(3) c(3,4) by (simp add: sent_one_def sys_fresh_def own_def del: length_intel_list)
  then have "\<exists>p. queue_list (sys_prs s1 ! 0) = [p]" by (cases "queue_list (sys_prs s1 ! 0)") (auto simp del: length_intel_list)
  ultimately show ?thesis using s(1) s1(1) by blast
qed

theorem system_conserves_witness:
  "\<exists>s0 s1. boot demo_fresh (0, 3) (tcp_cfg\<lparr>parser_nums := 2\<rparr>) one_packet_world = Ret s0
     \<and> sys_act (tcp_cfg\<lparr>parser_nums := 2\<rparr>) (Send 0) s0 = Ret s1
     \<and> packet_stock (sys_ms s1, sys_world s1) 0 + queued (sys_prs s1) 0 = mset [1024 * 0..<1024 * 0 + 1024]"
proof -
  let ?c = "tcp_cfg\<lparr>parser_nums := 2\<rparr>"
  have c: "sys_config ?c [97, 98, 99]" "sizes_fit demo_fresh ?c" "generator_nums ?c = 1" using tcp_cfg_sys [of 2] by simp_all
  obtain s0 s1 where s: "boot demo_fresh (0, 3) ?c one_packet_world = Ret s0" "sys_act ?c (Send 0) s0 = Ret s1" "runs ?c s0 0 s1"
    using demo_first_send by blast
  have n: "(0::nat) < 2 ^ 26" "0 < gnum ?c" using c(3) by simp_all
  from system_conserves [OF c(1,2), of "(0, 3)" one_packet_world, unfolded s(1) run.inject] s(3) n
  have "packet_stock (sys_ms s1, sys_world s1) 0 + queued (sys_prs s1) 0 = mset [1024 * 0..<1024 * 0 + 1024]" by blast
  with s(1,2) show ?thesis by blast
qed

text \<open>C10. What a parser relies on is what the generators guarantee, in the whole system and for packets that
  have gone around the pipeline any number of times: in every state reachable from the start, by any
  interleaving of the passes, every packet that waits at parser \<open>r\<close> is sound for its batch (its headers lie inside
  its buffer, its text inside its length and a session buffer), belongs to the pool of the one generator that serves
  \<open>r\<close>, has as its session the addresses and ports that the configured ranges give at some turn, and carries
  the configured text, repeated up to the length of the packet.\<close>

theorem parsers_get_sound_packets:
  assumes "sys_config cfg str" "sizes_fit fr cfg"
  shows "\<exists>s0. boot fr inac_open cfg w = Ret s0
    \<and> (\<forall>n s r p. runs cfg s0 n s \<and> n < 2 ^ 26 \<and> r < pnum cfg \<and> p \<in> set (queue_list (sys_prs s ! r)) \<longrightarrow>
         sound_packet cfg (packets (sys_world s) p) \<and> ppool (packets (sys_world s) p) = r mod gnum cfg
       \<and> (\<exists>k. packet_key (packets (sys_world s) p) = drawn_key ((next_config ^^ k) cfg))
       \<and> packet_text (packets (sys_world s) p) = cycle_text str (nat (pktlen cfg) - 54))"
proof -
  obtain s0 where s0: "boot fr inac_open cfg w = Ret s0" "sys_inv cfg str 0 s0" using boot_inv [OF assms] by blast
  have c: "54 \<le> pktlen cfg" "pktlen cfg + 2 < 2 ^ 32" "nat (pktlen cfg) - 54 \<le> nat (manager_buffer_size cfg)" "0 < gnum cfg"
    using assms(1) by (simp_all add: sys_config_def tcp_ready_def)
  have "sound_packet cfg (packets (sys_world s) p) \<and> ppool (packets (sys_world s) p) = r mod gnum cfg
       \<and> (\<exists>k. packet_key (packets (sys_world s) p) = drawn_key ((next_config ^^ k) cfg))
       \<and> packet_text (packets (sys_world s) p) = cycle_text str (nat (pktlen cfg) - 54)"
    if r: "runs cfg s0 n s" "n < 2 ^ 26" "r < pnum cfg" "p \<in> set (queue_list (sys_prs s ! r))" for n s r p
  proof -
    have I: "packets_inv cfg str (sys_world s)" "queues_inv cfg n (sys_prs s)"
      using runs_inv [OF r(1) assms(1) s0(2)] r(2) by (simp_all add: sys_inv_def)
    have p: "p div 1024 = r mod gnum cfg" "r mod gnum cfg < gnum cfg" using I(2) r(3,4) c(4) by (simp_all add: queues_inv_def)
    then have P: "ppool (packets (sys_world s) p) = r mod gnum cfg" "made cfg str (packets (sys_world s) p)" "drawn cfg (packets (sys_world s) p)"
      using I(1) by (simp_all add: packets_inv_def)
    then show ?thesis using made_sound [OF P(2) c(1-3)] by (simp add: drawn_def)
  qed
  with s0(1) show ?thesis by blast
qed

theorem parsers_get_sound_packets_witness:
  "\<exists>s0 s1 p. boot demo_fresh (0, 3) (tcp_cfg\<lparr>parser_nums := 2\<rparr>) one_packet_world = Ret s0
     \<and> runs (tcp_cfg\<lparr>parser_nums := 2\<rparr>) s0 0 s1 \<and> queue_list (sys_prs s1 ! 0) = [p]
     \<and> packet_text (packets (sys_world s1) p) = [97, 98, 99, 97, 98, 99]"
proof -
  let ?c = "tcp_cfg\<lparr>parser_nums := 2\<rparr>"
  have c: "sys_config ?c [97, 98, 99]" "sizes_fit demo_fresh ?c" using tcp_cfg_sys [of 2] by simp_all
  obtain s0 s1 p where s: "boot demo_fresh (0, 3) ?c one_packet_world = Ret s0" "runs ?c s0 0 s1" "queue_list (sys_prs s1 ! 0) = [p]"
    using demo_first_send by blast
  have t: "cycle_text [97, 98, 99] (nat (pktlen ?c) - 54) = [97, 98, 99, 97, 98, 99]"
    by (simp add: tcp_cfg_ready(2) cycle_text_def upt_rec)
  have n: "(0::nat) < 2 ^ 26" "0 < pnum ?c" "p \<in> set (queue_list (sys_prs s1 ! 0))" using s(3) by simp_all
  from parsers_get_sound_packets [OF c, of "(0, 3)" one_packet_world, unfolded s(1) run.inject] s(2) n
  have "packet_text (packets (sys_world s1) p) = cycle_text [97, 98, 99] (nat (pktlen ?c) - 54)" by blast
  with s t show ?thesis by metis
qed

text \<open>C3. The pipeline does not deadlock when no generator serves more than 16 parsers: as long as every manager
  has a free session, in every reachable state some generator, parser or manager can complete a pass. A
  parser waits for 64 packets; with at most 63 packets left behind at each of 16 parsers a generator
  still finds one of its 1024.\<close>

theorem pipeline_never_stuck:
  assumes "sys_config cfg str" "sizes_fit fr cfg" "parser_nums cfg \<le> 16 * generator_nums cfg"
  shows "\<exists>s0. boot fr inac_open cfg w = Ret s0
    \<and> (\<forall>n s. runs cfg s0 n s \<and> n < 2 ^ 26 - 1 \<and> (\<forall>m\<in>set (sys_ms s). intel_list MANAGER_POOL (session_pool m) \<noteq> []) \<longrightarrow>
         (\<exists>a s'. has_thread a s \<and> (\<forall>j b now. a \<noteq> Clean j b now) \<and> sys_act cfg a s = Ret s'))"
proof -
  obtain s0 where s0: "boot fr inac_open cfg w = Ret s0" "sys_inv cfg str 0 s0" using boot_inv [OF assms(1,2)] by blast
  have "sys_inv cfg str n s" if "runs cfg s0 n s" "n < 2 ^ 26 - 1" for n s
    using runs_inv [OF that(1) assms(1) s0(2)] that(2) by simp
  then show ?thesis using s0(1) some_pass [OF assms(1) _ _ assms(3)] by blast
qed

lemma fresh_session_free:
  assumes "sys_inv cfg str n s" "sys_fresh cfg s" "m \<in> set (sys_ms s)"
  shows "intel_list MANAGER_POOL (session_pool m) \<noteq> []"
proof -
  obtain chs where "table_inv cfg chs m" using assms(1,3) by (auto simp: sys_inv_def managers_inv_def)
  from pool_empty_iff [OF this] assms(2,3) show ?thesis by (simp add: sys_fresh_def)
qed

theorem pipeline_never_stuck_witness:
  "\<exists>s0 a s'. boot demo_fresh (0, 3) (tcp_cfg\<lparr>parser_nums := 16\<rparr>) one_packet_world = Ret s0
     \<and> sys_act (tcp_cfg\<lparr>parser_nums := 16\<rparr>) a s0 = Ret s'"
proof -
  let ?c = "tcp_cfg\<lparr>parser_nums := 16\<rparr>"
  have c: "sys_config ?c [97, 98, 99]" "sizes_fit demo_fresh ?c" "parser_nums ?c \<le> 16 * generator_nums ?c"
    using tcp_cfg_sys [of 16] by simp_all
  obtain s0 where s: "boot demo_fresh (0, 3) ?c one_packet_world = Ret s0" "sys_inv ?c [97, 98, 99] 0 s0" "sys_fresh ?c s0"
    using boot_inv [OF c(1,2)] by blast
  have "\<forall>m\<in>set (sys_ms s0). intel_list MANAGER_POOL (session_pool m) \<noteq> []" using fresh_session_free [OF s(2,3)] by blast
  with pipeline_never_stuck [OF c, of "(0, 3)" one_packet_world] s(1) runs_start [of ?c s0] show ?thesis by fastforce
qed

text \<open>C11. With one generator and more than 16 parsers the program can stop for good: the generator may send all
  its packets before a parser runs; no parser then has the 64 packets it waits for, the pool is empty,
  the managers have nothing to do, and from then on, whatever the cleaner does, every pass of every
  other thread waits.\<close>

theorem sparse_parsers_deadlock:
  assumes "sys_config cfg str" "sizes_fit fr cfg" "generator_nums cfg = 1" "17 \<le> parser_nums cfg"
  shows "\<exists>s0 s. boot fr inac_open cfg w = Ret s0 \<and> runs cfg s0 0 s
    \<and> (\<forall>n s' a. runs cfg s n s' \<and> has_thread a s' \<longrightarrow> (\<exists>j b now. a = Clean j b now) \<or> sys_act cfg a s' = Spin)"
proof -
  obtain s0 where s0: "boot fr inac_open cfg w = Ret s0" "sys_inv cfg str 0 s0" "sys_fresh cfg s0"
    using boot_inv [OF assms(1,2)] by blast
  obtain s where s: "runs cfg s0 0 s" "sys_inv cfg str 0 s" "starved cfg s"
    using single_starves [OF assms(1,3,4) s0(2,3)] by blast
  have "(\<exists>j b now. a = Clean j b now) \<or> sys_act cfg a s' = Spin" if "runs cfg s n s'" "has_thread a s'" for n s' a
    using starved_runs [OF assms(1) s(2,3) that(1)] starved_waits [OF assms(1) _ _ _ that(2), of 0] by simp
  with s0(1) s(1) show ?thesis by blast
qed

theorem sparse_parsers_deadlock_witness:
  "\<exists>s0 s. boot demo_fresh (0, 3) (tcp_cfg\<lparr>parser_nums := 17\<rparr>) one_packet_world = Ret s0
     \<and> runs (tcp_cfg\<lparr>parser_nums := 17\<rparr>) s0 0 s
     \<and> (\<forall>a. has_thread a s \<longrightarrow> (\<exists>j b now. a = Clean j b now) \<or> sys_act (tcp_cfg\<lparr>parser_nums := 17\<rparr>) a s = Spin)"
proof -
  let ?c = "tcp_cfg\<lparr>parser_nums := 17\<rparr>"
  have c: "sys_config ?c [97, 98, 99]" "sizes_fit demo_fresh ?c" "generator_nums ?c = 1" "17 \<le> parser_nums ?c"
    using tcp_cfg_sys [of 17] by simp_all
  from sparse_parsers_deadlock [OF c, of "(0, 3)" one_packet_world] runs_start [of ?c] show ?thesis by blast
qed

end
