(* ===== verification/Collector.thy ===== *)
theory Collector
  imports Packet_Generator
begin

text \<open>
  The collecting thread of \<^verbatim>\<open>src/packet_generator.c\<close> as a whole: \<^verbatim>\<open>intel_packet_collector\<close> from the initialisation on,
  and \<^verbatim>\<open>packet_generator_loop\<close>, the body of every generator thread, which chooses between collecting and
  generating.
\<close>

section \<open>The thread\<close>

text \<open>\<open>polls\<close> are the results of the card's library, one pair for every pass of the loop.\<close>

fun intel_collector_passes :: "sim_config \<Rightarrow> (u8 list option \<times> int) list \<Rightarrow> gen_state \<Rightarrow> gen_state run" where
  "intel_collector_passes gcfg [] s = Ret s"
| "intel_collector_passes gcfg ((va, l2_length) # polls) s =
     run_bind (intel_collector_pass gcfg va l2_length s) (intel_collector_passes gcfg polls)"

text \<open>Without a group of parsers the process exits.\<close>

definition intel_packet_collector ::
    "sim_config \<Rightarrow> (u8 list option \<times> int) list \<Rightarrow> generator \<Rightarrow> world \<Rightarrow> parser list option \<Rightarrow> u64 \<Rightarrow> gen_state run" where
  "intel_packet_collector gcfg polls g w grp sent =
     (case grp of None \<Rightarrow> Exits 0
      | Some prs \<Rightarrow>
          run_bind (make_clean_packet (g, w)) (\<lambda>(g1, w1).
          intel_collector_passes gcfg polls (g1, g_index g1, w1, prs, sent)))"

text \<open>A thread that is in its loop, or a thread that has ended, because the mode is neither of the two.\<close>

datatype thread_state = In_Loop gen_state | Thread_Exit

definition in_loop :: "gen_state \<Rightarrow> thread_state run" where
  "in_loop s = Ret (In_Loop s)"

definition packet_generator_loop ::
    "sim_config \<Rightarrow> (u8 list option \<times> int) list \<Rightarrow> nat \<Rightarrow> generator \<Rightarrow> world \<Rightarrow> parser list option \<Rightarrow> u64 \<Rightarrow> thread_state run" where
  "packet_generator_loop gcfg polls n g w grp sent =
     (if packet_generator_mode (g_config g) = 0
      then run_bind (intel_packet_collector gcfg polls g w grp sent) in_loop
      else if packet_generator_mode (g_config g) = 1
      then run_bind (generator_mode gcfg n g w grp sent) in_loop
      else Ret Thread_Exit)"

section \<open>What the polls deliver\<close>

text \<open>The frame that a poll delivers, if any: the pointer is set and the length above 40.\<close>

definition frame_of :: "u8 list option \<times> int \<Rightarrow> u8 list option" where
  "frame_of = (\<lambda>(va, l2_length). case va of None \<Rightarrow> None | Some d \<Rightarrow> if 40 < l2_length then Some (take (nat l2_length) d) else None)"

definition frames :: "(u8 list option \<times> int) list \<Rightarrow> u8 list list" where
  "frames polls = List.map_filter frame_of polls"

text \<open>The library's promise: as many bytes as it says.\<close>

definition readable :: "u8 list option \<times> int \<Rightarrow> bool" where
  "readable = (\<lambda>(va, l2_length). case va of None \<Rightarrow> True | Some d \<Rightarrow> nat l2_length \<le> length d)"

lemma frames_simps [simp]:
  "frames [] = []" "frames (x # polls) = (case frame_of x of None \<Rightarrow> frames polls | Some f \<Rightarrow> f # frames polls)"
  by (simp_all add: frames_def map_filter_simps split: option.split)

text \<open>The packets that go to parser \<open>r\<close> when \<open>ps\<close> are sent in turn, from \<open>nxt\<close> on.\<close>

fun dealt :: "(int \<Rightarrow> int) \<Rightarrow> int \<Rightarrow> nat list \<Rightarrow> nat \<Rightarrow> nat list" where
  "dealt turn nxt [] r = []"
| "dealt turn nxt (p # ps) r = (if nxt = int r then [p] else []) @ dealt turn (turn nxt) ps r"

lemma dealt_eq: "dealt turn nxt ps r = map (nth ps) (filter (\<lambda>k. (turn ^^ k) nxt = int r) [0..<length ps])"
proof (induction ps arbitrary: nxt)
  case (Cons p ps)
  have "[0..<length (p # ps)] = 0 # map Suc [0..<length ps]" by (simp add: map_Suc_upt upt_conv_Cons del: upt_Suc)
  then show ?case unfolding dealt.simps Cons.IH by (simp add: filter_map comp_def funpow_swap1 del: upt_Suc)
qed simp

lemma dealt_upt:
  "dealt turn nxt [base..<base + n] r = map (\<lambda>k. base + k) (filter (\<lambda>k. (turn ^^ k) nxt = int r) [0..<n])"
  unfolding dealt_eq by (simp cong: map_cong)

section \<open>The loop\<close>

text \<open>The packet that holds a frame.\<close>

definition holds :: "nat \<Rightarrow> u8 list \<Rightarrow> packet \<Rightarrow> bool" where
  "holds pool f pkt \<longleftrightarrow> take (length f) (drop 2 (data pkt)) = f \<and> plength pkt = of_nat (length f) \<and> ppool pkt = pool"

text \<open>A poll without a frame only counts.\<close>

lemma idle_poll:
  "frame_of (va, n) = None \<Longrightarrow>
   intel_collector_pass gcfg va n (g, next, w, prs, sent) = Ret (g\<lparr>g_alive := g_alive g + 1\<rparr>, next, w, prs, sent)"
  by (auto simp: frame_of_def intel_collector_pass_def split: option.splits if_splits)

lemma frame_poll:
  assumes "frame_of (va, n) = Some f" "readable (va, n)"
  obtains d where "va = Some d" "40 < n" "nat n \<le> length d" "f = take (nat n) d" "length f = nat n"
  using assms by (auto simp: frame_of_def readable_def split: option.splits if_splits)

text \<open>A collector that can take the frames \<open>fs\<close> into the packets \<open>ps\<close>.\<close>

definition takes :: "u8 list list \<Rightarrow> nat list \<Rightarrow> generator \<Rightarrow> int \<Rightarrow> world \<Rightarrow> parser list \<Rightarrow> bool" where
  "takes fs ps g nxt w prs \<longleftrightarrow> length fs = length ps \<and> distinct ps \<and> intel_inv LG2_CAPACITY (packet_pools w (g_pool g))
     \<and> (\<exists>free. pool_list g w = ps @ free)
     \<and> (\<forall>p\<in>set ps. g_ready g p \<and> (\<forall>f\<in>set fs. length f + 2 \<le> length (data (packets w p))))
     \<and> (\<exists>m. nxt = (next_parser (g_config g) (g_index g) ^^ m) (g_index g))
     \<and> 0 < generator_nums (g_config g) \<and> 0 \<le> g_index g \<and> g_index g < parser_nums (g_config g)
     \<and> parser_nums (g_config g) \<le> int (length prs)
     \<and> (\<forall>r<length prs. has_room (length (dealt (next_parser (g_config g) (g_index g)) nxt ps r)) (pqueue (prs ! r)))"

text \<open>What has become of them.\<close>

definition taken :: "u8 list list \<Rightarrow> nat list \<Rightarrow> generator \<Rightarrow> int \<Rightarrow> world \<Rightarrow> parser list \<Rightarrow> gen_state \<Rightarrow> bool" where
  "taken fs ps g nxt w prs = (\<lambda>(g', nxt', w', prs', sent').
     ps @ pool_list g w' = pool_list g w
     \<and> (\<forall>k<length ps. holds (g_pool g) (fs ! k) (packets w' (ps ! k)))
     \<and> (\<forall>p. p \<notin> set ps \<longrightarrow> packets w' p = packets w p)
     \<and> (\<forall>r<length prs. queue_list (prs' ! r)
          = queue_list (prs ! r) @ dealt (next_parser (g_config g) (g_index g)) nxt ps r)
     \<and> total_send_byte g' = total_send_byte g + of_nat (sum_list (map length fs)))"

lemma taken_cong:
  "taken fs ps (g\<lparr>g_alive := a\<rparr>) nxt w prs s = taken fs ps g nxt w prs s"
  "takes fs ps (g\<lparr>g_alive := a\<rparr>) nxt w prs = takes fs ps g nxt w prs"
  by (simp_all add: taken_def takes_def)

text \<open>One frame: the first packet takes it and goes to the parser whose turn it is.\<close>

lemma turn_inside:
  assumes "takes fs ps g nxt w prs"
  shows "0 \<le> nxt" "nxt < int (length prs)" "nat nxt < length prs"
proof -
  from assms obtain m where "nxt = (next_parser (g_config g) (g_index g) ^^ m) (g_index g)" by (auto simp: takes_def)
  with turn_bounds [of "g_config g" "g_index g" m] assms show "0 \<le> nxt" "nxt < int (length prs)" "nat nxt < length prs"
    by (auto simp: takes_def)
qed

lemma next_turn:
  "\<exists>m. nxt = (turn ^^ m) i \<Longrightarrow> \<exists>m. turn nxt = (turn ^^ m) (i :: int)"
  by (metis funpow.simps(2) o_apply)

lemma takes_step:
  assumes T: "takes (f # fs) (p # ps) g nxt w prs"
    and g1: "g_pool g1 = g_pool g" "g_ready g1 = g_ready g" "g_config g1 = g_config g" "g_index g1 = g_index g"
    and q: "intel_inv LG2_CAPACITY q" "p # intel_list LG2_CAPACITY q = pool_list g w"
    and r: "intel_inv LG2_CAPACITY r" "intel_list LG2_CAPACITY r = queue_list (prs ! nat nxt) @ [p]"
  shows "takes fs ps g1 (next_parser (g_config g) (g_index g) nxt) (set_packet p pkt (set_pool (g_pool g) q w))
    (prs[nat nxt := (prs ! nat nxt)\<lparr>pqueue := r\<rparr>])"
proof -
  let ?turn = "next_parser (g_config g) (g_index g)" and ?prs = "prs[nat nxt := (prs ! nat nxt)\<lparr>pqueue := r\<rparr>]"
  have "has_room (length (dealt ?turn (?turn nxt) ps j)) (pqueue (?prs ! j))" if j: "j < length ?prs" for j
  proof -
    have room: "has_room (length (dealt ?turn nxt (p # ps) j)) (pqueue (prs ! j))" using T j by (simp add: takes_def)
    have "j = nat nxt \<longleftrightarrow> nxt = int j" using turn_inside(1) [OF T] by linarith
    with room r j show ?thesis by (cases "j = nat nxt") (simp_all add: has_room_def del: length_intel_list)
  qed
  moreover have "\<exists>free. intel_list LG2_CAPACITY q = ps @ free" using T q(2) by (auto simp: takes_def)
  moreover have "\<exists>m. ?turn nxt = (?turn ^^ m) (g_index g)" using T by (intro next_turn) (simp add: takes_def)
  ultimately show ?thesis using T g1 q(1) by (auto simp: takes_def set_packet_def set_pool_def)
qed

lemma taken_step:
  assumes T: "takes (f # fs) (p # ps) g nxt w prs"
    and g1: "g_pool g1 = g_pool g" "g_config g1 = g_config g" "g_index g1 = g_index g"
      "total_send_byte g1 = total_send_byte g + of_nat (length f)"
    and q: "p # intel_list LG2_CAPACITY q = pool_list g w"
    and r: "intel_list LG2_CAPACITY r = queue_list (prs ! nat nxt) @ [p]" and pkt: "holds (g_pool g) f pkt"
    and rest: "taken fs ps g1 (next_parser (g_config g) (g_index g) nxt) (set_packet p pkt (set_pool (g_pool g) q w))
      (prs[nat nxt := (prs ! nat nxt)\<lparr>pqueue := r\<rparr>]) s"
  shows "taken (f # fs) (p # ps) g nxt w prs s"
proof -
  obtain g' nxt' w' prs' sent' where s: "s = (g', nxt', w', prs', sent')" by (cases s) auto
  have p: "p \<notin> set ps" "length fs = length ps" using T by (auto simp: takes_def)
  note R = rest [unfolded s taken_def prod.case g1]
  have "holds (g_pool g) ((f # fs) ! k) (packets w' ((p # ps) ! k))" if "k < length (p # ps)" for k
    using R p pkt that by (cases k) (auto simp: set_packet_def)
  moreover have "packets w' x = packets w x" if "x \<notin> set (p # ps)" for x
    using R that by (simp add: set_packet_def set_pool_def)
  moreover have "queue_list (prs' ! j) = queue_list (prs ! j) @ dealt (next_parser (g_config g) (g_index g)) nxt (p # ps) j"
    if "j < length prs" for j
  proof -
    have "j = nat nxt \<longleftrightarrow> nxt = int j" using turn_inside(1) [OF T] by linarith
    with R r that show ?thesis by (cases "j = nat nxt") simp_all
  qed
  moreover have "(p # ps) @ pool_list g w' = pool_list g w" using R q by (simp add: set_packet_def set_pool_def)
  ultimately show ?thesis using R unfolding s taken_def prod.case by (simp add: add.assoc)
qed

lemma frame_step:
  assumes depth: "1 < pipe_depth gcfg" and x: "frame_of (va, n) = Some f" "readable (va, n)"
    and T: "takes (f # fs) (p # ps) g nxt w prs"
  shows "\<exists>g1 nxt1 w1 prs1. intel_collector_pass gcfg va n (g, nxt, w, prs, sent) = Ret (g1, nxt1, w1, prs1, sent)
    \<and> takes fs ps g1 nxt1 w1 prs1 \<and> (\<forall>s. taken fs ps g1 nxt1 w1 prs1 s \<longrightarrow> taken (f # fs) (p # ps) g nxt w prs s)"
proof -
  obtain d where d: "va = Some d" "40 < n" "nat n \<le> length d" "f = take (nat n) d" "length f = nat n"
    by (rule frame_poll [OF x])
  obtain free where pool: "pool_list g w = p # (ps @ free)" "intel_inv LG2_CAPACITY (packet_pools w (g_pool g))"
    "g_ready g p" "nat n + 2 \<le> length (data (packets w p))" using T d(5) by (auto simp: takes_def)
  have "has_room 1 (pqueue (prs ! nat nxt))"
    using T turn_inside [OF T] by (auto simp: takes_def has_room_def simp del: length_intel_list)
  from collect_frame_ok [OF depth pool(2,1,3) d(3) pool(4) turn_inside(1,2) [OF T] this, of sent] obtain c q r where
    run: "collect_frame gcfg d (nat n) (g, nxt, w, prs, sent) =
      Ret (g\<lparr>total_send_byte := total_send_byte g + of_nat (nat n), g_alive := g_alive g + 1\<rparr>,
           next_parser (g_config g) (g_index g) nxt,
           set_packet p ((packets w p)\<lparr>ppool := g_pool g, data := c, plength := of_nat (nat n)\<rparr>) (set_pool (g_pool g) q w),
           prs[nat nxt := (prs ! nat nxt)\<lparr>pqueue := r\<rparr>], sent)"
    and c: "take (nat n) (drop 2 c) = take (nat n) d"
    and q: "intel_inv LG2_CAPACITY q" "p # intel_list LG2_CAPACITY q = pool_list g w"
    and r: "intel_inv LG2_CAPACITY r" "intel_list LG2_CAPACITY r = queue_list (prs ! nat nxt) @ [p]"
    using pool(1) by auto
  let ?g = "g\<lparr>total_send_byte := total_send_byte g + of_nat (length f), g_alive := g_alive g + 1 + 1\<rparr>"
  let ?pkt = "(packets w p)\<lparr>ppool := g_pool g, data := c, plength := of_nat (nat n)\<rparr>"
  have h: "holds (g_pool g) f ?pkt" using c d by (simp add: holds_def)
  have "intel_collector_pass gcfg va n (g, nxt, w, prs, sent) = Ret (?g, next_parser (g_config g) (g_index g) nxt,
      set_packet p ?pkt (set_pool (g_pool g) q w), prs[nat nxt := (prs ! nat nxt)\<lparr>pqueue := r\<rparr>], sent)"
    using d(1,2,5) by (simp add: intel_collector_pass_def run)
  moreover note takes_step [OF T _ _ _ _ q r, of ?g ?pkt, simplified] taken_step [OF T _ _ _ _ q(2) r(2) h, of ?g, simplified]
  ultimately show ?thesis by (intro exI conjI allI impI) (assumption | simp)+
qed

lemma collector_passes_ok:
  assumes "1 < pipe_depth gcfg" "list_all readable polls" "takes (frames polls) ps g nxt w prs"
  shows "\<exists>s. intel_collector_passes gcfg polls (g, nxt, w, prs, sent) = Ret s \<and> taken (frames polls) ps g nxt w prs s"
  using assms(2,3)
proof (induction polls arbitrary: ps g nxt w prs)
  case Nil
  then show ?case by (auto simp: taken_def takes_def)
next
  case (Cons x polls)
  obtain va n where x: "x = (va, n)" by (cases x)
  show ?case
  proof (cases "frame_of x")
    case None
    with Cons.IH [of ps "g\<lparr>g_alive := g_alive g + 1\<rparr>" nxt w prs] Cons.prems idle_poll [of va n gcfg g nxt w prs sent]
    show ?thesis by (simp add: x taken_cong)
  next
    case (Some f)
    obtain p ps' where ps: "ps = p # ps'" using Cons.prems(2) Some by (cases ps) (auto simp: takes_def)
    have "takes (f # frames polls) (p # ps') g nxt w prs" using Cons.prems(2) Some by (simp add: ps)
    from frame_step [OF assms(1) Some [unfolded x] _ this, of sent] Cons.prems(1) obtain g1 nxt1 w1 prs1
      where "intel_collector_pass gcfg va n (g, nxt, w, prs, sent) = Ret (g1, nxt1, w1, prs1, sent)"
        "takes (frames polls) ps' g1 nxt1 w1 prs1"
        "\<forall>s. taken (frames polls) ps' g1 nxt1 w1 prs1 s \<longrightarrow> taken (f # frames polls) (p # ps') g nxt w prs s"
      by (auto simp: x)
    with Cons.IH [of ps' g1 nxt1 w1 prs1] Cons.prems(1) Some show ?thesis by (auto simp: x ps)
  qed
qed

section \<open>From the initialisation\<close>

lemma collector_starts:
  assumes "pool_fits gcfg" "length junk = 2 ^ LG2_CAPACITY"
    "init_signle_generator gcfg null junk room base i dev_id (g0, w0) = Ret (g, w)"
  shows "\<exists>g1 w1. make_clean_packet (g, w) = Ret (g1, w1) \<and> g_config g1 = gcfg \<and> g_index g1 = int i \<and> g_pool g1 = i
    \<and> total_send_byte g1 = 0 \<and> intel_inv LG2_CAPACITY (packet_pools w1 i)
    \<and> intel_list LG2_CAPACITY (packet_pools w1 i) = [base..<base + 1024]
    \<and> (\<forall>p\<in>set [base..<base + 1024]. g_ready g1 p \<and> length (data (packets w1 p)) = nat (pktlen gcfg) + 2)"
proof -
  have I: "g_config g = gcfg" "g_index g = int i" "g_pool g = i" "total_send_byte g = 0"
    "intel_inv LG2_CAPACITY (packet_pools w (g_pool g))" "pool_list g w = [base..<base + 1024] @ []"
    "\<forall>p\<in>set [base..<base + 1024]. length (data (packets w p)) = nat (pktlen gcfg) + 2"
    using init_signle_generator_ok [OF assms] by auto
  have "length [base..<base + 1024] = 2 ^ LG2_CAPACITY" by (simp add: LG2_CAPACITY_def)
  with clean_packets_ok [OF I(5,6)] I show ?thesis unfolding make_clean_packet_def by fastforce
qed

section \<open>Properties\<close>

text \<open>C19. A collector thread from its initialisation up to its first 1024 frames, with nobody taking them yet.
  The queues of the parsers are empty at the start; the answers of the card are any sequence of polls, idle
  ones and frames of at most 40 bytes among them, in which every pointer has as many readable bytes as
  the card says and there are at most 1024 frames of more than 40 bytes, none of them longer than
  \<^verbatim>\<open>pktlen\<close>. Then the thread returns to its loop after every poll, and each of the frames of more than 40 bytes is,
  in order and byte for byte, in a packet of the thread's own pool, with its length; the packets are queued
  at the thread's parsers in turn, nothing else is queued, and the bytes are counted. A thread in neither of
  the two modes ends at once.\<close>

theorem collector_run_delivers:
  assumes "packet_generator_mode gcfg = 0" "1 < pipe_depth gcfg" "length junk = 2 ^ LG2_CAPACITY"
    and "0 < generator_nums gcfg" "int i < parser_nums gcfg" "parser_nums gcfg \<le> int (length prs)"
    and "\<forall>pr\<in>set prs. intel_inv LG2_CAPACITY (pqueue pr) \<and> queue_list pr = []"
    and "init_signle_generator gcfg null junk room base i dev_id (g0, w0) = Ret (g, w)"
    and "list_all readable polls" "length (frames polls) \<le> 1024" "\<forall>f\<in>set (frames polls). int (length f) \<le> pktlen gcfg"
    and "0 \<le> pktlen gcfg"
  shows "\<exists>g' nxt w' prs' sent'.
      packet_generator_loop gcfg polls n g w (Some prs) sent = Ret (In_Loop (g', nxt, w', prs', sent'))
    \<and> intel_list LG2_CAPACITY (packet_pools w' i) = [base + length (frames polls)..<base + 1024]
    \<and> (\<forall>k<length (frames polls). holds i (frames polls ! k) (packets w' (base + k)))
    \<and> (\<forall>r<length prs. queue_list (prs' ! r) =
         map (\<lambda>k. base + k) (filter (\<lambda>k. (next_parser gcfg (int i) ^^ k) (int i) = int r) [0..<length (frames polls)]))
    \<and> total_send_byte g' = of_nat (sum_list (map length (frames polls)))
    \<and> packet_generator_loop gcfg polls n (g\<lparr>g_config := gcfg\<lparr>packet_generator_mode := 2\<rparr>\<rparr>) w (Some prs) sent = Ret Thread_Exit"
proof -
  let ?F = "frames polls" and ?turn = "next_parser gcfg (int i)"
  let ?ps = "[base..<base + length ?F]"
  have fits: "pool_fits gcfg" using init_signle_generator_fits [OF assms(8,12)] .
  obtain g1 w1 where S: "make_clean_packet (g, w) = Ret (g1, w1)" "g_config g1 = gcfg" "g_index g1 = int i" "g_pool g1 = i"
    "total_send_byte g1 = 0" "intel_inv LG2_CAPACITY (packet_pools w1 i)"
    "intel_list LG2_CAPACITY (packet_pools w1 i) = [base..<base + 1024]"
    "\<forall>p\<in>set [base..<base + 1024]. g_ready g1 p \<and> length (data (packets w1 p)) = nat (pktlen gcfg) + 2"
    using collector_starts [OF fits assms(3,8)] by blast
  have split: "[base..<base + 1024] = ?ps @ [base + length ?F..<base + 1024]"
    using assms(10) upt_add_eq_append [of base "base + length ?F" "1024 - length ?F"] by simp
  have room: "has_room (length (dealt ?turn (int i) ?ps r)) (pqueue (prs ! r))" if "r < length prs" for r
  proof -
    have "length (dealt ?turn (int i) ?ps r) \<le> 2 ^ LG2_CAPACITY"
      unfolding dealt_eq using assms(10) length_filter_le [of _ "[0..<length ?ps]"] order_trans
      by (fastforce simp: LG2_CAPACITY_def)
    with assms(7) that show ?thesis by (auto simp: has_room_def simp del: length_intel_list)
  qed
  have fit: "\<forall>f\<in>set ?F. length f + 2 \<le> nat (pktlen gcfg) + 2" using assms(11) by auto
  have "takes ?F ?ps g1 (int i) w1 prs"
    unfolding takes_def S using assms(4-6,10) S(6-8) room fit split
    by (auto intro!: exI [of _ "0::nat"])
  from collector_passes_ok [OF assms(2,9) this, of sent] obtain g' nxt w' prs' sent' where
    R: "intel_collector_passes gcfg polls (g1, int i, w1, prs, sent) = Ret (g', nxt, w', prs', sent')"
    and t: "taken ?F ?ps g1 (int i) w1 prs (g', nxt, w', prs', sent')" by auto
  have "packet_generator_loop gcfg polls n g w (Some prs) sent = Ret (In_Loop (g', nxt, w', prs', sent'))"
    using init_signle_generator_ok [OF fits assms(3,8)] assms(1)
    by (simp add: packet_generator_loop_def intel_packet_collector_def S(1,3) R in_loop_def)
  moreover have "packet_generator_loop gcfg polls n (g\<lparr>g_config := gcfg\<lparr>packet_generator_mode := 2\<rparr>\<rparr>) w (Some prs) sent = Ret Thread_Exit"
    by (simp add: packet_generator_loop_def)
  moreover have "intel_list LG2_CAPACITY (packet_pools w' i) = [base + length ?F..<base + 1024]"
    using t split unfolding taken_def S prod.case by simp
  ultimately show ?thesis
    using t assms(7) unfolding taken_def S prod.case dealt_upt by (intro exI conjI) auto
qed

definition collect_cfg :: sim_config where
  "collect_cfg = tcp_cfg\<lparr>packet_generator_mode := 0\<rparr>"

definition demo_polls :: "(u8 list option \<times> int) list" where
  "demo_polls = [(None, 0), (Some (replicate 60 7), 50), (Some [1, 2], 2)]"

lemma demo_polls_facts:
  "frames demo_polls = [replicate 50 7]" "list_all readable demo_polls"
  by (simp_all add: demo_polls_def frame_of_def readable_def min_def del: replicate.simps)

lemma collect_cfg_fits: "pool_fits collect_cfg"
  using tcp_cfg_fits by (simp add: collect_cfg_def pool_fits_def)

theorem collector_run_delivers_witness:
  "\<exists>g w g' nxt w' prs' sent'.
     init_signle_generator collect_cfg 0 (replicate (2 ^ LG2_CAPACITY) 0) (\<lambda>_ _. 0) 0 0 (- 1) (demo_generator, one_packet_world) = Ret (g, w)
     \<and> packet_generator_loop collect_cfg demo_polls 0 g w (Some [idle_parser]) 0 = Ret (In_Loop (g', nxt, w', prs', sent'))
     \<and> queue_list (prs' ! 0) = [0] \<and> holds 0 (replicate 50 7) (packets w' 0) \<and> total_send_byte g' = 50"
proof -
  let ?j = "replicate (2 ^ LG2_CAPACITY) (0::nat)"
  obtain g w where I: "init_signle_generator collect_cfg 0 ?j (\<lambda>_ _. 0) 0 0 (- 1) (demo_generator, one_packet_world) = Ret (g, w)"
    using init_signle_generator_runs collect_cfg_fits by blast
  have c: "packet_generator_mode collect_cfg = 0" "1 < pipe_depth collect_cfg" "length ?j = 2 ^ LG2_CAPACITY"
    "0 < generator_nums collect_cfg" "int 0 < parser_nums collect_cfg" "parser_nums collect_cfg \<le> int (length [idle_parser])"
    by (simp_all add: collect_cfg_def tcp_cfg_def demo_cfg_def)
  have q: "\<forall>pr\<in>set [idle_parser]. intel_inv LG2_CAPACITY (pqueue pr) \<and> queue_list pr = []"
    using idle_parser_queue by simp
  have s: "length (frames demo_polls) \<le> 1024" "\<forall>f\<in>set (frames demo_polls). int (length f) \<le> pktlen collect_cfg"
    by (simp_all add: demo_polls_facts collect_cfg_def tcp_cfg_def del: replicate.simps)
  have l: "0 \<le> pktlen collect_cfg" using collect_cfg_fits by (simp add: pool_fits_def)
  from collector_run_delivers [OF c q I demo_polls_facts(2) s l, of 0 0] I show ?thesis
    unfolding demo_polls_facts(1) by (auto simp del: replicate.simps)
qed

end
