(* ===== verification/Config_Types.thy ===== *)
theory Config_Types
  imports Simulation
begin

text \<open>
  The types of the configuration: \<^verbatim>\<open>sim_config_t\<close> of \<^verbatim>\<open>src/config.h\<close> is a record of unbounded integers and
  lists in the model, and this theory shows that every value the defaults, the two readers and the
  command line put there is one that the C type can hold.
\<close>

section \<open>The types of the configuration\<close>

text \<open>
  What the C types of \<^verbatim>\<open>sim_config_t\<close> promise of the model's record: every \<^verbatim>\<open>int\<close> is in the range of 32 bits, an
  Ethernet address has six bytes, a string has no zero byte in it. The file reader promises more:
  the protocol is TCP or UDP, and a packet has at most 1600 bytes.
\<close>

definition c_int :: "int \<Rightarrow> bool" where
  "c_int i \<longleftrightarrow> - (2 ^ 31) \<le> i \<and> i < 2 ^ 31"

definition c_string :: "u8 list option \<Rightarrow> bool" where
  "c_string s \<longleftrightarrow> 0 \<notin> set (case s of None \<Rightarrow> [] | Some t \<Rightarrow> t)"

definition int_fields :: "sim_config \<Rightarrow> int list" where
  "int_fields c = [cfg_protocol c, pktlen c, packet_generator_mode c, generator_nums c, parser_nums c, manager_nums c,
     generator_pool_size c, parser_queue_length c, parser_pool_size c, manager_queue_length c, manager_pool_size c,
     manager_hash_length c, manager_buffer_size c, pipe_depth c, screen_display c, speed_mode c, mhz c, destory_time c]"

definition config_typed :: "sim_config \<Rightarrow> bool" where
  "config_typed c \<longleftrightarrow> length (srcmac c) = 6 \<and> length (dstmac c) = 6 \<and> c_string (pkt_data c) \<and> c_string (link_name c)
     \<and> list_all c_int (int_fields c)"

definition file_typed :: "sim_config \<Rightarrow> bool" where
  "file_typed c \<longleftrightarrow> config_typed c \<and> cfg_protocol c \<in> {6, 17} \<and> pktlen c \<le> 1600"

named_theorems typing

lemmas typed_defs = file_typed_def config_typed_def int_fields_def

lemma sint_c_int [typing]: "c_int (sint (w :: u32))"
  using sint_greater_eq [of w] sint_less [of w] by (simp add: c_int_def)

lemma atoi_c_int [typing]: "c_int (atoi p)"
  by (auto simp: atoi_def typing c_int_def [of 0] split: option.split)

lemma literal_c_int [typing]: "c_int 6" "c_int 17" "c_int 0" "c_int 1"
  by (simp_all add: c_int_def)

lemma atoe_loop_length: "length (snd (atoe_loop c i e)) = length e"
  by (induction c i e rule: atoe_loop.induct) (subst atoe_loop.simps, auto simp: Let_def split: prod.splits)

lemma ether_atoe_length [typing]: "length (snd (ether_atoe a)) = 6"
  by (simp add: ether_atoe_def atoe_loop_length)

lemma quarter_c_int: "c_int t \<Longrightarrow> c_int (if 0 \<le> t then t div 4 else - (- t div 4))"
  by (auto simp: c_int_def)

lemma get_cpu_mhz_c_int [typing]: "c_int (get_cpu_mhz samples)"
  unfolding get_cpu_mhz_def Let_def by (rule quarter_c_int [OF sint_c_int])

text \<open>Each layer of the reader keeps the types; the value of an entry is a suffix of a line without zero bytes.\<close>

lemma set_number_typed [typing]: "file_typed c \<Longrightarrow> file_typed (set_number pname p c)"
  by (simp add: set_number_def typed_defs typing)

definition typed_result :: "line_result \<Rightarrow> bool" where
  "typed_result r = (case r of Next c \<Rightarrow> file_typed c | Return c \<Rightarrow> file_typed c | _ \<Rightarrow> True)"

lemma set_ip_typed [typing]:
  "file_typed c \<Longrightarrow> typed_result (set_srcip counter p c)" "file_typed c \<Longrightarrow> typed_result (set_dstip counter p c)"
  "file_typed c \<Longrightarrow> typed_result (set_srcport counter port p c)" "file_typed c \<Longrightarrow> typed_result (set_dstport counter port p c)"
  by (simp_all add: set_srcip_def set_dstip_def set_srcport_def set_dstport_def Let_def typed_result_def typed_defs
      split: option.split)

lemma set_link_name_typed [typing]: "file_typed c \<Longrightarrow> 0 \<notin> set p \<Longrightarrow> typed_result (set_link_name p c)"
  by (auto simp: set_link_name_def typed_result_def typed_defs c_string_def dest: in_set_butlastD)

lemma typed_result_Next [simp]: "typed_result (Next c) = file_typed c"
  by (simp add: typed_result_def)

lemma typed_result_Exit [simp]: "typed_result Exit" "typed_result (Return c) = file_typed c" "typed_result Bad_Write"
  by (simp_all add: typed_result_def)

lemma set_text_typed [typing]:
  "file_typed c \<Longrightarrow> file_typed (c\<lparr>cfg_protocol := 6\<rparr>)" "file_typed c \<Longrightarrow> file_typed (c\<lparr>cfg_protocol := 17\<rparr>)"
  "file_typed c \<Longrightarrow> length e = 6 \<Longrightarrow> file_typed (c\<lparr>srcmac := e\<rparr>)" "file_typed c \<Longrightarrow> length e = 6 \<Longrightarrow> file_typed (c\<lparr>dstmac := e\<rparr>)"
  "file_typed c \<Longrightarrow> \<not> 1600 < atoi p \<Longrightarrow> file_typed (c\<lparr>pktlen := atoi p\<rparr>)"
  "file_typed c \<Longrightarrow> 0 \<notin> set p \<Longrightarrow> file_typed (c\<lparr>pkt_data := Some p\<rparr>)" "file_typed c \<Longrightarrow> file_typed (c\<lparr>speed := s\<rparr>)"
  by (simp_all add: typed_defs c_string_def typing)

lemma set_entry_typed: "file_typed c \<Longrightarrow> 0 \<notin> set p \<Longrightarrow> typed_result (set_entry counter port pname p c)"
  by (simp add: set_entry_def typing)

lemma split_line_no_zero: "split_line buf = Some (pname, p) \<Longrightarrow> 0 \<notin> set buf \<Longrightarrow> 0 \<notin> set p"
  by (auto simp: split_line_def skip_opeartor_def skip_var_name_def Let_def split: if_splits dest!: set_dropWhileD)

lemma config_line_typed: "file_typed c \<Longrightarrow> typed_result (config_line counter port buf c)"
  by (auto simp: config_line_def split: option.split intro!: set_entry_typed dest: split_line_no_zero set_takeWhileD)

lemma read_lines_typed: "file_typed c \<Longrightarrow> typed_result (read_lines junk n s c)"
proof (induction junk n s c rule: read_lines.induct)
  case (1 junk n s c)
  obtain buf rest e where f: "fgets (BUFSIZ - 1) s = (buf, rest, e)" by (cases "fgets (BUFSIZ - 1) s") auto
  show ?case
    using config_line_typed [OF "1.prems", of "fst (junk n)" "snd (junk n)" buf] "1.prems"
      "1.IH" [OF f [symmetric] refl refl]
    by (auto simp: read_lines_step [OF f] split: line_result.split)
qed

lemma read_config_file_typed: "file_typed c \<Longrightarrow> typed_result (read_config_file junk src c)"
  by (simp add: read_config_file_def read_lines_typed split: option.split)

lemma init_config_s_typed: "file_typed (init_config_s samples zero_config)"
  by (simp add: init_config_s_def zero_config_def typed_defs c_string_def typing ascii_def) (simp add: c_int_def)

text \<open>The command line keeps the C types, but not the limit on the length of a packet.\<close>

lemma parse_option_typed: "config_typed c \<Longrightarrow> config_typed (parse_option opt c)"
  by (cases opt) (simp add: parse_option_def Let_def typed_defs typing)

lemma parse_args_typed: "config_typed c \<Longrightarrow> config_typed (parse_args opts c)"
  unfolding parse_args_def by (induction opts arbitrary: c) (simp_all add: parse_option_typed)

lemma parse_args_protocol [simp]: "cfg_protocol (parse_args opts c) = cfg_protocol c"
  unfolding parse_args_def by (induction opts arbitrary: c) (auto simp: parse_option_def Let_def)

lemma parse_args_pktlen:
  "\<forall>opt\<in>set opts. long_options ! fst (snd opt) \<noteq> ''pktlen'' \<Longrightarrow> pktlen (parse_args opts c) = pktlen c"
  unfolding parse_args_def by (induction opts arbitrary: c) (auto simp: parse_option_def Let_def)

lemma simple_entry_typed: "config_typed c \<Longrightarrow> config_typed (simple_entry pname p c)"
  by (simp add: simple_entry_def typed_defs typing)

lemma simple_lines_typed: "config_typed c \<Longrightarrow> config_typed (simple_lines s c)"
proof (induction s c rule: simple_lines.induct)
  case (1 s c)
  obtain buf rest e where f: "fgets (BUFSIZ - 1) s = (buf, rest, e)" by (cases "fgets (BUFSIZ - 1) s") auto
  show ?case
    using "1.prems" "1.IH" [OF f [symmetric] refl refl]
    by (auto simp: simple_lines_step [OF f] simple_entry_typed split: option.split)
qed

lemma long_pktlen_accepted: "pktlen (parse_args [(CHR ''o'', 2, ascii ''9000'')] c) = 9000"
  by (simp add: parse_args_def parse_option_def long_options_def ascii_def atoi_def scan_number_def number_def is_digit_def
      digit_def isspace_def)

section \<open>Properties\<close>

text \<open>C21. The configuration that the main program starts with is well typed, whatever the file and the
  command line contain: Ethernet addresses of six bytes, strings without zero bytes, integers within
  32 bits, TCP or UDP as the protocol. The length of a packet is at most 1600 unless the command line
  gives one, and rereading the file at run time keeps the types.\<close>

theorem config_is_typed:
  assumes "main_config files calc samples junk argv opts = Next c"
  shows "config_typed c \<and> cfg_protocol c \<in> {6, 17}
    \<and> ((\<forall>opt\<in>set opts. long_options ! fst (snd opt) \<noteq> ''pktlen'') \<longrightarrow> pktlen c \<le> 1600)
    \<and> (\<forall>stat src old new c'. read_config_simple stat src (old, c) = Some (new, c') \<longrightarrow> config_typed c')"
proof -
  obtain d where d: "file_typed d" and c: "c = (parse_args opts d)\<lparr>period := calc (parse_args opts d)\<rparr>"
    using assms read_config_file_typed [OF init_config_s_typed, of junk "files (config_path argv (ascii ''./generator.conf''))" samples]
    by (auto simp: main_config_def Let_def split: line_result.splits)
  have t: "config_typed c"
    using parse_args_typed [of d opts] d unfolding c by (simp add: typed_defs)
  moreover have "cfg_protocol c \<in> {6, 17}" using d by (simp add: c file_typed_def)
  moreover have "pktlen c \<le> 1600" if o: "\<forall>opt\<in>set opts. long_options ! fst (snd opt) \<noteq> ''pktlen''"
    using parse_args_pktlen [OF o, of d] d by (simp add: c file_typed_def)
  moreover have "config_typed c'" if "read_config_simple stat src (old, c) = Some (new, c')" for stat src old new c'
    using that t simple_lines_typed [OF t] by (auto simp: read_config_simple_def split: option.splits if_splits)
  ultimately show ?thesis by blast
qed

theorem config_is_typed_witness:
  "\<exists>c. main_config (\<lambda>_. Some []) (\<lambda>_. 0) [] (\<lambda>_. (0, 0)) [] [(CHR ''g'', 0, ascii ''4294967297'')] = Next c
     \<and> config_typed c \<and> cfg_protocol c = 6 \<and> pktlen c \<le> 1600 \<and> generator_nums c = 1"
proof -
  let ?o = "[(CHR ''g'', 0 :: nat, ascii ''4294967297'')]"
  let ?c = "(init_config_s [] zero_config)\<lparr>generator_nums := 1, period := 0\<rparr>"
  have "fgets (BUFSIZ - 1) [] = ([], [], True)" by (rule fgets_end) (simp_all add: BUFSIZ_def)
  then have m: "main_config (\<lambda>_. Some []) (\<lambda>_. 0) [] (\<lambda>_. (0, 0)) [] ?o = Next ?c"
    by (simp add: main_config_def read_config_file_def read_lines_step Let_def parse_args_def parse_option_def
        long_options_def ascii_def atoi_def scan_number_def number_def is_digit_def digit_def isspace_def)
  have "\<forall>opt\<in>set ?o. long_options ! fst (snd opt) \<noteq> ''pktlen''" by (simp add: long_options_def)
  with config_is_typed [OF m] have "config_typed ?c \<and> pktlen ?c \<le> 1600" by blast
  with m show ?thesis by (intro exI [of _ ?c]) (simp add: init_config_s_def)
qed

end
