(* ===== verification/Packet_Print.thy ===== *)
theory Packet_Print
  imports Packet_Parser Config_File
begin

unbundle bit_operations_syntax

text \<open>
  \<^verbatim>\<open>src/parse.c\<close>: the functions that print a packet for a reader. A function is modelled by the text it
  prints, or by \<open>Fault\<close> when it reads beyond the buffer; the lock around the output is left out. The values
  of the constants are those of the Linux headers the file includes.
\<close>

section \<open>Numbers as text\<close>

text \<open>\<^verbatim>\<open>%x\<close> and \<^verbatim>\<open>%02x\<close>.\<close>

definition hex_low :: "nat \<Rightarrow> u8" where
  "hex_low n = of_nat (if n < 10 then 48 + n else 87 + n)"

fun hex :: "nat \<Rightarrow> u8 list" where
  "hex n = (if n < 16 then [hex_low n] else hex (n div 16) @ [hex_low (n mod 16)])"

declare hex.simps [simp del]

definition print_02x :: "u8 \<Rightarrow> u8 list" where
  "print_02x b = [hex_low (unat b div 16), hex_low (unat b mod 16)]"

definition inet_ntoa :: "u32 \<Rightarrow> u8 list" where
  "inet_ntoa a = (let b = bytes32 a in dotted (b ! 0) (b ! 1) (b ! 2) (b ! 3))"

definition line :: "string \<Rightarrow> u8 list" where
  "line s = ascii s @ [10]"

section \<open>The fields of the headers\<close>

text \<open>\<^verbatim>\<open>switch (IPTOS_TOS(tos))\<close>; other values print nothing.\<close>

definition parse_tos :: "u8 \<Rightarrow> u8 list" where
  "parse_tos tos =
     (let t = tos AND 0x1E
      in if t = 0x10 then line ''IPTOS_LOWDELAY''
         else if t = 0x08 then line ''IPTOS_THROUGHPUT''
         else if t = 0x04 then line ''IPTOS_RELIABILITY''
         else if t = 0x02 then line ''IPTOS_MINCOST''
         else [])"

definition IP_MF :: u16 where "IP_MF = 0x2000"

definition IP_OFFSET :: u16 where "IP_OFFSET = 0x1FFF"

definition parse_frag_off :: "u16 \<Rightarrow> u8 list" where
  "parse_frag_off frag_off =
     (if frag_off AND htons (IP_MF OR IP_OFFSET) \<noteq> 0
      then ascii ''have fragment  ''
           @ (if frag_off AND htons IP_MF \<noteq> 0 then line ''and not end'' else line ''and it end'')
           @ ascii ''ip offset:'' @ dec (unat (htons (frag_off AND htons IP_OFFSET))) @ [10]
      else line ''not yet fragment'')"

definition ip_protocols :: "(u8 \<times> string) list" where
  "ip_protocols =
    [(0x0, ''Dummy protocol for TCP''),
     (0x1, '' Internet Control Message Protocol ''),
     (0x2, '' Internet Group Management Protocol ''),
     (0x4, '' IPIP tunnels (older KA9Q tunnels use 94) ''),
     (0x6, '' Transmission Control Protocol ''),
     (0x8, '' Exterior Gateway Protocol ''),
     (0xc, '' PUP protocol ''),
     (0x11, '' User Datagram Protocol ''),
     (0x16, '' XNS IDP protocol ''),
     (0x21, '' Datagram Congestion Control Protocol ''),
     (0x2e, '' RSVP protocol ''),
     (0x2f, '' Cisco GRE tunnels (rfc 1701,1702) ''),
     (0x29, '' IPv6-in-IPv4 tunnelling ''),
     (0x32, '' Encapsulation Security Payload protocol ''),
     (0x33, '' Authentication Header protocol ''),
     (0x67, '' Protocol Independent Multicast ''),
     (0x6c, '' Compression Header protocol ''),
     (0x84, '' Stream Control Transport Protocol ''),
     (0x88, '' UDP-Lite (RFC 3828) ''),
     (0xff, '' Raw IP packets '')]"

definition parse_ip_protocol :: "u8 \<Rightarrow> u8 list" where
  "parse_ip_protocol proto =
     line (case map_of ip_protocols proto of Some s \<Rightarrow> s | None \<Rightarrow> ''unknow protocol'')"

text \<open>The IP header at offset \<open>at\<close>; the \<^verbatim>\<open>id\<close> is printed as it lies in memory.\<close>

definition parse_iphdr :: "u8 list \<Rightarrow> nat \<Rightarrow> u8 list run" where
  "parse_iphdr d at =
     run_bind (load8 d at) (\<lambda>ver_ihl. run_bind (load8 d (at + 1)) (\<lambda>tos.
     run_bind (load16 d (at + 2)) (\<lambda>tot_len. run_bind (load16 d (at + 4)) (\<lambda>id.
     run_bind (load16 d (at + 6)) (\<lambda>frag_off. run_bind (load8 d (at + 8)) (\<lambda>ttl.
     run_bind (load8 d (at + 9)) (\<lambda>protocol. run_bind (load32 d (at + 12)) (\<lambda>saddr.
     run_bind (load32 d (at + 16)) (\<lambda>daddr.
     Ret (ascii ''ip_version:'' @ dec (unat (drop_bit 4 ver_ihl)) @ [10]
          @ ascii ''header_len:'' @ dec (unat (ver_ihl AND 0xF) * 4) @ line ''B''
          @ parse_tos tos
          @ ascii ''total_len:'' @ dec (unat (htons tot_len)) @ line ''B''
          @ ascii ''id:'' @ dec (unat id) @ [10]
          @ parse_frag_off frag_off
          @ ascii ''ttl:'' @ dec (unat ttl) @ [10]
          @ parse_ip_protocol protocol
          @ ascii ''saddr:'' @ inet_ntoa saddr @ [32, 9]
          @ ascii ''daddr:'' @ inet_ntoa daddr @ [10]))))))))))"

text \<open>\<^verbatim>\<open>ntohs(tcph->seq)\<close>: the argument is cut to its low 16 bits first.\<close>

definition ntohs_of_32 :: "u32 \<Rightarrow> u16" where
  "ntohs_of_32 v = htons (ucast v)"

definition flag :: "nat \<Rightarrow> u8 \<Rightarrow> u8 list" where
  "flag i b = dec (if bit b i then 1 else 0)"

definition parse_tcphdr :: "u8 list \<Rightarrow> nat \<Rightarrow> u8 list run" where
  "parse_tcphdr d at =
     run_bind (load16 d at) (\<lambda>source. run_bind (load16 d (at + 2)) (\<lambda>dest.
     run_bind (load32 d (at + 4)) (\<lambda>seq. run_bind (load32 d (at + 8)) (\<lambda>ack_seq.
     run_bind (load8 d (at + 12)) (\<lambda>off. run_bind (load8 d (at + 13)) (\<lambda>fl.
     run_bind (load16 d (at + 14)) (\<lambda>window. run_bind (load16 d (at + 16)) (\<lambda>check.
     run_bind (load16 d (at + 18)) (\<lambda>urg_ptr.
     Ret (ascii ''Source port:'' @ dec (unat (htons source)) @ ascii ''    ''
          @ ascii ''dest   port:'' @ dec (unat (htons dest)) @ [10]
          @ ascii ''seq : '' @ dec (unat (ntohs_of_32 seq)) @ ascii ''    ''
          @ ascii ''ack seq : '' @ dec (unat (ntohs_of_32 ack_seq)) @ [10]
          @ ascii ''tcp header len:'' @ dec (unat (drop_bit 4 off) * 4) @ [10]
          @ ascii ''URG:'' @ flag 5 fl @ ascii '' ACK:'' @ flag 4 fl @ ascii '' PSH:'' @ flag 3 fl
          @ ascii '' RST:'' @ flag 2 fl @ ascii '' SYN:'' @ flag 1 fl @ ascii '' FIN:'' @ flag 0 fl @ [10]
          @ ascii ''window:'' @ dec (unat window) @ ascii ''    ''
          @ ascii ''Checksum:'' @ hex (unat check) @ [32, 10]
          @ ascii ''Urgent Pointer:'' @ dec (unat urg_ptr) @ [10]))))))))))"

definition mac_types :: "(u16 \<times> string) list" where
  "mac_types =
    [(0x60, '' Ethernet Loopback packet ''),
     (0x200, '' Xerox PUP packet     ''),
     (0x201, '' Xerox PUP Addr Trans packet  ''),
     (0x800, '' Internet Protocol packet ''),
     (0x805, '' CCITT X.25           ''),
     (0x806, '' Address Resolution packet    ''),
     (0x8ff, '' G8BPQ AX.25 Ethernet Packet  [ NOT AN OFFICIALLY REGISTERED ID ] ''),
     (0xa00, '' Xerox IEEE802.3 PUP packet ''),
     (0xa01, '' Xerox IEEE802.3 PUP Addr Trans packet ''),
     (0x6000, '' DEC Assigned proto           ''),
     (0x6001, '' DEC DNA Dump/Load            ''),
     (0x6002, '' DEC DNA Remote Console       ''),
     (0x6003, '' DEC DNA Routing              ''),
     (0x6004, '' DEC LAT                      ''),
     (0x6005, '' DEC Diagnostics              ''),
     (0x6006, '' DEC Customer use             ''),
     (0x6007, '' DEC Systems Comms Arch       ''),
     (0x6558, '' Trans Ether Bridging     ''),
     (0x8035, '' Reverse Addr Res packet  ''),
     (0x809b, '' Appletalk DDP        ''),
     (0x80f3, '' Appletalk AARP       ''),
     (0x8100, '' 802.1Q VLAN Extended Header  ''),
     (0x8137, '' IPX over DIX         ''),
     (0x86dd, '' IPv6 over bluebook       ''),
     (0x8808, '' IEEE Pause frames. See 802.3 31B ''),
     (0x8809, '' Slow Protocol. See 802.3ad 43B ''),
     (0x883e, '' Web-cache coordination protocol defined in draft-wilson-wrec-wccp-v2-00.txt ''),
     (0x8863, '' PPPoE discovery messages     ''),
     (0x8847, '' MPLS Unicast traffic     ''),
     (0x8848, '' MPLS Multicast traffic   ''),
     (0x884c, '' MultiProtocol Over ATM   ''),
     (0x8884, '' Frame-based ATM Transportover Ethernet ''),
     (0x888e, '' Port Access Entity (IEEE 802.1X) ''),
     (0x88a2, '' ATA over Ethernet        ''),
     (0x88ca, '' TIPC             ''),
     (0x88f7, '' IEEE 1588 Timesync ''),
     (0x8906, '' Fibre Channel over Ethernet  ''),
     (0x8914, '' FCoE Initialization Protocol ''),
     (0xdada, '' Ethertype DSA [ NOT AN OFFICIALLY REGISTERED ID ] ''),
     (0x1, '' Dummy type for 802.3 frames  ''),
     (0x2, '' Dummy protocol id for AX.25  ''),
     (0x3, '' Every packet (be careful!!!) ''),
     (0x4, '' 802.2 frames         ''),
     (0x5, '' Internal only        ''),
     (0x6, '' DEC DDCMP: Internal only     ''),
     (0x7, '' Dummy type for WAN PPP frames''),
     (0x8, '' Dummy type for PPP MP frames ''),
     (0x9, '' Localtalk pseudo type    ''),
     (0xc, '' Controller Area Network      ''),
     (0x10, '' Dummy type for Atalk over PPP''),
     (0x11, '' 802.2 frames         ''),
     (0x15, '' Mobitex (kaz@cafe.net)   ''),
     (0x16, '' Card specific control frames ''),
     (0x17, '' Linux-IrDA           ''),
     (0x18, '' Acorn Econet         ''),
     (0x19, '' HDLC frames          ''),
     (0x1a, '' 1A for ArcNet :-)            ''),
     (0x1b, '' Distributed Switch Arch. ''),
     (0x1c, '' Trailer switch tagging   ''),
     (0xf5, '' Nokia Phonet frames          ''),
     (0xf6, '' IEEE802.15.4 frame       '')]"

definition parse_mac_type :: "u16 \<Rightarrow> u8 list" where
  "parse_mac_type h_proto = line (case map_of mac_types h_proto of Some s \<Rightarrow> s | None \<Rightarrow> ''unknow type'')"

section \<open>A frame\<close>

definition mac_text :: "u8 list \<Rightarrow> u8 list" where
  "mac_text m = print_02X (m ! 0) @ 58 # print_02X (m ! 1) @ 58 # print_02X (m ! 2) @ 58 # print_02X (m ! 3)
     @ 58 # print_02X (m ! 4) @ 58 # print_02X (m ! 5)"

definition printf_mac_info :: "u8 list \<Rightarrow> u8 list run" where
  "printf_mac_info d =
     run_bind (get_bytes d 0 6) (\<lambda>h_dest. run_bind (get_bytes d 6 6) (\<lambda>h_source.
     run_bind (load16 d 12) (\<lambda>h_proto.
     Ret (ascii ''DMAC:'' @ mac_text h_dest @ [10] @ ascii ''SMAC:'' @ mac_text h_source @ [10]
          @ parse_mac_type (htons h_proto)))))"

definition parse_full_packet :: "u8 list \<Rightarrow> u8 list run" where
  "parse_full_packet d =
     run_bind (printf_mac_info d) (\<lambda>mac.
     run_bind (load16 d 12) (\<lambda>h_proto.
     if h_proto = htons 0x800
     then run_bind (parse_iphdr d 14) (\<lambda>ip.
          run_bind (load8 d (14 + 9)) (\<lambda>protocol.
          if protocol = 6
          then run_bind (load8 d 14) (\<lambda>ver_ihl.
               run_bind (parse_tcphdr d (14 + unat (ver_ihl AND 0xF) * 4)) (\<lambda>tcp. Ret (mac @ ip @ tcp)))
          else Ret (mac @ ip)))
     else Ret mac))"

text \<open>The loop of \<^verbatim>\<open>print_packet\<close> from index \<open>i\<close> on, with \<open>n\<close> bytes to go.\<close>

fun dump_from :: "u8 list \<Rightarrow> nat \<Rightarrow> nat \<Rightarrow> u8 list run" where
  "dump_from d i 0 = Ret []"
| "dump_from d i (Suc n) =
     run_bind (load8 d i) (\<lambda>b.
     run_bind (dump_from d (Suc i) n) (\<lambda>rest.
     Ret ((if i = 0 \<or> i mod 16 \<noteq> 0 then print_02x b @ [32] else 10 # print_02x b @ [32]) @ rest)))"

definition print_packet :: "u8 list \<Rightarrow> int \<Rightarrow> u8 list run" where
  "print_packet d size' = run_bind (dump_from d 0 (nat size')) (\<lambda>t. Ret (t @ [10]))"

section \<open>Reading a dump back\<close>

text \<open>Two hexadecimal digits and a space per byte; newlines are skipped.\<close>

fun undump :: "u8 list \<Rightarrow> u8 list" where
  "undump (a # b # c # rest) =
     (if a = 10 then undump (b # c # rest) else of_nat (number 16 [a, b]) # undump rest)"
| "undump _ = []"

lemma hex_low_digit: "n < 16 \<Longrightarrow> digit 16 (hex_low n) = Some n \<and> hex_low n \<noteq> 10 \<and> hex_low n \<noteq> 32"
proof -
  have "\<forall>n\<in>set [0..<16]. digit 16 (hex_low n) = Some n \<and> hex_low n \<noteq> 10 \<and> hex_low n \<noteq> 32" by code_simp
  then show "n < 16 \<Longrightarrow> digit 16 (hex_low n) = Some n \<and> hex_low n \<noteq> 10 \<and> hex_low n \<noteq> 32" by simp
qed

lemma undump_byte:
  "undump (print_02x b @ 32 # rest) = b # undump rest" "undump (10 # print_02x b @ 32 # rest) = b # undump rest"
proof -
  have "unat b < 2 ^ LENGTH(8)" by (rule unsigned_less)
  then have "unat b div 16 < 16" "unat b mod 16 < 16" by auto
  from this [THEN hex_low_digit] show "undump (print_02x b @ 32 # rest) = b # undump rest"
    "undump (10 # print_02x b @ 32 # rest) = b # undump rest"
    by (simp_all add: print_02x_def number_def)
qed

lemma dump_from_ok:
  assumes "i + n \<le> length d"
  shows "\<exists>t. dump_from d i n = Ret t \<and> undump (t @ [10]) = take n (drop i d)
    \<and> length (filter (\<lambda>c. c = 10) t) = length (filter (\<lambda>j. j \<noteq> 0 \<and> j mod 16 = 0) [i..<i + n])"
  using assms
proof (induction n arbitrary: i)
  case (Suc n)
  have "Suc i + n \<le> length d" using Suc.prems by simp
  from Suc.IH [OF this] obtain t where t: "dump_from d (Suc i) n = Ret t" "undump (t @ [10]) = take n (drop (Suc i) d)"
    "length (filter (\<lambda>c. c = 10) t) = length (filter (\<lambda>j. j \<noteq> 0 \<and> j mod 16 = 0) [Suc i..<Suc i + n])" by blast
  have i: "i < length d" "[i..<i + Suc n] = i # [Suc i..<Suc i + n]" using Suc.prems by (simp_all add: upt_rec)
  have "unat (d ! i) < 2 ^ LENGTH(8)" by (rule unsigned_less)
  then have h: "hex_low (unat (d ! i) div 16) \<noteq> 10" "hex_low (unat (d ! i) mod 16) \<noteq> 10"
    using hex_low_digit [of "unat (d ! i) div 16"] hex_low_digit [of "unat (d ! i) mod 16"] by auto
  have l: "load8 d i = Ret (d ! i)" using i(1) by (rule loads(1))
  have e: "take (Suc n) (drop i d) = d ! i # take n (drop (Suc i) d)"
    using i(1) by (metis Cons_nth_drop_Suc take_Suc_Cons)
  show ?case unfolding dump_from.simps l run_bind.simps t(1) e i(2)
    using t(2,3) h undump_byte [of "d ! i" "t @ [10]"] by (auto simp: print_02x_def)
qed simp

section \<open>What is printed of a TCP packet\<close>

lemma parse_tcphdr_text:
  assumes "at + 20 \<le> length d"
  shows "\<exists>post. parse_tcphdr d at = Ret (ascii ''Source port:'' @ dec (unat (htons (le16 (take 2 (drop at d))))) @ ascii ''    ''
     @ ascii ''dest   port:'' @ dec (unat (htons (le16 (take 2 (drop (at + 2) d))))) @ [10] @ post)"
  using assms unfolding parse_tcphdr_def by (simp add: loads)

lemma parse_iphdr_text:
  assumes "at + 20 \<le> length d"
  shows "\<exists>pre. parse_iphdr d at = Ret (pre @ ascii ''saddr:'' @ inet_ntoa (le32 (take 4 (drop (at + 12) d))) @ [32, 9]
     @ ascii ''daddr:'' @ inet_ntoa (le32 (take 4 (drop (at + 16) d))) @ [10])"
proof -
  have "load8 d at = Ret (d ! at)" "load8 d (at + 1) = Ret (d ! (at + 1))" "load8 d (at + 8) = Ret (d ! (at + 8))"
    "load8 d (at + 9) = Ret (d ! (at + 9))" "load16 d (at + 2) = Ret (le16 (take 2 (drop (at + 2) d)))"
    "load16 d (at + 4) = Ret (le16 (take 2 (drop (at + 4) d)))" "load16 d (at + 6) = Ret (le16 (take 2 (drop (at + 6) d)))"
    "load32 d (at + 12) = Ret (le32 (take 4 (drop (at + 12) d)))" "load32 d (at + 16) = Ret (le32 (take 4 (drop (at + 16) d)))"
    using assms by (simp_all add: loads)
  then show ?thesis unfolding parse_iphdr_def by (simp only: run_bind.simps append_assoc [symmetric]) blast
qed

text \<open>Of a sequence number, the upper half is printed.\<close>

lemma seq_upper_half:
  "ntohs_of_32 (le32 [a, b, c, e]) = le16 [b, a]"
proof (rule bit_word_eqI)
  fix n assume "n < LENGTH(16)"
  then have n: "n < 16" by simp
  have b: "\<not> bit a n" "\<not> bit b n" if "8 \<le> n" for n
    using that by (auto dest: bit_imp_le_length)
  show "bit (ntohs_of_32 (le32 [a, b, c, e])) n = bit (le16 [b, a]) n"
    using n b by (cases "n < 8") (auto simp: ntohs_of_32_def htons_def le32_def le16_def bytes16_def bit_simps)
qed

lemma dump_from_short: "length d < i + n \<Longrightarrow> i \<le> length d \<Longrightarrow> dump_from d i n = Fault"
proof (induction n arbitrary: i)
  case (Suc n)
  show ?case
  proof (cases "i = length d")
    case False
    then show ?thesis using Suc.IH [of "Suc i"] Suc.prems by (simp add: loads)
  qed (simp add: load8_def get_bytes_def)
qed simp

lemma line_count: "length (filter (\<lambda>j. j \<noteq> 0 \<and> j mod 16 = 0) [0..<n]) = (n - 1) div (16::nat)"
proof (induction n)
  case (Suc n)
  show ?case
  proof (cases n)
    case (Suc m)
    then show ?thesis using Suc.IH by (auto simp: div_Suc)
  qed simp
qed simp

text \<open>A frame with two bytes in front, an IP header of 20 bytes and a complete TCP header.\<close>

definition tcp_at_36 :: "u8 list \<Rightarrow> bool" where
  "tcp_at_36 d \<longleftrightarrow> 56 \<le> length d \<and> d ! 16 AND 0xF = 5 \<and> d ! 25 = 6 \<and> le16 (take 2 (drop 14 d)) = htons 0x800"

section \<open>Properties\<close>

text \<open>C29. The hexadecimal dump of a packet loses nothing: reading the printed text back gives the bytes, the
  text has a line break after every sixteenth byte, and a size beyond the buffer faults.\<close>

theorem dump_reads_back:
  assumes "0 \<le> n"
  shows "(nat n \<le> length d \<longrightarrow> (\<exists>t. print_packet d n = Ret t \<and> undump t = take (nat n) d
            \<and> length (filter (\<lambda>c. c = 10) t) = 1 + (nat n - 1) div 16))
       \<and> (length d < nat n \<longrightarrow> print_packet d n = Fault)"
proof (intro conjI impI)
  assume "nat n \<le> length d"
  then obtain t where t: "dump_from d 0 (nat n) = Ret t" "undump (t @ [10]) = take (nat n) d"
    "length (filter (\<lambda>c. c = 10) t) = length (filter (\<lambda>j. j \<noteq> 0 \<and> j mod 16 = 0) [0..<nat n])"
    using dump_from_ok [of 0 "nat n" d] by auto
  with line_count show "\<exists>t. print_packet d n = Ret t \<and> undump t = take (nat n) d
      \<and> length (filter (\<lambda>c. c = 10) t) = 1 + (nat n - 1) div 16"
    by (simp add: print_packet_def)
next
  assume "length d < nat n"
  then show "print_packet d n = Fault" using dump_from_short [of d 0 "nat n"] by (simp add: print_packet_def)
qed

theorem dump_reads_back_witness:
  "\<exists>t. print_packet (map of_nat [0..<20]) 20 = Ret t \<and> undump t = map of_nat [0..<20] \<and> length (filter (\<lambda>c. c = 10) t) = 2"
  using dump_reads_back [of 20 "map of_nat [0..<20]"] by (simp add: numeral_2_eq_2)

text \<open>The printer and the parser read a packet alike: for a TCP packet with an IP header of 20 bytes, the
  printed addresses and ports are those that decoding finds, in the order and notation a reader expects.\<close>

theorem printer_agrees_with_parser:
  assumes "tcp_at_36 d"
  shows "\<exists>pre post. parse_full_packet (drop 2 d) = Ret (pre
     @ ascii ''saddr:'' @ inet_ntoa (src_ip d) @ [32, 9] @ ascii ''daddr:'' @ inet_ntoa (dst_ip d) @ [10]
     @ ascii ''Source port:'' @ dec (unat (htons (src_port d))) @ ascii ''    ''
     @ ascii ''dest   port:'' @ dec (unat (htons (dst_port d))) @ [10] @ post)"
proof -
  have l: "56 \<le> length d" "d ! 16 AND 0xF = 5" "d ! 25 = 6" "le16 (take 2 (drop 14 d)) = htons 0x800" "l4_at d = 36"
    using assms by (simp_all add: tcp_at_36_def l4_at_def ip_hdr_len_def)
  let ?d = "drop 2 d"
  have le: "14 + 20 \<le> length ?d" "34 + 20 \<le> length ?d" using l(1) by auto
  have "get_bytes ?d 0 6 = Ret (take 6 ?d)" "get_bytes ?d 6 6 = Ret (take 6 (drop 6 ?d))" "load16 ?d 12 = Ret (le16 (take 2 (drop 12 ?d)))"
    using l(1) by (simp_all add: get_bytes_def loads)
  then obtain mac where mac: "printf_mac_info ?d = Ret mac" unfolding printf_mac_info_def by (simp only: run_bind.simps)
  obtain pre where ip: "parse_iphdr ?d 14 = Ret (pre @ ascii ''saddr:'' @ inet_ntoa (src_ip d) @ [32, 9]
      @ ascii ''daddr:'' @ inet_ntoa (dst_ip d) @ [10])"
    using parse_iphdr_text [OF le(1)] by (auto simp: src_ip_def dst_ip_def)
  obtain post where tcp: "parse_tcphdr ?d 34 = Ret (ascii ''Source port:'' @ dec (unat (htons (src_port d))) @ ascii ''    ''
      @ ascii ''dest   port:'' @ dec (unat (htons (dst_port d))) @ [10] @ post)"
    using parse_tcphdr_text [OF le(2)] l(5) by (auto simp: src_port_def dst_port_def)
  have "load16 ?d 12 = Ret (htons 0x800)" "load8 ?d 23 = Ret 6" "load8 ?d 14 = Ret (d ! 16)"
    using l by (simp_all add: loads)
  then have "parse_full_packet ?d = Ret (mac @ (pre @ ascii ''saddr:'' @ inet_ntoa (src_ip d) @ [32, 9]
      @ ascii ''daddr:'' @ inet_ntoa (dst_ip d) @ [10]) @ ascii ''Source port:'' @ dec (unat (htons (src_port d))) @ ascii ''    ''
      @ ascii ''dest   port:'' @ dec (unat (htons (dst_port d))) @ [10] @ post)"
    using l(2) by (simp add: parse_full_packet_def mac ip tcp)
  then show ?thesis by (intro exI [of _ "mac @ pre"] exI [of _ post]) simp
qed

theorem printer_agrees_with_parser_witness:
  "\<exists>pre post. parse_full_packet (drop 2 (demo_bytes 1 11 2 22)) = Ret (pre
     @ ascii ''saddr:'' @ ascii ''10.0.0.1'' @ [32, 9] @ ascii ''daddr:'' @ ascii ''10.0.0.2'' @ [10]
     @ ascii ''Source port:'' @ ascii ''11'' @ ascii ''    '' @ ascii ''dest   port:'' @ ascii ''22'' @ [10] @ post)"
proof -
  have t: "tcp_at_36 (demo_bytes 1 11 2 22)" by code_simp
  have a: "inet_ntoa (src_ip (demo_bytes 1 11 2 22)) = ascii ''10.0.0.1''" "inet_ntoa (dst_ip (demo_bytes 1 11 2 22)) = ascii ''10.0.0.2''"
    "dec (unat (htons (src_port (demo_bytes 1 11 2 22)))) = ascii ''11''" "dec (unat (htons (dst_port (demo_bytes 1 11 2 22)))) = ascii ''22''"
    by code_simp+
  from printer_agrees_with_parser [OF t] show ?thesis unfolding a .
qed

end
