(* ===== verification/Display.thy ===== *)
theory Display
  imports Packet_Generator Packet_Manager Packet_Print
begin

text \<open>
  \<^verbatim>\<open>src/display.c\<close>: the state machine of the display loop and the numbers it shows, \<^verbatim>\<open>flow_display\<close>, and
  \<^verbatim>\<open>print_config_file\<close> of \<^verbatim>\<open>src/config.c\<close>. A table is modelled by the numbers in it, a text by its bytes.
\<close>

section \<open>One round\<close>

text \<open>The next state of \<^verbatim>\<open>sys_display\<close>, and whether the round prints the generators (state 1) or everything (state 2).\<close>

definition display_step :: "int \<Rightarrow> nat \<Rightarrow> nat \<times> bool \<times> bool" where
  "display_step screen state =
     (if state = 0 then (if screen = 1 then 2 else if screen = 0 then 1 else 0, False, False)
      else if state = 1 then (if screen = 1 then (2, False, False) else (1, True, False))
      else if state = 2 then (if screen = 0 then (1, False, False) else (2, False, True))
      else (state, False, False))"

text \<open>\<^verbatim>\<open>display_gen\<close>: the sum of the bytes sent, and the rate it prints in Mbit/s; \<open>old\<close> is the static variable.\<close>

definition display_gen :: "generator list \<Rightarrow> u64 \<Rightarrow> u64 \<times> bool \<times> u64" where
  "display_gen gs old =
     (let new = fold (\<lambda>g s. s + total_send_byte g) gs 0;
          drop_flag = (\<exists>g\<in>set gs. drop_pempty_total g \<noteq> 0 \<or> drop_qfull_total g \<noteq> 0)
      in ((new - old) div (1024 * 128), drop_flag, new))"

text \<open>A row of the table of \<^verbatim>\<open>display_gpm\<close>: for a generator its passes, the free packets and the bytes sent; for a parser
  its passes, the length of its queue and its free flows; for a manager its passes, the length of
  its queue, its free sessions and its sessions in use.\<close>

type_synonym row =
  "(u32 \<times> u64 \<times> u64) option \<times> (u32 \<times> u64 \<times> u64) option \<times> (u32 \<times> u64 \<times> u64 \<times> u32) option"

definition in_queue :: "nat intel_queue \<Rightarrow> u64" where
  "in_queue q = enqueue_count q - dequeue_count q"

definition display_row :: "generator list \<Rightarrow> parser list \<Rightarrow> manager list \<Rightarrow> world \<Rightarrow> nat \<Rightarrow> row" where
  "display_row gs prs ms w i =
     (if i < length gs
      then Some (g_alive (gs ! i), in_queue (packet_pools w (g_pool (gs ! i))), total_send_byte (gs ! i)) else None,
      if i < length prs
      then Some (p_alive (prs ! i), in_queue (pqueue (prs ! i)), in_queue (flow_pools w i)) else None,
      if i < length ms
      then Some (m_alive (ms ! i), in_queue (mqueue (ms ! i)), in_queue (session_pool (ms ! i)), hash_count (ms ! i)) else None)"

text \<open>\<^verbatim>\<open>display_gpm\<close>: the rows, the bytes since the last call and the rate, and the new value of the static variable. The
  array \<^verbatim>\<open>send_bytes\<close> has 36 places.\<close>

definition display_gpm ::
    "generator list \<Rightarrow> parser list \<Rightarrow> manager list \<Rightarrow> world \<Rightarrow> nat \<Rightarrow> u64 \<Rightarrow> (row list \<times> u64 \<times> u64 \<times> u64) run" where
  "display_gpm gs prs ms w maximum old =
     (if 36 < length gs then Fault
      else let new = fold (\<lambda>g s. s + total_send_byte g) gs 0
           in Ret (map (display_row gs prs ms w) [0..<maximum], new - old, (new - old) div (1024 * 1024) * 8, new))"

section \<open>The loop\<close>

text \<open>What a round shows, by the state it starts in and the configuration it finds. \<open>file k\<close> is the result of \<^verbatim>\<open>stat\<close> and
  the content of the configuration file in round \<open>k\<close>; \<open>None\<close> as result: the process ended in \<^verbatim>\<open>read_config_simple\<close>.\<close>

fun display_rounds ::
    "(nat \<Rightarrow> int option \<times> u8 list option) \<Rightarrow> nat \<Rightarrow> nat \<Rightarrow> nat \<Rightarrow> int \<times> sim_config \<Rightarrow> (bool \<times> bool) list option" where
  "display_rounds files k 0 state s = Some []"
| "display_rounds files k (Suc n) state s =
     (let (state', shown) = display_step (screen_display (snd s)) state
      in case read_config_simple (fst (files k)) (snd (files k)) s of
           None \<Rightarrow> None
         | Some s' \<Rightarrow> map_option ((#) shown) (display_rounds files (Suc k) n state' s'))"

text \<open>\<^verbatim>\<open>int count = 100; while (count--)\<close>, and then \<^verbatim>\<open>exit(0)\<close>.\<close>

definition sys_display :: "(nat \<Rightarrow> int option \<times> u8 list option) \<Rightarrow> int \<times> sim_config \<Rightarrow> (bool \<times> bool) list option" where
  "sys_display files s = display_rounds files 0 100 0 s"

definition display_maximum :: "generator list \<Rightarrow> parser list \<Rightarrow> manager list \<Rightarrow> nat" where
  "display_maximum gs prs ms = max (max (length gs) (length prs)) (length ms)"

section \<open>Texts\<close>

text \<open>The ports have 32 bits in a flow; \<^verbatim>\<open>ntohs\<close> cuts them to 16.\<close>

definition flow_display :: "flow_item \<Rightarrow> u8 list" where
  "flow_display flow =
     ascii ''upper ip:'' @ inet_ntoa (upper_ip flow) @ [32, 9] @ ascii ''lower ip:'' @ inet_ntoa (lower_ip flow) @ [32, 10]
     @ ascii ''upper port:'' @ dec (unat (ntohs_of_32 (upper_port flow))) @ [32, 9]
     @ ascii ''lower port:'' @ dec (unat (ntohs_of_32 (lower_port flow))) @ [32, 10]"

text \<open>\<^verbatim>\<open>%d\<close> for a 32-bit word.\<close>

definition print_signed :: "int \<Rightarrow> u8 list" where
  "print_signed n = (if n < 0 then 45 # dec (nat (- n)) else dec (nat n))"

text \<open>\<^verbatim>\<open>pkt_data\<close> is passed to \<^verbatim>\<open>%s\<close> whatever it is: a null pointer faults.\<close>

definition print_config_file :: "sim_config \<Rightarrow> u8 list run" where
  "print_config_file config =
     (case pkt_data config of None \<Rightarrow> Fault
      | Some text' \<Rightarrow> Ret (
          (if cfg_protocol config = 6 then line ''protocol:tcp''
           else if cfg_protocol config = 17 then line ''protocol:udp'' else [])
          @ ascii ''srcmac:'' @ ether_etoa (srcmac config) @ [10] @ ascii ''dstmac:'' @ ether_etoa (dstmac config) @ [10]
          @ ascii ''srcipaddr.min:'' @ inet_ntoa (htonl (saddr_min config)) @ [9]
          @ ascii ''srcipaddr.max:'' @ inet_ntoa (htonl (saddr_max config)) @ [10]
          @ ascii ''dstipaddr.min:'' @ inet_ntoa (htonl (daddr_min config)) @ [9]
          @ ascii ''dstipaddr.max:'' @ inet_ntoa (htonl (daddr_max config)) @ [10]
          @ ascii ''sport_min:'' @ print_signed (sint (sport_min config)) @ ascii '',sport_max:'' @ print_signed (sint (sport_max config)) @ [10]
          @ ascii ''dport_min:'' @ print_signed (sint (dport_min config)) @ ascii '',dport_max:'' @ print_signed (sint (dport_max config)) @ [10]
          @ ascii ''pktlen:'' @ print_signed (pktlen config) @ [10]
          @ ascii ''speed:'' @ print_signed (sint (speed config)) @ [10]
          @ ascii ''pkt_data:'' @ text' @ [10]
          @ ascii ''period:'' @ print_signed (sint (period config)) @ [10]
          @ ascii ''num_workers:'' @ print_signed (generator_nums config) @ [10]))"

section \<open>What the loop shows\<close>

lemma display_rounds_length: "display_rounds files k n state s = Some shown \<Longrightarrow> length shown = n"
  by (induction files k n state s arbitrary: shown rule: display_rounds.induct) (auto split: prod.splits option.splits)

text \<open>While the file does not change, the loop settles after one round.\<close>

lemma display_settles:
  assumes "\<And>k. fst (files k) = None" "screen_display (snd s) = (if all then 1 else 0)"
  shows "display_rounds files k n (if all then 2 else 1) s = Some (replicate n (\<not> all, all))"
    and "display_rounds files k (Suc n) 0 s = Some ((False, False) # replicate n (\<not> all, all))"
proof -
  have r: "read_config_simple (fst (files k)) (snd (files k)) s = Some s" for k
    using assms(1) by (simp add: read_config_simple_def split: prod.split)
  show "display_rounds files k n (if all then 2 else 1) s = Some (replicate n (\<not> all, all))" for k
    by (induction n arbitrary: k) (use assms(2) r in \<open>auto simp: display_step_def\<close>)
  then show "display_rounds files k (Suc n) 0 s = Some ((False, False) # replicate n (\<not> all, all))"
    using assms(2) r by (auto simp: display_step_def)
qed

text \<open>A port that was stored as a 16-bit word is printed in host order.\<close>

lemma flow_display_port: "ntohs_of_32 (ucast (v :: u16)) = htons v"
proof -
  have "(ucast (ucast v :: u32) :: u16) = v" by (rule bit_word_eqI) (simp add: bit_simps)
  then show ?thesis by (simp add: ntohs_of_32_def)
qed

lemma in_queue_length: "unat (in_queue q) = length (intel_list k q)"
  by (simp add: in_queue_def)

section \<open>Properties\<close>

text \<open>C22. The table of the display is right: with at most 36 generators, every number in it is the number of
  objects in the queue, the pool or the session table it stands for (the counters of a hash table
  agree with its lists), and the total is the number of bytes sent since the last call; with more
  generators the display writes beyond its array.\<close>

theorem display_is_accurate:
  assumes "\<forall>m\<in>set ms. \<exists>chs. table_inv cfg chs m"
  shows "(36 < length gs \<longrightarrow> display_gpm gs prs ms w n old = Fault)
    \<and> (length gs \<le> 36 \<longrightarrow> (\<exists>rows. display_gpm gs prs ms w n old
          = Ret (rows, (\<Sum>g\<leftarrow>gs. total_send_byte g) - old, ((\<Sum>g\<leftarrow>gs. total_send_byte g) - old) div (1024 * 1024) * 8, (\<Sum>g\<leftarrow>gs. total_send_byte g))
        \<and> length rows = n
        \<and> (\<forall>i<n. \<exists>a b c. rows ! i = (a, b, c)
            \<and> (case a of None \<Rightarrow> length gs \<le> i | Some (_, free, bytes) \<Rightarrow>
                 i < length gs \<and> unat free = length (pool_list (gs ! i) w) \<and> bytes = total_send_byte (gs ! i))
            \<and> (case b of None \<Rightarrow> length prs \<le> i | Some (_, queued, free) \<Rightarrow>
                 i < length prs \<and> unat queued = length (queue_list (prs ! i))
                 \<and> unat free = length (intel_list LG2_CAPACITY (flow_pools w i)))
            \<and> (case c of None \<Rightarrow> length ms \<le> i | Some (_, queued, free, sessions) \<Rightarrow>
                 i < length ms \<and> unat queued = length (intel_list LG2_CAPACITY (mqueue (ms ! i)))
                 \<and> unat free = length (intel_list MANAGER_POOL (session_pool (ms ! i)))
                 \<and> unat sessions = card (dom (session_of (ms ! i)))))))"
proof -
  have f: "fold (\<lambda>g s. s + total_send_byte g) gs a = a + (\<Sum>g\<leftarrow>gs. total_send_byte g)" for a :: u64 and gs :: "generator list"
    by (induction gs arbitrary: a) (simp_all add: ac_simps)
  have h: "unat (hash_count (ms ! i)) = card (dom (session_of (ms ! i)))" if "i < length ms" for i
    using assms that hash_count_sessions nth_mem by blast
  show ?thesis
    unfolding display_gpm_def Let_def f by (auto simp: display_row_def in_queue_def h not_less)
qed

theorem display_is_accurate_witness:
  "\<exists>m rows. demo_started = Ret m
     \<and> display_gpm [demo_generator] [idle_parser] [m] one_packet_world 1 0 = Ret (rows, 0, 0, 0)
     \<and> (\<exists>a b q f s. rows ! 0 = (a, b, Some (m_alive m, q, f, s)) \<and> s = 0)"
proof -
  obtain m where m: "demo_started = Ret m" "table_inv demo_cfg (\<lambda>_. []) m" "session_of m = (\<lambda>_. None)"
    using demo_started_ok by blast
  have "\<forall>m\<in>set [m]. \<exists>chs. table_inv demo_cfg chs m" using m(2) by auto
  from display_is_accurate [OF this, of "[demo_generator]" "[idle_parser]" one_packet_world 1 0]
  have "\<exists>rows. display_gpm [demo_generator] [idle_parser] [m] one_packet_world 1 0 = Ret (rows, 0, 0, 0)"
    by (auto simp: demo_generator_def)
  then obtain rows where r: "display_gpm [demo_generator] [idle_parser] [m] one_packet_world 1 0 = Ret (rows, 0, 0, 0)" by blast
  then have "rows = [display_row [demo_generator] [idle_parser] [m] one_packet_world 0]"
    by (simp add: display_gpm_def Let_def)
  moreover have "unat (hash_count m) = 0" using hash_count_sessions [OF m(2)] m(3) by simp
  then have "hash_count m = 0" by (simp only: unat_eq_zero)
  ultimately show ?thesis using m(1) r by (auto simp: display_row_def)
qed

end
