(* ===== verification/Loss_Report.thy ===== *)
theory Loss_Report
  imports Config_File
begin

unbundle bit_operations_syntax

text \<open>
  \<^verbatim>\<open>src/lossratio.c\<close>: the counters of lost packets and the thread that reports them to a client over a
  stream socket. The results of the system calls (\<^verbatim>\<open>socket\<close>, \<^verbatim>\<open>bind\<close>, \<^verbatim>\<open>listen\<close>, \<^verbatim>\<open>connect\<close>, \<^verbatim>\<open>accept\<close>, \<^verbatim>\<open>read\<close>,
  \<^verbatim>\<open>write\<close>) are arguments; an endless loop is modelled by one pass. A buffer is the list of its bytes.
\<close>

section \<open>The counters\<close>

record drop_t =
  drop_cause_generator_pool_empty :: u64
  drop_cause_parser_queue_full :: u64
  drop_cause_parser_pool_empty :: u64
  drop_cause_unsupport_protocol :: u64
  drop_cause_empty_payload :: u64
  drop_cause_manager_pool_empty :: u64
  send_total :: u64

text \<open>The bytes of the struct: seven 64-bit fields without padding, low byte first.\<close>

definition bytes64 :: "u64 \<Rightarrow> u8 list" where
  "bytes64 v = map (\<lambda>i. ucast (drop_bit (8 * i) v)) [0..<8]"

definition le64 :: "u8 list \<Rightarrow> u64" where
  "le64 bs = foldr (\<lambda>b v. ucast b OR push_bit 8 v) bs 0"

definition drop_bytes :: "drop_t \<Rightarrow> u8 list" where
  "drop_bytes d =
     bytes64 (drop_cause_generator_pool_empty d) @ bytes64 (drop_cause_parser_queue_full d)
     @ bytes64 (drop_cause_parser_pool_empty d) @ bytes64 (drop_cause_unsupport_protocol d)
     @ bytes64 (drop_cause_empty_payload d) @ bytes64 (drop_cause_manager_pool_empty d) @ bytes64 (send_total d)"

definition drop_of :: "u8 list \<Rightarrow> drop_t" where
  "drop_of bs = (let f = \<lambda>i. le64 (take 8 (drop (8 * i) bs)) in
     \<lparr>drop_cause_generator_pool_empty = f 0, drop_cause_parser_queue_full = f 1, drop_cause_parser_pool_empty = f 2,
      drop_cause_unsupport_protocol = f 3, drop_cause_empty_payload = f 4, drop_cause_manager_pool_empty = f 5,
      send_total = f 6\<rparr>)"

section \<open>Opening the sockets\<close>

text \<open>The calls with an effect on the system that are made on the way out.\<close>

datatype call = Close int | Unlink

definition create_ipc_client :: "int \<Rightarrow> int \<Rightarrow> int \<times> call list" where
  "create_ipc_client connect_fd ret =
     (if connect_fd < 0 then (1, [])
      else if ret = - 1 then (1, [Close connect_fd])
      else (connect_fd, []))"

definition create_ipc_server :: "int \<Rightarrow> int \<Rightarrow> int \<Rightarrow> int \<times> call list" where
  "create_ipc_server listen_fd bind_ret listen_ret =
     (if listen_fd < 0 then (1, [])
      else if bind_ret = - 1 then (1, [Unlink, Close listen_fd, Unlink])
      else if listen_ret = - 1 then (1, [Unlink, Close listen_fd, Unlink])
      else (listen_fd, [Unlink]))"

section \<open>The server\<close>

definition BUF_SIZE :: nat where "BUF_SIZE = 1024"

text \<open>The loop and \<^verbatim>\<open>atoi\<close> read on until they find a digit and then a byte that is none.\<close>

definition get_update_speed :: "u8 list \<Rightarrow> int run" where
  "get_update_speed buf =
     (let rest = dropWhile (\<lambda>c. \<not> is_digit 10 c) buf
      in if rest = [] \<or> dropWhile (is_digit 10) rest = [] then Fault else Ret (atoi rest))"

text \<open>\<^verbatim>\<open>read\<close> into a buffer: \<open>None\<close> is an error, which leaves the buffer as it is.\<close>

definition read_into :: "u8 list \<Rightarrow> u8 list option \<Rightarrow> u8 list" where
  "read_into buf r = (case r of None \<Rightarrow> buf | Some bs \<Rightarrow> take BUF_SIZE bs @ drop (length (take BUF_SIZE bs)) buf)"

definition sync_req :: "u8 list" where "sync_req = ascii ''SYN_REQ''"

text \<open>The start of \<^verbatim>\<open>process_ipc_request\<close>: the buffer it writes, and the interval it reads from the answer. The
  statement after \<^verbatim>\<open>if (strstr(...) != NULL);\<close> is executed whatever the answer is. \<open>junk\<close> is what the
  uninitialised buffer holds.\<close>

definition process_ipc_request :: "u8 list \<Rightarrow> u8 list option \<Rightarrow> (u8 list \<times> int) run" where
  "process_ipc_request junk answer =
     (let recv_buf = sync_req @ [0] @ drop (length sync_req + 1) junk
      in run_bind (get_update_speed (read_into recv_buf answer)) (\<lambda>interval. Ret (recv_buf, interval)))"

text \<open>One pass of its loop: the bytes written, and the time it sleeps unless the write failed.\<close>

definition report_pass :: "drop_t \<Rightarrow> int \<Rightarrow> int \<Rightarrow> u8 list \<times> u32 option" where
  "report_pass global_loss interval result =
     (drop_bytes global_loss, if result < 0 then None else Some (word_of_int (interval * 1000)))"

text \<open>The server hands every connection to a thread through the address of one variable, which the thread
  reads when it starts.\<close>

record server =
  com_fd :: int
  listening :: bool
  starting :: nat
  served :: "int list"

definition accept_pass :: "int \<Rightarrow> server \<Rightarrow> server" where
  "accept_pass fd s =
     (let s = s\<lparr>com_fd := fd\<rparr>
      in if fd < 0 then s\<lparr>listening := False\<rparr> else s\<lparr>starting := starting s + 1\<rparr>)"

definition thread_starts :: "server \<Rightarrow> server" where
  "thread_starts s = (if starting s = 0 then s
     else s\<lparr>starting := starting s - 1, served := served s @ [com_fd s]\<rparr>)"

section \<open>The client\<close>

text \<open>\<^verbatim>\<open>sprintf("%d")\<close>.\<close>

definition print_d :: "int \<Rightarrow> u8 list" where
  "print_d n = (if n < 0 then 45 # dec (nat (- n)) else dec (nat n))"

text \<open>The answer of \<^verbatim>\<open>start_ipc_client\<close> to the bytes it reads first; \<open>None\<close>: they are no request.\<close>

definition client_answer :: "int \<Rightarrow> u8 list option \<Rightarrow> u8 list option" where
  "client_answer update_speed r =
     (let snd_buf = read_into (replicate BUF_SIZE 0) r
      in if takeWhile (\<lambda>c. c \<noteq> 0) snd_buf = sync_req
         then Some (let msg = ascii ''SYN_OK:SET_SPEED:'' @ print_d update_speed
                    in msg @ replicate (BUF_SIZE - length msg) 0)
         else None)"

text \<open>One pass of its loop. A failed read gives \<^verbatim>\<open>memcpy\<close> the length \<open>-1\<close>, and a read of more bytes than the
  struct has overruns it: both fault. \<open>None\<close>: the connection was closed.\<close>

definition client_pass :: "u8 list option \<Rightarrow> drop_t \<Rightarrow> drop_t option run" where
  "client_pass r global_loss =
     (case r of None \<Rightarrow> Fault
      | Some recv \<Rightarrow>
          if recv = [] then Ret None
          else if length (drop_bytes global_loss) < length recv then Fault
          else Ret (Some (drop_of (recv @ drop (length recv) (drop_bytes global_loss)))))"

section \<open>The ratio\<close>

definition drop_sum :: "drop_t \<Rightarrow> u64" where
  "drop_sum d = drop_cause_generator_pool_empty d + drop_cause_parser_queue_full d + drop_cause_parser_pool_empty d
     + drop_cause_unsupport_protocol d + drop_cause_empty_payload d + drop_cause_manager_pool_empty d"

text \<open>The operands of the division: the second is the distance of the two pointers, in structs.\<close>

definition drop_ratio :: "drop_t \<times> int \<Rightarrow> drop_t \<times> int \<Rightarrow> u64 \<times> int" where
  "drop_ratio new old =
     (let old_drop = drop_sum (fst old); new_drop = drop_sum (fst new)
      in (new_drop - old_drop, (snd new - snd old) div 56))"

section \<open>Encoding\<close>

lemma length_bytes64 [simp]: "length (bytes64 v) = 8"
  by (simp add: bytes64_def)

lemma bit_le64:
  "bit (le64 bs) n \<longleftrightarrow> n < 64 \<and> n div 8 < length bs \<and> bit (bs ! (n div 8)) (n mod 8)"
proof (induction bs arbitrary: n)
  case (Cons b bs)
  have e: "le64 (b # bs) = ucast b OR push_bit 8 (le64 bs)" by (simp add: le64_def)
  show ?case
  proof (cases "n < 8")
    case True
    then show ?thesis unfolding e by (auto simp: bit_simps)
  next
    case False
    then have d: "n div 8 = Suc ((n - 8) div 8)" "n mod 8 = (n - 8) mod 8" by (simp_all add: le_div_geq le_mod_geq)
    have "\<not> bit b n" using False by (auto dest: bit_imp_le_length)
    then show ?thesis unfolding e using False Cons [of "n - 8"] d by (auto simp: bit_simps)
  qed
qed (simp add: le64_def)

lemma le64_bytes64 [simp]: "le64 (bytes64 v) = v"
proof (rule bit_word_eqI)
  fix n assume "n < LENGTH(64)"
  then have n: "n < 64" "n div 8 < 8" by auto
  then show "bit (le64 (bytes64 v)) n = bit v n"
    unfolding bit_le64 by (simp add: bytes64_def bit_simps)
qed

lemma length_drop_bytes [simp]: "length (drop_bytes d) = 56"
  by (simp add: drop_bytes_def)

lemma drop_of_bytes [simp]: "drop_of (drop_bytes d) = d"
  by (simp add: drop_of_def drop_bytes_def Let_def)

section \<open>The handshake\<close>

lemma get_update_speed_dec:
  assumes "\<forall>c\<in>set pre. \<not> is_digit 10 c" "n < 2 ^ 31"
  shows "get_update_speed (pre @ dec n @ 0 # post) = Ret (int n)"
proof -
  obtain c cs where c: "dec n = c # cs" by (cases "dec n") auto
  have dig: "is_digit 10 x" if "x \<in> set (dec n)" for x
    using dec_digits [OF that] dec_digit_facts(1) by (auto simp: is_digit_def)
  have z: "\<not> is_digit 10 0" by (simp add: is_digit_def digit_def)
  have "dropWhile (\<lambda>c. \<not> is_digit 10 c) (pre @ dec n @ 0 # post) = dropWhile (\<lambda>c. \<not> is_digit 10 c) (dec n @ 0 # post)"
    using assms(1) by (simp add: dropWhile_append2)
  then have rest: "dropWhile (\<lambda>c. \<not> is_digit 10 c) (pre @ dec n @ 0 # post) = dec n @ 0 # post"
    using dig [of c] by (simp add: c)
  have "dropWhile (is_digit 10) (dec n @ 0 # post) = 0 # post" using dig z by (simp add: dropWhile_append2)
  moreover have "scan_number 10 (dec n @ 0 # post) = Some (False, n, 0 # post)"
    by (rule scan_dec) (simp add: stops_def z)
  moreover have "sint (word_of_int (int n) :: u32) = int n"
    unfolding signed_of_int using assms(2) by (simp add: signed_take_bit_int_eq_self)
  ultimately show ?thesis
    using assms(2) unfolding get_update_speed_def rest Let_def by (simp add: atoi_def)
qed

lemma prefix_no_digit: "\<forall>c\<in>set (ascii ''SYN_OK:SET_SPEED:''). \<not> is_digit 10 c"
  by code_simp

lemma prefix_minus_no_digit: "\<forall>c\<in>set (ascii ''SYN_OK:SET_SPEED:'' @ [45]). \<not> is_digit 10 c"
  by code_simp

lemma length_dec_10: "n < 10 ^ k \<Longrightarrow> 0 < k \<Longrightarrow> length (dec n) \<le> k"
proof (induction k arbitrary: n)
  case (Suc k)
  show ?case
  proof (cases "n < 10")
    case False
    then have "0 < k" using Suc.prems(1) by (cases k) auto
    moreover have "n div 10 < 10 ^ k" using Suc.prems(1) by auto
    ultimately show ?thesis using Suc.IH [of "n div 10"] False by (simp add: dec.simps [of n])
  qed (simp add: dec.simps [of n])
qed simp

text \<open>The bytes of the request, as the client reads them.\<close>

lemma request_recognised:
  "takeWhile (\<lambda>c. c \<noteq> 0) (read_into (replicate BUF_SIZE 0) (Some (sync_req @ [0] @ drop (length sync_req + 1) junk))) = sync_req"
proof -
  have e: "sync_req = [83, 89, 78, 95, 82, 69, 81]" unfolding sync_req_def by code_simp
  show ?thesis unfolding read_into_def e by (simp add: BUF_SIZE_def)
qed

lemma answer_parsed:
  assumes "- (2 ^ 31) < n" "n < 2 ^ 31" "length buf = BUF_SIZE"
  defines "msg \<equiv> ascii ''SYN_OK:SET_SPEED:'' @ print_d n"
  shows "length (msg @ replicate (BUF_SIZE - length msg) 0) = BUF_SIZE"
    and "get_update_speed (read_into buf (Some (msg @ replicate (BUF_SIZE - length msg) 0))) = Ret \<bar>n\<bar>"
proof -
  have a: "nat \<bar>n\<bar> < 2 ^ 31" using assms(1,2) by (simp add: nat_less_iff abs_less_iff)
  then have "length (dec (nat \<bar>n\<bar>)) \<le> 10" by (intro length_dec_10) simp_all
  then have "length (print_d n) \<le> 11" by (simp add: print_d_def abs_if split: if_splits)
  moreover have "length (ascii ''SYN_OK:SET_SPEED:'') = 17" by (simp add: ascii_def)
  ultimately have l: "length msg \<le> 28" by (simp add: msg_def)
  then show len: "length (msg @ replicate (BUF_SIZE - length msg) 0) = BUF_SIZE" by (simp add: BUF_SIZE_def)
  then have r: "read_into buf (Some (msg @ replicate (BUF_SIZE - length msg) 0)) = msg @ replicate (BUF_SIZE - length msg) 0"
    using assms(3) by (simp add: read_into_def)
  obtain k where k: "BUF_SIZE - length msg = Suc k" using l by (cases "BUF_SIZE - length msg") (auto simp: BUF_SIZE_def)
  obtain pre where pre: "msg = pre @ dec (nat \<bar>n\<bar>)" "\<forall>c\<in>set pre. \<not> is_digit 10 c"
  proof (cases "n < 0")
    case True
    then show ?thesis using that [of "ascii ''SYN_OK:SET_SPEED:'' @ [45]"] prefix_minus_no_digit by (simp add: msg_def print_d_def abs_if)
  next
    case False
    then show ?thesis using that [of "ascii ''SYN_OK:SET_SPEED:''"] prefix_no_digit by (simp add: msg_def print_d_def abs_if)
  qed
  show "get_update_speed (read_into buf (Some (msg @ replicate (BUF_SIZE - length msg) 0))) = Ret \<bar>n\<bar>"
    unfolding r unfolding k using get_update_speed_dec [OF pre(2) a, of "replicate k 0"] pre(1) by simp
qed

section \<open>The report\<close>

lemma client_reads_one: "client_pass (Some (drop_bytes d)) old = Ret (Some d)"
proof -
  have "drop_bytes d \<noteq> []" using length_drop_bytes [of d] by (metis list.size(3) zero_neq_numeral)
  then show ?thesis by (simp add: client_pass_def)
qed

lemma client_reads_many: "1 < length ds \<Longrightarrow> client_pass (Some (concat (map drop_bytes ds))) old = Fault"
proof -
  assume "1 < length ds"
  then have "56 < length (concat (map drop_bytes ds))" by (simp add: length_concat comp_def sum_list_triv)
  then show ?thesis unfolding client_pass_def by (simp only: option.case length_drop_bytes if_True) (metis list.size(3) not_less_zero)
qed

text \<open>A report that is cut: the counters mix the new and the old values.\<close>

lemma client_reads_part:
  assumes "0 < n" "n \<le> 56"
  shows "client_pass (Some (take n (drop_bytes d))) old = Ret (Some (drop_of (take n (drop_bytes d) @ drop n (drop_bytes old))))"
proof -
  have "take n (drop_bytes d) \<noteq> []" using assms length_drop_bytes [of d] by (metis length_0_conv length_take min.absorb2 not_gr_zero)
  then show ?thesis using assms by (simp add: client_pass_def)
qed

text \<open>Two connections that are accepted before the first thread has read its argument: both threads serve
  the second one.\<close>

lemma accept_race:
  assumes "0 \<le> a" "0 \<le> b" "starting s = 0"
  shows "served (thread_starts (thread_starts (accept_pass b (accept_pass a s)))) = served s @ [b, b]"
  using assms by (simp add: accept_pass_def thread_starts_def Let_def)

text \<open>A failed \<^verbatim>\<open>socket\<close>, \<^verbatim>\<open>bind\<close> or \<^verbatim>\<open>listen\<close> is reported as descriptor 1, the standard output, on which the server
  then accepts.\<close>

lemma failed_server_is_stdout:
  "fd < 0 \<or> bind_ret = - 1 \<or> listen_ret = - 1 \<Longrightarrow> fst (create_ipc_server fd bind_ret listen_ret) = 1"
  by (auto simp: create_ipc_server_def)

text \<open>The ratio of two readings kept in the same variable divides by zero.\<close>

lemma ratio_of_one_variable: "snd (drop_ratio (d, a) (d', a)) = 0"
  by (simp add: drop_ratio_def)

section \<open>Properties\<close>

text \<open>The handshake: the client recognises the request of the server, whatever the rest of the server's
  buffer holds, and the server reads from its answer the interval the client asked for, without its sign.\<close>

theorem speed_handshake:
  assumes "length junk = BUF_SIZE" "- (2 ^ 31) < n" "n < 2 ^ 31"
  shows "\<exists>hello msg. client_answer n (Some hello) = Some msg \<and> process_ipc_request junk (Some msg) = Ret (hello, \<bar>n\<bar>)"
proof -
  let ?hello = "sync_req @ [0] @ drop (length sync_req + 1) junk"
  let ?m = "ascii ''SYN_OK:SET_SPEED:'' @ print_d n"
  let ?msg = "?m @ replicate (BUF_SIZE - length ?m) 0"
  have "length sync_req = 7" by (simp add: sync_req_def ascii_def)
  then have "length ?hello = BUF_SIZE" using assms(1) by (simp add: BUF_SIZE_def)
  from answer_parsed(2) [OF assms(2,3) this]
  have "process_ipc_request junk (Some ?msg) = Ret (?hello, \<bar>n\<bar>)" by (simp add: process_ipc_request_def)
  moreover have "client_answer n (Some ?hello) = Some ?msg"
    using request_recognised [of junk] by (simp add: client_answer_def Let_def)
  ultimately show ?thesis by blast
qed

theorem speed_handshake_witness:
  "\<exists>hello msg. client_answer 500 (Some hello) = Some msg \<and> process_ipc_request (replicate BUF_SIZE 7) (Some msg) = Ret (hello, 500)"
  using speed_handshake [of "replicate BUF_SIZE 7" 500] by simp

text \<open>C28. Reports over the stream: a read that returns exactly one report gives the client the server's
  counters, whatever it held before; but a stream keeps no boundaries, and a read that returns two
  or more reports, sent before the client came back to read, writes beyond the client's struct.\<close>

theorem reports_over_stream:
  assumes "1 < length ds"
  shows "client_pass (Some (fst (report_pass d interval result))) old = Ret (Some d)
    \<and> client_pass (Some (concat (map (\<lambda>d. fst (report_pass d interval result)) ds))) old = Fault"
  using client_reads_one [of d old] client_reads_many [OF assms, of old] by (simp add: report_pass_def)

definition demo_loss :: drop_t where
  "demo_loss = \<lparr>drop_cause_generator_pool_empty = 1, drop_cause_parser_queue_full = 2, drop_cause_parser_pool_empty = 3,
     drop_cause_unsupport_protocol = 4, drop_cause_empty_payload = 5, drop_cause_manager_pool_empty = 6, send_total = 700\<rparr>"

theorem reports_over_stream_witness:
  "client_pass (Some (fst (report_pass demo_loss 500 56))) demo_loss = Ret (Some demo_loss)
   \<and> client_pass (Some (drop_bytes demo_loss @ drop_bytes demo_loss)) demo_loss = Fault"
  using reports_over_stream [of "[demo_loss, demo_loss]" demo_loss 500 56 demo_loss] by (simp add: report_pass_def)

end
