(* ===== verification/Mpipe.thy ===== *)
theory Mpipe
  imports Sim_Config
begin

unbundle bit_operations_syntax

text \<open>
  \<^verbatim>\<open>src/mpipe.c\<close>: the set-up of the network card of the Tilera build and the sending of a packet. The vendor's
  library (\<^verbatim>\<open>gxio_*\<close>, \<^verbatim>\<open>tmc_*\<close>) is the argument \<open>lib\<close>, a record of its results; addresses and sizes are 64-bit words. The
  calls whose arguments matter are collected: the pages and buffers that \<open>create_stack\<close> registers and
  pushes, and the rings and buckets that \<open>init_mpipe_rules\<close> hands to the workers.
\<close>

section \<open>Outcomes and the library\<close>

text \<open>\<open>Die\<close>: \<^verbatim>\<open>exit\<close> or \<^verbatim>\<open>tmc_task_die\<close>. \<open>Crash\<close>: a null pointer is followed, a buffer is left, or a signed result does not
  fit an \<^verbatim>\<open>int\<close>, which is undefined.\<close>

datatype 'a boot = Up 'a | Die | Crash

fun boot_bind :: "'a boot \<Rightarrow> ('a \<Rightarrow> 'b boot) \<Rightarrow> 'b boot" where
  "boot_bind (Up x) f = f x"
| "boot_bind Die f = Die"
| "boot_bind Crash f = Crash"

lemma boot_bind_Up [simp]: "boot_bind r f = Up y \<longleftrightarrow> (\<exists>x. r = Up x \<and> f x = Up y)"
  by (cases r) auto

record lib =
  link_instance :: "u8 list \<Rightarrow> int"
  mpipe_init :: "int \<Rightarrow> int"
  link_open :: "u8 list \<Rightarrow> int"
  link_channel :: int
  calloc_iqueues :: "int \<Rightarrow> u64 option"
  alloc_notif_rings :: "int \<Rightarrow> int"
  iqueue_init :: "u32 \<Rightarrow> int"
  alloc_notif_groups :: "int \<Rightarrow> int"
  alloc_buckets :: "int \<Rightarrow> int"
  alloc_edma_rings :: int
  equeue_init :: "u32 \<Rightarrow> int"
  alloc_buffer_stacks :: int
  calc_buffer_stack_bytes :: "int \<Rightarrow> u64"
  alloc_pagesize :: "u64 \<Rightarrow> u64"
  alloc_map :: "u64 \<Rightarrow> u64 option"
  init_buffer_stack :: int
  register_page :: "nat \<Rightarrow> int"
  rules_commit :: int
  sizeof_idesc :: u64
  sizeof_iqueue :: u64
  sizeof_edesc :: u64

text \<open>\<^verbatim>\<open>VERIFY(val, what)\<close>.\<close>

definition VERIFY :: "int \<Rightarrow> int boot" where
  "VERIFY val = (if val < 0 then Die else Up val)"

text \<open>A pointer that the code compares with NULL.\<close>

definition or_die :: "'a option \<Rightarrow> 'a boot" where
  "or_die p = (case p of None \<Rightarrow> Die | Some a \<Rightarrow> Up a)"

text \<open>The result of \<^verbatim>\<open>int\<close> arithmetic.\<close>

definition boot_int :: "int \<Rightarrow> int boot" where
  "boot_int i = (if int_range i then Up i else Crash)"

lemma boot_int_Up [simp]: "boot_int i = Up j \<longleftrightarrow> int_range i \<and> j = i"
  by (auto simp: boot_int_def)

section \<open>The state\<close>

record tile_config = sim_config +
  t_notif_ring_entries :: int
  t_equeue_entries :: u32
  t_per_worker_buckets :: int

record mpipe_common =
  configed :: int
  mp_link_name :: "u8 list option"
  notif_ring_entries :: int
  equeue_entries :: u32
  per_worker_buckets :: int
  num_workers :: int
  mp_instance :: int
  channel :: int
  iqueues :: "u64 list"
  ring :: u32
  mp_group :: int
  bucket :: int
  mp_num_buckets :: int
  mp_equeue :: "u64 option"
  stack_idx :: int

definition init_mpipe_config :: "tile_config \<Rightarrow> mpipe_common \<Rightarrow> mpipe_common boot" where
  "init_mpipe_config config mpipe =
     (case link_name config of None \<Rightarrow> Crash
      | Some name \<Rightarrow> Up (mpipe\<lparr>mp_link_name := Some name, notif_ring_entries := t_notif_ring_entries config,
          equeue_entries := t_equeue_entries config, per_worker_buckets := t_per_worker_buckets config,
          num_workers := generator_nums config, configed := 1\<rparr>))"

section \<open>The stack of buffers\<close>

record stack =
  st_mem :: u64
  st_bytes :: u64
  st_pages :: "u64 list"
  st_pagesize :: u64
  st_buffers :: "u64 list"

text \<open>The loop that pushes the buffers, \<open>n\<close> to go.\<close>

fun push_buffers :: "u64 \<Rightarrow> u64 \<Rightarrow> nat \<Rightarrow> u64 list" where
  "push_buffers mem size' 0 = []"
| "push_buffers mem size' (Suc n) = mem # push_buffers (mem + size') size' n"

text \<open>The loop that registers the pages.\<close>

fun register_pages :: "lib \<Rightarrow> u64 \<Rightarrow> u64 \<Rightarrow> nat \<Rightarrow> nat \<Rightarrow> u64 list boot" where
  "register_pages lb mem pagesize i 0 = Up []"
| "register_pages lb mem pagesize i (Suc n) =
     boot_bind (VERIFY (register_page lb i)) (\<lambda>_.
     boot_bind (register_pages lb mem pagesize (Suc i) n) (\<lambda>ps. Up ((mem + of_nat i * pagesize) # ps)))"

definition create_stack :: "lib \<Rightarrow> u64 \<Rightarrow> int \<Rightarrow> stack boot" where
  "create_stack lb size' num_buffers =
     (let stack_bytes = calc_buffer_stack_bytes lb num_buffers;
          stack_bytes = stack_bytes + (- stack_bytes AND 127);
          needed = stack_bytes + word_of_int num_buffers * size';
          pagesize = alloc_pagesize lb (needed div 16);
          pages = sint (ucast ((needed + pagesize - 1) div pagesize) :: u32)
      in if pagesize = 0 then Crash
         else boot_bind (or_die (alloc_map lb (word_of_int pages * pagesize))) (\<lambda>mem.
              boot_bind (VERIFY (init_buffer_stack lb)) (\<lambda>_.
              boot_bind (register_pages lb mem pagesize 0 (nat pages)) (\<lambda>ps.
              Up \<lparr>st_mem = mem, st_bytes = stack_bytes, st_pages = ps, st_pagesize = pagesize,
                  st_buffers = push_buffers (mem + stack_bytes) size' (nat num_buffers)\<rparr>))))"

section \<open>Ports, queues and rules\<close>

text \<open>Every function starts with this test.\<close>

definition must_be_configed :: "mpipe_common \<Rightarrow> 'a boot \<Rightarrow> 'a boot" where
  "must_be_configed mpipe k = (if configed mpipe = 0 then Die else k)"

definition init_mpipe_common :: "lib \<Rightarrow> mpipe_common \<Rightarrow> mpipe_common boot" where
  "init_mpipe_common lb mpipe = must_be_configed mpipe
     (case mp_link_name mpipe of None \<Rightarrow> Crash
      | Some name \<Rightarrow>
          boot_bind (VERIFY (link_instance lb name)) (\<lambda>instance'.
          boot_bind (VERIFY (mpipe_init lb instance')) (\<lambda>_.
          boot_bind (VERIFY (link_open lb name)) (\<lambda>_.
          Up (mpipe\<lparr>mp_instance := instance', channel := link_channel lb\<rparr>)))))"

text \<open>The loop over the workers: the address of each queue is behind its ring.\<close>

fun init_iqueues :: "lib \<Rightarrow> u32 \<Rightarrow> u64 \<Rightarrow> u64 \<Rightarrow> nat \<Rightarrow> nat \<Rightarrow> u64 list boot" where
  "init_iqueues lb rg ring_size needed i 0 = Up []"
| "init_iqueues lb rg ring_size needed i (Suc n) =
     boot_bind (or_die (alloc_map lb needed)) (\<lambda>mem.
     boot_bind (VERIFY (iqueue_init lb (rg + of_nat i))) (\<lambda>_.
     boot_bind (init_iqueues lb rg ring_size needed (Suc i) n) (\<lambda>qs. Up ((mem + ring_size) # qs))))"

definition init_mpipe_iqueue :: "lib \<Rightarrow> mpipe_common \<Rightarrow> mpipe_common boot" where
  "init_mpipe_iqueue lb mpipe = must_be_configed mpipe
     (boot_bind (or_die (calloc_iqueues lb (num_workers mpipe))) (\<lambda>_.
      boot_bind (VERIFY (alloc_notif_rings lb (num_workers mpipe))) (\<lambda>result.
      let rg = word_of_int result;
          notif_ring_size = word_of_int (notif_ring_entries mpipe) * sizeof_idesc lb;
          needed = notif_ring_size + sizeof_iqueue lb
      in boot_bind (init_iqueues lb rg notif_ring_size needed 0 (nat (num_workers mpipe))) (\<lambda>qs.
         boot_bind (VERIFY (alloc_notif_groups lb (num_workers mpipe))) (\<lambda>grp.
         boot_bind (boot_int (num_workers mpipe * per_worker_buckets mpipe)) (\<lambda>num.
         boot_bind (VERIFY (alloc_buckets lb num)) (\<lambda>bkt.
         Up (mpipe\<lparr>iqueues := qs, ring := rg, mp_group := grp, bucket := bkt, mp_num_buckets := num\<rparr>))))))))"

definition BUFFER_SIZE_1664 :: u64 where "BUFFER_SIZE_1664 = 1664"

definition init_mpipe_equeue :: "lib \<Rightarrow> u64 option \<Rightarrow> mpipe_common \<Rightarrow> (mpipe_common \<times> stack) boot" where
  "init_mpipe_equeue lb equeue mpipe = must_be_configed mpipe
     (boot_bind (or_die equeue) (\<lambda>eq.
      boot_bind (VERIFY (alloc_edma_rings lb)) (\<lambda>edma.
      let edma_ring_size = ucast (equeue_entries mpipe) * sizeof_edesc lb
      in boot_bind (or_die (alloc_map lb edma_ring_size)) (\<lambda>mem.
         boot_bind (VERIFY (equeue_init lb (word_of_int edma))) (\<lambda>_.
         boot_bind (boot_int (num_workers mpipe * notif_ring_entries mpipe)) (\<lambda>bufs.
         let num_bufs = equeue_entries mpipe + word_of_int bufs
         in boot_bind (VERIFY (alloc_buffer_stacks lb)) (\<lambda>idx.
            boot_bind (create_stack lb BUFFER_SIZE_1664 (sint num_bufs)) (\<lambda>st.
            Up (mpipe\<lparr>mp_equeue := Some eq, stack_idx := idx\<rparr>, st)))))))))"

text \<open>What a worker is given: a group, a ring, its first bucket and the number of its buckets.\<close>

type_synonym rule = "int \<times> u32 \<times> int \<times> int"

definition worker_rule :: "mpipe_common \<Rightarrow> nat \<Rightarrow> rule boot" where
  "worker_rule mpipe i =
     boot_bind (boot_int (mp_group mpipe + int i)) (\<lambda>grp.
     boot_bind (boot_int (int i * per_worker_buckets mpipe)) (\<lambda>offset.
     boot_bind (boot_int (bucket mpipe + offset)) (\<lambda>first.
     Up (grp, ring mpipe + of_nat i, first, per_worker_buckets mpipe))))"

text \<open>The loop over the workers, from worker \<open>i\<close> on, \<open>n\<close> to go.\<close>

fun worker_rules :: "mpipe_common \<Rightarrow> nat \<Rightarrow> nat \<Rightarrow> rule list boot" where
  "worker_rules mpipe i 0 = Up []"
| "worker_rules mpipe i (Suc n) =
     boot_bind (worker_rule mpipe i) (\<lambda>r.
     boot_bind (worker_rules mpipe (Suc i) n) (\<lambda>rs. Up (r # rs)))"

definition init_mpipe_rules :: "lib \<Rightarrow> mpipe_common \<Rightarrow> rule list boot" where
  "init_mpipe_rules lb mpipe = must_be_configed mpipe
     (boot_bind (worker_rules mpipe 0 (nat (num_workers mpipe))) (\<lambda>rules.
      boot_bind (VERIFY (rules_commit lb)) (\<lambda>_. Up rules)))"

definition init_mpipe_resource :: "lib \<Rightarrow> u64 option \<Rightarrow> mpipe_common \<Rightarrow> (mpipe_common \<times> stack \<times> rule list) boot" where
  "init_mpipe_resource lb equeue mpipe =
     boot_bind (init_mpipe_common lb mpipe) (\<lambda>m1.
     boot_bind (init_mpipe_iqueue lb m1) (\<lambda>m2.
     boot_bind (init_mpipe_equeue lb equeue m2) (\<lambda>(m3, st).
     boot_bind (init_mpipe_rules lb m3) (\<lambda>rules. Up (m3, st, rules)))))"

section \<open>Sending\<close>

text \<open>\<open>popped\<close> is the buffer that the library gives, with its content; the result is what the descriptor that is
  put on the queue refers to: the address, the length, and the new content.\<close>

definition mpipe_send_packet :: "(u64 \<times> u8 list) option \<Rightarrow> u16 \<Rightarrow> u8 list \<Rightarrow> (u64 \<times> u16 \<times> u8 list) boot" where
  "mpipe_send_packet popped size' packet =
     (case popped of None \<Rightarrow> Die
      | Some (va, buffer) \<Rightarrow>
          if length buffer < unat size' \<or> length packet < unat size' then Crash
          else Up (va, size', take (unat size') packet @ drop (unat size') buffer))"

text \<open>A packet longer than the buffers of the stack is copied all the same: nothing compares the two sizes.\<close>

lemma send_overruns: "length buffer < unat size' \<Longrightarrow> mpipe_send_packet (Some (va, buffer)) size' packet = Crash"
  by (simp add: mpipe_send_packet_def)

section \<open>Alignment and sizes\<close>

lemma complement_mod:
  assumes "(a + u) mod 128 = (0::nat)"
  shows "a mod 128 = (128 - u mod 128) mod 128"
proof -
  define x y where "x = a mod 128" and "y = u mod 128"
  have m: "(x + y) mod 128 = 0" "x < 128" "y < 128" using assms by (simp_all add: x_def y_def mod_add_eq)
  then have "x = (128 - y) mod 128" by (cases "x + y < 128") (auto simp: le_mod_geq)
  then show ?thesis by (simp add: x_def y_def)
qed

lemma unat_neg_mod: "unat (- s :: u64) mod 128 = (128 - unat s mod 128) mod 128"
proof (cases "s = 0")
  case False
  have lt: "unat s < 2 ^ 64" using unsigned_less [where 'a = nat, of s] by simp
  have "unat (0 - s) = 2 ^ 64 - unat s" using False by (simp only: unat_sub_if') (simp add: unat_gt_0)
  moreover have "(2 ^ 64 - unat s) mod 128 = (128 - unat s mod 128) mod 128" using lt by (intro complement_mod) simp
  ultimately show ?thesis by simp
qed simp

lemma next_multiple: "u + (128 - u mod 128) mod 128 = (u + 127) div 128 * (128::nat)"
proof -
  define q r where "q = u div 128" and "r = u mod 128"
  have u: "u = 128 * q + r" "r < 128" by (simp_all add: q_def r_def)
  have "(128 * q + (r + 127)) div 128 = q + (r + 127) div 128" by simp
  moreover have "(r + 127) div 128 = (if r = 0 then 0 else 1)" using u(2) by (auto intro: div_nat_eqI)
  ultimately have d: "(u + 127) div 128 = (if r = 0 then q else q + 1)" unfolding u(1) by (simp add: add.assoc)
  show ?thesis unfolding d r_def [symmetric] using u by auto
qed

lemma round_up_128:
  assumes "unat (s :: u64) + 127 < 2 ^ 64"
  shows "unat (s + (- s AND 127)) = (unat s + 127) div 128 * 128"
proof -
  have "- s AND 127 = take_bit 7 (- s)" by (simp add: take_bit_eq_mask mask_eq_exp_minus_1)
  then have r: "unat (- s AND 127) = (128 - unat s mod 128) mod 128"
    using unat_neg_mod [of s] by (simp add: take_bit_eq_mod unat_mod)
  then have "unat (s + (- s AND 127)) = unat s + (128 - unat s mod 128) mod 128"
    using assms by (subst unat_add_small) auto
  also have "\<dots> = (unat s + 127) div 128 * 128" by (rule next_multiple)
  finally show ?thesis .
qed

lemma unat_mult_small: "unat (a :: u64) * unat b < 2 ^ 64 \<Longrightarrow> unat (a * b) = unat a * unat b"
  by (simp add: unat_word_ariths)

lemma unat_int_u64: "0 \<le> n \<Longrightarrow> n < 2 ^ 64 \<Longrightarrow> unat (word_of_int n :: u64) = nat n"
  by (simp add: unat_eq_nat_uint uint_word_of_int_eq take_bit_int_eq_self)

lemma small_sint: "x < 2 ^ 31 \<Longrightarrow> unat (w :: u64) = x \<Longrightarrow> sint (ucast w :: u32) = int x"
proof -
  assume x: "x < 2 ^ 31" and w: "unat w = x"
  have "unat (ucast w :: u32) = x" using x w by (simp add: unsigned_ucast_eq take_bit_nat_eq_self)
  then have "uint (ucast w :: u32) = int x" by (simp add: uint_nat)
  then show ?thesis using x by (simp add: sint_uint signed_take_bit_int_eq_self)
qed

text \<open>Rounding up to pages, with pages of at least a sixteenth of what is needed.\<close>

lemma page_count:
  assumes "0 < P" "N div 16 \<le> P"
  shows "(N + P - 1) div P < 2 ^ 31 \<and> N \<le> (N + P - 1) div P * P \<and> (N + P - 1) div P * P \<le> N + P - (1::nat)"
proof -
  have "N div 16 < P + 1" using assms(2) by simp
  then have "N < (P + 1) * 16" by (simp only: div_less_iff_less_mult zero_less_numeral)
  then have n: "N < 32 * P" using assms(1) by (cases P) auto
  define M where "M = N + P - 1"
  have M: "M + 1 = N + P" using assms(1) by (simp add: M_def)
  have "M < 34 * P" using n M by linarith
  then have "M div P < 34" using assms(1) by (simp add: less_mult_imp_div_less)
  moreover have "M = M div P * P + M mod P" "M mod P < P" using assms(1) by simp_all
  moreover from this have "N \<le> M div P * P" using M by linarith
  ultimately show ?thesis unfolding M_def [symmetric] by simp
qed

lemma length_push [simp]: "length (push_buffers mem s n) = n"
  by (induction n arbitrary: mem) auto

lemma nth_push: "i < n \<Longrightarrow> push_buffers mem s n ! i = mem + of_nat i * s"
  by (induction n arbitrary: mem i) (auto simp: nth_Cons algebra_simps split: nat.split)

lemma register_pages_Up:
  "register_pages lb mem P i n = Up ps \<Longrightarrow> length ps = n \<and> (\<forall>j<n. ps ! j = mem + of_nat (i + j) * P)"
proof (induction n arbitrary: i ps)
  case (Suc n)
  then obtain qs where qs: "register_pages lb mem P (Suc i) n = Up qs" "ps = (mem + of_nat i * P) # qs" by auto
  with Suc.IH [OF qs(1)] show ?case by (auto simp: nth_Cons ac_simps split: nat.split)
qed simp

lemma stack_needed:
  fixes S s :: u64
  assumes "0 \<le> n" "unat S + nat n * unat s < 2 ^ 63"
  shows "unat (S + word_of_int n * s) = unat S + nat n * unat s"
proof (cases "unat s = 0")
  case False
  then have "nat n \<le> nat n * unat s" by simp
  then have "nat n < 2 ^ 63" using assms(2) by linarith
  then have "unat (word_of_int n :: u64) = nat n" using assms(1) by (intro unat_int_u64) (simp_all add: nat_less_iff)
  then have "unat (word_of_int n * s) = nat n * unat s" using assms(2) by (subst unat_mult_small) auto
  then show ?thesis using assms(2) by (subst unat_add_small) auto
qed (simp add: unat_eq_zero)

lemma page_quotient:
  fixes N P :: u64
  assumes "0 < unat P" "unat N + unat P < 2 ^ 64"
  shows "unat ((N + P - 1) div P) = (unat N + unat P - 1) div unat P"
proof -
  have "unat (N + P) = unat N + unat P" using assms(2) by (simp add: unat_add_small)
  moreover have "unat (N + P - 1) = unat (N + P) - unat (1 :: u64)"
    by (rule unat_sub) (use assms(1) calculation in \<open>simp add: word_le_nat_alt\<close>)
  ultimately show ?thesis by (simp add: unat_div)
qed

lemma buffer_at:
  fixes m S s :: u64
  assumes "unat m + unat S + i * unat s + unat s < 2 ^ 64"
  shows "unat (m + S + of_nat i * s) = unat m + unat S + i * unat s"
proof (cases "unat s = 0")
  case False
  then have "i \<le> i * unat s" by simp
  then have "i < 2 ^ 64" using assms by linarith
  then have i: "unat (of_nat i :: u64) = i" by (intro unat_of_nat_small) simp
  then have "unat (of_nat i * s) = i * unat s" using assms by (subst unat_mult_small) auto
  moreover have "unat (m + S) = unat m + unat S" using assms by (intro unat_add_small) simp
  ultimately show ?thesis using assms by (subst unat_add_small) auto
qed (use assms in \<open>simp add: unat_eq_zero unat_add_small\<close>)

lemma create_stack_Up:
  assumes "create_stack lb size' n = Up st"
  obtains S N P Q mem ps where "S = calc_buffer_stack_bytes lb n + (- calc_buffer_stack_bytes lb n AND 127)"
    "N = S + word_of_int n * size'" "P = alloc_pagesize lb (N div 16)" "Q = (N + P - 1) div P"
    "alloc_map lb (word_of_int (sint (ucast Q :: u32)) * P) = Some mem"
    "register_pages lb mem P 0 (nat (sint (ucast Q :: u32))) = Up ps"
    "st = \<lparr>st_mem = mem, st_bytes = S, st_pages = ps, st_pagesize = P, st_buffers = push_buffers (mem + S) size' (nat n)\<rparr>"
proof -
  define S where "S = calc_buffer_stack_bytes lb n + (- calc_buffer_stack_bytes lb n AND 127)"
  define N where "N = S + word_of_int n * size'"
  define P where "P = alloc_pagesize lb (N div 16)"
  define Q where "Q = (N + P - 1) div P"
  have e: "create_stack lb size' n = (if P = 0 then Crash
      else boot_bind (or_die (alloc_map lb (word_of_int (sint (ucast Q :: u32)) * P))) (\<lambda>mem.
           boot_bind (VERIFY (init_buffer_stack lb)) (\<lambda>_.
           boot_bind (register_pages lb mem P 0 (nat (sint (ucast Q :: u32)))) (\<lambda>ps.
           Up \<lparr>st_mem = mem, st_bytes = S, st_pages = ps, st_pagesize = P,
               st_buffers = push_buffers (mem + S) size' (nat n)\<rparr>))))"
    unfolding create_stack_def Let_def Q_def P_def N_def S_def ..
  obtain mem ps where "alloc_map lb (word_of_int (sint (ucast Q :: u32)) * P) = Some mem"
    "register_pages lb mem P 0 (nat (sint (ucast Q :: u32))) = Up ps"
    "st = \<lparr>st_mem = mem, st_bytes = S, st_pages = ps, st_pagesize = P, st_buffers = push_buffers (mem + S) size' (nat n)\<rparr>"
    using assms unfolding e or_die_def by (auto split: if_splits option.splits)
  with that [OF S_def N_def P_def Q_def] show thesis by blast
qed

section \<open>The buckets of the workers\<close>

definition bucket_range :: "rule \<Rightarrow> int set" where
  "bucket_range = (\<lambda>(g, r, b, c). {b ..< b + c})"

lemma must_be_configed_Up [simp]: "must_be_configed m k = Up x \<longleftrightarrow> configed m \<noteq> 0 \<and> k = Up x"
  by (simp add: must_be_configed_def)

lemma worker_rules_Up:
  "worker_rules m i n = Up rules \<Longrightarrow> rules = map (\<lambda>k. (mp_group m + int k, ring m + of_nat k,
     bucket m + int k * per_worker_buckets m, per_worker_buckets m)) [i..<i + n]"
proof (induction n arbitrary: i rules)
  case (Suc n)
  then obtain r rs where "worker_rule m i = Up r" "worker_rules m (Suc i) n = Up rs" "rules = r # rs" by auto
  with Suc.IH [of "Suc i" rs] show ?case by (auto simp: worker_rule_def upt_rec)
qed simp

lemma init_mpipe_resource_Up:
  assumes "init_mpipe_resource lb equeue m = Up (m', st, rules)"
  shows "rules = map (\<lambda>k. (mp_group m' + int k, ring m' + of_nat k, bucket m' + int k * per_worker_buckets m', per_worker_buckets m'))
      [0..<nat (num_workers m)] \<and> num_workers m' = num_workers m
    \<and> per_worker_buckets m' = per_worker_buckets m \<and> mp_num_buckets m' = num_workers m * per_worker_buckets m
    \<and> num_workers m * per_worker_buckets m < 2 ^ 31"
proof -
  obtain m1 m2 where m1: "init_mpipe_common lb m = Up m1" and m2: "init_mpipe_iqueue lb m1 = Up m2"
    and m3: "init_mpipe_equeue lb equeue m2 = Up (m', st)" and r: "init_mpipe_rules lb m' = Up rules"
    using assms unfolding init_mpipe_resource_def by (auto split: prod.splits)
  have "num_workers m1 = num_workers m \<and> per_worker_buckets m1 = per_worker_buckets m"
    using m1 unfolding init_mpipe_common_def by (auto split: option.splits)
  moreover have "num_workers m2 = num_workers m1 \<and> per_worker_buckets m2 = per_worker_buckets m1
      \<and> mp_num_buckets m2 = num_workers m1 * per_worker_buckets m1 \<and> num_workers m1 * per_worker_buckets m1 < 2 ^ 31"
    using m2 unfolding init_mpipe_iqueue_def Let_def by (auto simp: int_range_def)
  moreover have "num_workers m' = num_workers m2 \<and> per_worker_buckets m' = per_worker_buckets m2 \<and> mp_num_buckets m' = mp_num_buckets m2"
    using m3 unfolding init_mpipe_equeue_def Let_def by auto
  moreover have "rules = map (\<lambda>k. (mp_group m' + int k, ring m' + of_nat k, bucket m' + int k * per_worker_buckets m', per_worker_buckets m'))
      [0..<nat (num_workers m')]"
    using r worker_rules_Up [of m' 0 "nat (num_workers m')" rules] unfolding init_mpipe_rules_def by auto
  ultimately show ?thesis by simp
qed

lemma rings_distinct:
  assumes "(rg + of_nat i :: u32) = rg + of_nat j" "i < n" "j < n" "n \<le> 2 ^ 32"
  shows "i = j"
proof -
  have "unat (of_nat i :: u32) = unat (of_nat j :: u32)" using assms(1) by simp
  then show ?thesis using assms(2-4) by (simp add: unat_of_nat_small)
qed

lemma ranges_disjoint:
  fixes b c :: int
  assumes "i \<noteq> j" "0 \<le> c"
  shows "{b + int i * c ..< b + int i * c + c} \<inter> {b + int j * c ..< b + int j * c + c} = {}"
proof -
  have "int i * c + c \<le> int j * c \<or> int j * c + c \<le> int i * c"
  proof (cases "i < j")
    case True
    then have "(int i + 1) * c \<le> int j * c" using assms(2) by (intro mult_right_mono) auto
    then show ?thesis by (simp add: distrib_right)
  next
    case False
    then have "(int j + 1) * c \<le> int i * c" using assms by (intro mult_right_mono) auto
    then show ?thesis by (simp add: distrib_right)
  qed
  then show ?thesis by auto
qed

lemma ranges_cover:
  fixes b c n x :: int
  assumes "0 \<le> n" "0 \<le> c"
  shows "b \<le> x \<and> x < b + n * c \<longleftrightarrow> (\<exists>i<nat n. b + int i * c \<le> x \<and> x < b + int i * c + c)"
proof
  assume x: "b \<le> x \<and> x < b + n * c"
  then have c: "0 < c" using assms by (cases "c = 0") auto
  let ?q = "(x - b) div c"
  have q: "?q * c \<le> x - b" "x - b < ?q * c + c" "0 \<le> ?q"
    using div_mult_mod_eq [of "x - b" c] pos_mod_bound [OF c, of "x - b"] pos_mod_sign [OF c, of "x - b"] x c
    by (linarith, linarith, simp add: pos_imp_zdiv_nonneg_iff)
  have "?q < n"
  proof (rule ccontr)
    assume "\<not> ?q < n"
    then have "n * c \<le> ?q * c" using c by (intro mult_right_mono) auto
    then show False using q(1) x by linarith
  qed
  then have "nat ?q < nat n" "b + int (nat ?q) * c \<le> x" "x < b + int (nat ?q) * c + c" using q by auto
  then show "\<exists>i<nat n. b + int i * c \<le> x \<and> x < b + int i * c + c" by blast
next
  assume "\<exists>i<nat n. b + int i * c \<le> x \<and> x < b + int i * c + c"
  then obtain i where i: "i < nat n" "b + int i * c \<le> x" "x < b + int i * c + c" by blast
  have "(int i + 1) * c \<le> n * c" using i(1) assms(2) by (intro mult_right_mono) auto
  then have "int i * c + c \<le> n * c" by (simp add: distrib_right)
  moreover have "0 \<le> int i * c" using assms(2) by simp
  ultimately show "b \<le> x \<and> x < b + n * c" using i(2,3) by (intro conjI) linarith+
qed

section \<open>Properties\<close>

text \<open>C23. The stack of buffers is set up inside the memory that was mapped for it: when the page size is at
  least what was asked for, the mapping does not wrap, and the sizes do not overflow, the area of
  the stack is a multiple of 128 bytes and large enough, the registered pages cover the mapping
  from its start, and the buffers follow the stack area one after the other, so that no two overlap,
  and end inside the mapping.\<close>

theorem stack_buffers_fit:
  assumes run: "create_stack lb size' n = Up st" and n: "0 \<le> n"
    and page: "\<forall>b. 0 < alloc_pagesize lb b \<and> b \<le> alloc_pagesize lb b"
    and map: "\<forall>b m. alloc_map lb b = Some m \<longrightarrow> unat m + unat b < 2 ^ 64"
    and small: "unat (calc_buffer_stack_bytes lb n) + 127 + nat n * unat size' + unat (st_pagesize st) < 2 ^ 63"
  shows "length (st_buffers st) = nat n
    \<and> unat (calc_buffer_stack_bytes lb n) \<le> unat (st_bytes st) \<and> 128 dvd unat (st_bytes st)
    \<and> (\<forall>i<nat n. unat (st_buffers st ! i) = unat (st_mem st) + unat (st_bytes st) + i * unat size'
         \<and> unat (st_buffers st ! i) + unat size' \<le> unat (st_mem st) + length (st_pages st) * unat (st_pagesize st))
    \<and> (\<forall>j<length (st_pages st). st_pages st ! j = st_mem st + of_nat j * st_pagesize st)"
proof -
  let ?s = "calc_buffer_stack_bytes lb n"
  obtain S N P Q mem ps where D: "S = ?s + (- ?s AND 127)" "N = S + word_of_int n * size'" "P = alloc_pagesize lb (N div 16)"
      "Q = (N + P - 1) div P"
    and R: "alloc_map lb (word_of_int (sint (ucast Q :: u32)) * P) = Some mem"
    "register_pages lb mem P 0 (nat (sint (ucast Q :: u32))) = Up ps"
    "st = \<lparr>st_mem = mem, st_bytes = S, st_pages = ps, st_pagesize = P, st_buffers = push_buffers (mem + S) size' (nat n)\<rparr>"
    by (rule create_stack_Up [OF run])
  have st: "st_pagesize st = P" "st_bytes st = S" "st_mem st = mem" "st_pages st = ps" unfolding R(3) by simp_all
  have S: "unat S = (unat ?s + 127) div 128 * 128" unfolding D(1) using small by (intro round_up_128) simp
  have "(128 - unat ?s mod 128) mod 128 < 128" by simp
  then have Sb: "unat ?s \<le> unat S" "unat S \<le> unat ?s + 127" unfolding S next_multiple [symmetric] by simp_all
  have N: "unat N = unat S + nat n * unat size'"
    unfolding D(2) by (rule stack_needed [OF n]) (use small Sb in linarith)
  have P: "0 < unat P" "unat N div 16 \<le> unat P"
    using page [rule_format, of "N div 16"] unfolding D(3) by (simp_all add: word_less_nat_alt word_le_nat_alt unat_div)
  have "unat N + unat P < 2 ^ 63" using small Sb unfolding st N by linarith
  then have sum: "unat N + unat P < 2 ^ 64" by simp
  have Q: "unat Q = (unat N + unat P - 1) div unat P" unfolding D(4) by (rule page_quotient [OF P(1) sum])
  note C = page_count [OF P, folded Q]
  have q: "sint (ucast Q :: u32) = int (unat Q)" using C by (intro small_sint) simp_all
  have len: "length ps = unat Q" "\<forall>j<unat Q. ps ! j = mem + of_nat j * P"
    using register_pages_Up [OF R(2)] by (simp_all add: q)
  have "unat Q * unat P < 2 ^ 64" using C sum by linarith
  then have "unat (Q * P) = unat Q * unat P" by (rule unat_mult_small)
  moreover have "alloc_map lb (Q * P) = Some mem" using R(1) unfolding q by simp
  ultimately have M: "unat mem + unat Q * unat P < 2 ^ 64" using map by metis
  have B: "unat (push_buffers (mem + S) size' (nat n) ! i) = unat mem + unat S + i * unat size'
      \<and> unat mem + unat S + i * unat size' + unat size' \<le> unat mem + unat Q * unat P" if i: "i < nat n" for i
  proof -
    have "(i + 1) * unat size' \<le> nat n * unat size'" using i by (intro mult_le_mono1) simp
    then have "unat S + i * unat size' + unat size' \<le> unat N" unfolding N by simp
    then have le: "unat S + i * unat size' + unat size' \<le> unat Q * unat P" using C by linarith
    have "unat (mem + S + of_nat i * size') = unat mem + unat S + i * unat size'"
      by (rule buffer_at) (use le M in linarith)
    with le show ?thesis by (simp add: nth_push [OF i])
  qed
  show ?thesis unfolding st len(1) using Sb(1) S len(2) B by (simp add: R(3))
qed

text \<open>A library that grants everything, with pages of at least 64 KB.\<close>

definition demo_lib :: lib where
  "demo_lib = \<lparr>link_instance = \<lambda>_. 0, mpipe_init = \<lambda>_. 0, link_open = \<lambda>_. 0, link_channel = 2, calloc_iqueues = \<lambda>n. if 0 \<le> n then Some 0x1000 else None,
     alloc_notif_rings = \<lambda>_. 8,
     iqueue_init = \<lambda>_. 0, alloc_notif_groups = \<lambda>_. 4, alloc_buckets = \<lambda>_. 100, alloc_edma_rings = 1, equeue_init = \<lambda>_. 0,
     alloc_buffer_stacks = 3, calc_buffer_stack_bytes = \<lambda>_. 1000, alloc_pagesize = \<lambda>b. max b 65536,
     alloc_map = \<lambda>b. if b < 0x10000000000 then Some 0x20000 else None, init_buffer_stack = 0, register_page = \<lambda>_. 0,
     rules_commit = 0, sizeof_idesc = 64, sizeof_iqueue = 256, sizeof_edesc = 16\<rparr>"

lemma demo_create:
  "create_stack demo_lib 1664 4 = Up \<lparr>st_mem = 0x20000, st_bytes = 1024, st_pages = [0x20000], st_pagesize = 65536,
     st_buffers = [0x20400, 0x20A80, 0x21100, 0x21780]\<rparr>"
  by code_simp

theorem stack_buffers_fit_witness:
  "\<exists>st. create_stack demo_lib 1664 4 = Up st \<and> (\<forall>i<4. unat (st_buffers st ! i) = 0x20400 + i * 1664)"
proof -
  let ?st = "\<lparr>st_mem = 0x20000, st_bytes = 1024, st_pages = [0x20000], st_pagesize = 65536,
     st_buffers = [0x20400, 0x20A80, 0x21100, 0x21780]\<rparr> :: stack"
  have p: "\<forall>b. 0 < alloc_pagesize demo_lib b \<and> b \<le> alloc_pagesize demo_lib b"
    by (simp add: demo_lib_def less_max_iff_disj)
  have m: "\<forall>b m. alloc_map demo_lib b = Some m \<longrightarrow> unat m + unat b < 2 ^ 64"
    by (auto simp: demo_lib_def word_less_nat_alt split: if_splits)
  have s: "unat (calc_buffer_stack_bytes demo_lib 4) + 127 + nat 4 * unat (1664 :: u64) + unat (st_pagesize ?st) < 2 ^ 63"
    by (simp add: demo_lib_def)
  from stack_buffers_fit [OF demo_create _ p m s]
  have "\<forall>i<4. unat (st_buffers ?st ! i) = 0x20400 + i * 1664" by simp
  with demo_create show ?thesis by blast
qed

definition demo_mpipe :: mpipe_common where
  "demo_mpipe = \<lparr>configed = 1, mp_link_name = Some [120, 101, 48], notif_ring_entries = 4, equeue_entries = 8,
     per_worker_buckets = 3, num_workers = 2, mp_instance = 0, channel = 0, iqueues = [], ring = 0, mp_group = 0, bucket = 0,
     mp_num_buckets = 0, mp_equeue = None, stack_idx = 0\<rparr>"

lemma demo_resource:
  "\<exists>m' st. init_mpipe_resource demo_lib (Some 1) demo_mpipe = Up (m', st, [(4, 8, 100, 3), (5, 9, 103, 3)])"
proof -
  have "(case init_mpipe_resource demo_lib (Some 1) demo_mpipe of Up (m', st, rules) \<Rightarrow> rules = [(4, 8, 100, 3), (5, 9, 103, 3)]
      | _ \<Rightarrow> False)" by code_simp
  then show ?thesis by (auto split: boot.splits)
qed

text \<open>C24. When the set-up of the card comes to its end, which no overflow of \<^verbatim>\<open>int\<close> arithmetic has done, every worker has a
  group and a ring of its own, and the buckets that were allocated are divided among the workers: no bucket
  belongs to two of them, and none is left over. A number of buckets that an \<^verbatim>\<open>int\<close> cannot hold never gets that far.\<close>

theorem workers_share_buckets:
  assumes "init_mpipe_resource lb equeue m = Up (m', st, rules)" "0 \<le> num_workers m" "num_workers m < 2 ^ 32"
    and "0 \<le> per_worker_buckets m"
  shows "length rules = nat (num_workers m) \<and> mp_num_buckets m' = num_workers m * per_worker_buckets m
    \<and> distinct (map fst rules) \<and> distinct (map (fst \<circ> snd) rules)
    \<and> (\<forall>x. bucket m' \<le> x \<and> x < bucket m' + mp_num_buckets m' \<longleftrightarrow>
         (\<exists>i<length rules. x \<in> bucket_range (rules ! i)))
    \<and> (\<forall>i<length rules. \<forall>j<length rules. i \<noteq> j \<longrightarrow> bucket_range (rules ! i) \<inter> bucket_range (rules ! j) = {})
    \<and> num_workers m * per_worker_buckets m < 2 ^ 31"
proof -
  let ?n = "nat (num_workers m)" and ?c = "per_worker_buckets m"
  have R: "rules = map (\<lambda>k. (mp_group m' + int k, ring m' + of_nat k, bucket m' + int k * ?c, ?c)) [0..<?n]"
    "num_workers m' = num_workers m" "per_worker_buckets m' = ?c" "mp_num_buckets m' = num_workers m * ?c"
    "num_workers m * ?c < 2 ^ 31"
    using init_mpipe_resource_Up [OF assms(1)] by simp_all
  have r: "bucket_range (rules ! i) = {bucket m' + int i * ?c ..< bucket m' + int i * ?c + ?c}" if "i < ?n" for i
    using that by (simp add: R(1) bucket_range_def)
  have "?n \<le> 2 ^ 32" using assms(3) by (simp add: nat_le_iff)
  then have "distinct (map (fst \<circ> snd) rules)"
    unfolding R(1) by (auto simp: distinct_map inj_on_def intro: rings_distinct)
  moreover have "distinct (map fst rules)" unfolding R(1) by (auto simp: distinct_map inj_on_def)
  moreover have "bucket_range (rules ! i) \<inter> bucket_range (rules ! j) = {}" if "i < ?n" "j < ?n" "i \<noteq> j" for i j
    unfolding r [OF that(1)] r [OF that(2)] using ranges_disjoint [OF that(3) assms(4), of "bucket m'"] .
  moreover have "bucket m' \<le> x \<and> x < bucket m' + mp_num_buckets m' \<longleftrightarrow> (\<exists>i<?n. x \<in> bucket_range (rules ! i))" for x
    using ranges_cover [OF assms(2,4), of "bucket m'" x] r unfolding R(4) by auto
  ultimately show ?thesis using R by simp
qed

theorem workers_share_buckets_witness:
  "\<exists>m' st. init_mpipe_resource demo_lib (Some 1) demo_mpipe = Up (m', st, [(4, 8, 100, 3), (5, 9, 103, 3)])
     \<and> mp_num_buckets m' = 6"
proof -
  obtain m' st where r: "init_mpipe_resource demo_lib (Some 1) demo_mpipe = Up (m', st, [(4, 8, 100, 3), (5, 9, 103, 3)])"
    using demo_resource by blast
  from workers_share_buckets [OF r] have "mp_num_buckets m' = 6" by (simp add: demo_mpipe_def)
  with r show ?thesis by blast
qed

end
