(* ===== verification/Rule_Defs.thy ===== *)
theory Rule_Defs
  imports Byte_Memory
begin

unbundle bit_operations_syntax

text \<open>
  \<^verbatim>\<open>src/rule_defs.h\<close>, \<^verbatim>\<open>src/stream_stat.h\<close> and \<^verbatim>\<open>src/if_stat.h\<close>: the parameters and filter rules that the host exchanges with the
  card, and their conversions between host and network order. The functions \<^verbatim>\<open>custom_*\<close> and \<^verbatim>\<open>hton128\<close> of the card's
  library are arguments; the locale \<open>byte_order\<close> states what they promise: the card undoes what the host did.
\<close>

section \<open>Parameters with a version bit\<close>

definition set_para_ip_version :: "u32 \<Rightarrow> u32 \<Rightarrow> u32" where
  "set_para_ip_version p v = p OR push_bit 31 v"

definition get_para_ip_version :: "u32 \<Rightarrow> u32" where
  "get_para_ip_version p = drop_bit 31 (p AND 0x80000000)"

definition get_para_value :: "u32 \<Rightarrow> u32" where
  "get_para_value p = p AND 0x7FFFFFFF"

section \<open>Enumerations\<close>

datatype dist_policy =
  DIST_POLICY_NONE | DIST_POLICY_SIP | DIST_POLICY_DIP | DIST_POLICY_SDIP | DIST_POLICY_SDIP_SDPORT

datatype rule_error =
  RULE_OK | RULE_EXIST | RULE_NOT_EXIST | RULE_ID_EXIST | RULE_FULL | RULE_INTERNAL_ERROR

datatype rule_action = ACTION_PASS | ACTION_DROP | ACTION_SYNPASS

datatype rule_log_action = LOG_ACTION_NONE | LOG_ACTION_SIMPLE | LOG_ACTION_COMPLEX

datatype rule_block_action =
  BLOCK_ACTION_NONE | BLOCK_ACTION_SYN_RST | BLOCK_ACTION_SYN_FIN | BLOCK_ACTION_RST | BLOCK_ACTION_FIN
| BLOCK_ACTION_SYN_RST_ACK | BLOCK_ACTION_SYN_FIN_ACK | BLOCK_ACTION_RST_ACK | BLOCK_ACTION_FIN_ACK

datatype rule_type = RULE_TYPE_DYNAMIC | RULE_TYPE_STATIC

datatype rule_version = RULE_VERSION_V4 | RULE_VERSION_V6

text \<open>The value of a byte of a rule in an enumeration given by its members in order; \<open>None\<close> from \<^verbatim>\<open>..._MAX\<close> on.\<close>

definition member :: "'a list \<Rightarrow> u8 \<Rightarrow> 'a option" where
  "member xs v = (if unat v < length xs then Some (xs ! unat v) else None)"

definition rule_actions :: "rule_action list" where
  "rule_actions = [ACTION_PASS, ACTION_DROP, ACTION_SYNPASS]"

definition rule_log_actions :: "rule_log_action list" where
  "rule_log_actions = [LOG_ACTION_NONE, LOG_ACTION_SIMPLE, LOG_ACTION_COMPLEX]"

definition rule_block_actions :: "rule_block_action list" where
  "rule_block_actions =
     [BLOCK_ACTION_NONE, BLOCK_ACTION_SYN_RST, BLOCK_ACTION_SYN_FIN, BLOCK_ACTION_RST, BLOCK_ACTION_FIN,
      BLOCK_ACTION_SYN_RST_ACK, BLOCK_ACTION_SYN_FIN_ACK, BLOCK_ACTION_RST_ACK, BLOCK_ACTION_FIN_ACK]"

definition rule_types :: "rule_type list" where
  "rule_types = [RULE_TYPE_DYNAMIC, RULE_TYPE_STATIC]"

definition rule_versions :: "rule_version list" where
  "rule_versions = [RULE_VERSION_V4, RULE_VERSION_V6]"

section \<open>Records\<close>

record l4_rule =
  r_src_addr :: "128 word"
  r_dst_addr :: "128 word"
  r_src_port :: u16
  r_dst_port :: u16
  r_protocol :: u8
  r_action :: u8
  r_log_action :: u8
  r_block_action :: u8
  cust_id :: u32
  rule_id :: u32
  r_type :: u8
  rule_class :: u8
  r_version :: u8
  reserved_1 :: u8
  reserved_2 :: "u32 list"

record block_para =
  b_dev_id :: u32
  b_port :: u32
  rand_max :: u32
  rand_key :: u32
  b_dst_mac :: "u8 list"
  b_src_mac :: "u8 list"

record log_para =
  l_dev_id :: u32
  l_port :: u32
  server_count :: u32
  server_ip :: "u32 list"
  udp_dport :: u16
  udp_sport :: u16
  l_src_ip :: u32
  l_src_mac :: "u8 list"
  l_dst_mac :: "u8 list"

record rule_class_para =
  class_id :: u16
  priority :: u16
  ttl :: u32

record vm_l2_rule =
  vm_server :: u32
  vm :: u32
  vm_port :: u32
  vm_app :: u32
  vm_inet :: u32
  vm_stream :: u32
  vm_stream_num :: u32
  app_id_alloc :: u32
  vm_mac :: u64

record stream_stat =
  st_packets :: u64
  st_bytes :: u64
  st_dropped :: u64
  st_dropped_bytes :: u64
  st_free :: u64

definition MAX_LOG_SERVER :: nat where "MAX_LOG_SERVER = 64"

section \<open>Conversions of the parameters\<close>

text \<open>On the card.\<close>

definition block_para_ntoh :: "(u32 \<Rightarrow> u32) \<Rightarrow> block_para \<Rightarrow> block_para" where
  "block_para_ntoh ntohl para = para\<lparr>b_dev_id := ntohl (b_dev_id para), b_port := ntohl (b_port para),
     rand_max := ntohl (rand_max para), rand_key := ntohl (rand_key para)\<rparr>"

text \<open>The loop over \<^verbatim>\<open>server_ip\<close>.\<close>

definition convert_servers :: "(u32 \<Rightarrow> u32) \<Rightarrow> u32 list \<Rightarrow> u32 list" where
  "convert_servers g ips = fold (\<lambda>i xs. xs[i := g (xs ! i)]) [0..<MAX_LOG_SERVER] ips"

definition log_para_ntoh :: "(u16 \<Rightarrow> u16) \<Rightarrow> (u32 \<Rightarrow> u32) \<Rightarrow> log_para \<Rightarrow> log_para" where
  "log_para_ntoh ntohs ntohl para = para\<lparr>l_dev_id := ntohl (l_dev_id para), l_port := ntohl (l_port para),
     server_count := ntohl (server_count para), udp_dport := ntohs (udp_dport para), udp_sport := ntohs (udp_sport para),
     l_src_ip := ntohl (l_src_ip para), server_ip := convert_servers ntohl (server_ip para)\<rparr>"

definition rule_class_para_ntoh :: "(u16 \<Rightarrow> u16) \<Rightarrow> (u32 \<Rightarrow> u32) \<Rightarrow> rule_class_para \<Rightarrow> rule_class_para" where
  "rule_class_para_ntoh ntohs ntohl para = para\<lparr>class_id := ntohs (class_id para), priority := ntohs (priority para),
     ttl := ntohl (ttl para)\<rparr>"

text \<open>On the host.\<close>

definition block_para_hton :: "(u32 \<Rightarrow> u32) \<Rightarrow> block_para \<Rightarrow> block_para" where
  "block_para_hton be32 para = para\<lparr>b_dev_id := be32 (b_dev_id para), b_port := be32 (b_port para),
     rand_max := be32 (rand_max para), rand_key := be32 (rand_key para)\<rparr>"

definition log_para_hton :: "(u16 \<Rightarrow> u16) \<Rightarrow> (u32 \<Rightarrow> u32) \<Rightarrow> log_para \<Rightarrow> log_para" where
  "log_para_hton be16 be32 para = para\<lparr>l_dev_id := be32 (l_dev_id para), l_port := be32 (l_port para),
     server_count := be32 (server_count para), udp_dport := be16 (udp_dport para), udp_sport := be16 (udp_sport para),
     l_src_ip := be32 (l_src_ip para), server_ip := convert_servers be32 (server_ip para)\<rparr>"

definition rule_class_para_hton :: "(u16 \<Rightarrow> u16) \<Rightarrow> (u32 \<Rightarrow> u32) \<Rightarrow> rule_class_para \<Rightarrow> rule_class_para" where
  "rule_class_para_hton be16 be32 para = para\<lparr>class_id := be16 (class_id para), priority := be16 (priority para),
     ttl := be32 (ttl para)\<rparr>"

text \<open>\<^verbatim>\<open>free\<close> is not converted.\<close>

definition stream_stat_ntoh :: "(u64 \<Rightarrow> u64) \<Rightarrow> stream_stat \<Rightarrow> stream_stat" where
  "stream_stat_ntoh be64 stats = stats\<lparr>st_packets := be64 (st_packets stats), st_bytes := be64 (st_bytes stats),
     st_dropped := be64 (st_dropped stats), st_dropped_bytes := be64 (st_dropped_bytes stats)\<rparr>"

section \<open>Conversions of the rules\<close>

definition l4_rule_hton_ex ::
    "(128 word \<Rightarrow> 128 word) \<Rightarrow> (u16 \<Rightarrow> u16) \<Rightarrow> (u32 \<Rightarrow> u32) \<Rightarrow> l4_rule \<Rightarrow> l4_rule" where
  "l4_rule_hton_ex hton128 hs hl r = r\<lparr>r_src_addr := hton128 (r_src_addr r), r_dst_addr := hton128 (r_dst_addr r),
     r_src_port := hs (r_src_port r), r_dst_port := hs (r_dst_port r), cust_id := hl (cust_id r), rule_id := hl (rule_id r)\<rparr>"

text \<open>
  \<^verbatim>\<open>custom_htonl\<close> and \<^verbatim>\<open>custom_ntohl\<close> are applied to fields of 32 bits and to the addresses of 128 bits. What they do to
  either width is not known here, so each width has an argument of its own: \<open>hl\<close>, \<open>nl\<close> for the 32-bit fields, \<open>hl128\<close>, \<open>nl128\<close> for
  the value that is stored into an address.
\<close>

definition l4_rule_hton ::
    "(u16 \<Rightarrow> u16) \<Rightarrow> (128 word \<Rightarrow> 128 word) \<Rightarrow> (u32 \<Rightarrow> u32) \<Rightarrow> l4_rule \<Rightarrow> l4_rule" where
  "l4_rule_hton hs hl128 hl r = r\<lparr>r_src_addr := hl128 (r_src_addr r), r_dst_addr := hl128 (r_dst_addr r),
     r_src_port := hs (r_src_port r), r_dst_port := hs (r_dst_port r), cust_id := hl (cust_id r), rule_id := hl (rule_id r)\<rparr>"

text \<open>The last line converts with \<^verbatim>\<open>custom_htonl\<close>, like \<open>l4_rule_hton\<close>.\<close>

definition l4_rule_ntoh ::
    "(u16 \<Rightarrow> u16) \<Rightarrow> (128 word \<Rightarrow> 128 word) \<Rightarrow> (u32 \<Rightarrow> u32) \<Rightarrow> (u32 \<Rightarrow> u32) \<Rightarrow> l4_rule \<Rightarrow> l4_rule" where
  "l4_rule_ntoh ns nl128 nl hl r = r\<lparr>r_src_addr := nl128 (r_src_addr r), r_dst_addr := nl128 (r_dst_addr r),
     r_src_port := ns (r_src_port r), r_dst_port := ns (r_dst_port r), cust_id := nl (cust_id r), rule_id := hl (rule_id r)\<rparr>"

text \<open>\<^verbatim>\<open>app\<close> and \<^verbatim>\<open>inet\<close> have 32 bits and are converted with \<^verbatim>\<open>custom_htons\<close>: \<open>hs32\<close> is the value that it stores into such a field.\<close>

definition vml2_rule_hton :: "(u32 \<Rightarrow> u32) \<Rightarrow> (u32 \<Rightarrow> u32) \<Rightarrow> vm_l2_rule \<Rightarrow> vm_l2_rule" where
  "vml2_rule_hton hs32 hl r = r\<lparr>vm_server := hl (vm_server r), vm := hl (vm r), vm_port := hl (vm_port r),
     vm_app := hs32 (vm_app r), vm_inet := hs32 (vm_inet r), vm_stream := hl (vm_stream r)\<rparr>"

definition vml2_rule_ntoh :: "(u32 \<Rightarrow> u32) \<Rightarrow> vm_l2_rule \<Rightarrow> vm_l2_rule" where
  "vml2_rule_ntoh nl r = r\<lparr>vm_server := nl (vm_server r), vm := nl (vm r), vm_port := nl (vm_port r),
     vm_app := nl (vm_app r), vm_inet := nl (vm_inet r), vm_stream := nl (vm_stream r)\<rparr>"

section \<open>What the conversions promise\<close>

locale byte_order =
  fixes to16 from16 :: "u16 \<Rightarrow> u16" and to32 from32 :: "u32 \<Rightarrow> u32"
  assumes inv16: "from16 (to16 v) = v" and inv32: "from32 (to32 w) = w"
begin

lemma block_back: "block_para_ntoh from32 (block_para_hton to32 p) = p"
  by (simp add: block_para_ntoh_def block_para_hton_def inv32)

lemma class_back: "rule_class_para_ntoh from16 from32 (rule_class_para_hton to16 to32 p) = p"
  by (simp add: rule_class_para_ntoh_def rule_class_para_hton_def inv16 inv32)

lemma servers_back:
  assumes "length ips = MAX_LOG_SERVER"
  shows "convert_servers from32 (convert_servers to32 ips) = ips"
proof -
  have n: "length (fold (\<lambda>i xs. xs[i := g (xs ! i)]) [0..<n] xs) = length xs
      \<and> (\<forall>j<length xs. fold (\<lambda>i xs. xs[i := g (xs ! i)]) [0..<n] xs ! j = (if j < n then g (xs ! j) else xs ! j))"
    for n and g :: "u32 \<Rightarrow> u32" and xs
    by (induction n) (auto simp: nth_list_update less_Suc_eq)
  show ?thesis unfolding convert_servers_def
    by (rule nth_equalityI) (use n assms in \<open>simp_all add: inv32\<close>)
qed

lemma log_back:
  assumes "length (server_ip p) = MAX_LOG_SERVER"
  shows "log_para_ntoh from16 from32 (log_para_hton to16 to32 p) = p"
  using servers_back [OF assms] by (simp add: log_para_ntoh_def log_para_hton_def inv16 inv32)

end

text \<open>A function that is its own inverse serves as both directions.\<close>

locale byte_swap =
  fixes swap16 :: "u16 \<Rightarrow> u16" and swap32 :: "u32 \<Rightarrow> u32"
  assumes swap16: "swap16 (swap16 v) = v" and swap32: "swap32 (swap32 w) = w"

sublocale byte_swap \<subseteq> byte_order swap16 swap16 swap32 swap32
  by unfold_locales (simp_all add: swap16 swap32)

text \<open>A little-endian host swaps the bytes, a big-endian host does nothing.\<close>

interpretation le_host: byte_swap htons htonl
  by unfold_locales simp_all

interpretation be_host: byte_swap "\<lambda>v. v" "\<lambda>v. v"
  by unfold_locales simp_all

section \<open>Rules there and back\<close>

text \<open>When every conversion of the reader undoes the one of the writer, a rule comes back unless its number does not
  survive \<^verbatim>\<open>custom_htonl\<close> twice; a layer-2 rule comes back when \<^verbatim>\<open>custom_ntohl\<close> undoes \<^verbatim>\<open>custom_htons\<close> on its two fields.\<close>

lemma l4_rule_back_iff:
  assumes "\<And>v. ns (hs v) = v" "\<And>a. nl128 (hl128 a) = a" "\<And>v. nl (hl v) = v"
  shows "l4_rule_ntoh ns nl128 nl hl (l4_rule_hton hs hl128 hl r) = r \<longleftrightarrow> hl (hl (rule_id r)) = rule_id r"
  by (cases r) (simp add: l4_rule_ntoh_def l4_rule_hton_def assms)

lemma l2_rule_back_iff:
  assumes "\<And>v. nl (hl v) = v"
  shows "vml2_rule_ntoh nl (vml2_rule_hton hs32 hl r) = r \<longleftrightarrow> nl (hs32 (vm_app r)) = vm_app r \<and> nl (hs32 (vm_inet r)) = vm_inet r"
  by (cases r) (simp add: vml2_rule_ntoh_def vml2_rule_hton_def assms)

section \<open>The version bit\<close>

lemma version_set:
  assumes "v < 2" "p < 2 ^ 31"
  shows "get_para_ip_version (set_para_ip_version p v) = v \<and> get_para_value (set_para_ip_version p v) = p"
proof -
  have "uint v < 2" using assms(1) by (simp add: word_less_def)
  then have "uint v = 0 \<or> uint v = 1" using unsigned_greater_eq [where 'a = int, of v] by linarith
  then have v: "v = 0 \<or> v = 1" by (auto simp: word_uint_eq_iff)
  have "unat p < 2 ^ 31" using assms(2) by (simp add: word_less_nat_alt)
  then have p: "take_bit 31 p = p" by (simp add: word_unat_eq_iff unsigned_take_bit_eq take_bit_nat_eq_self)
  have bv: "bit v n \<longleftrightarrow> n = 0 \<and> bit v 0" for n using v by (auto simp: bit_1_iff)
  have bp: "bit p n \<longleftrightarrow> n < 31 \<and> bit p n" for n by (subst p [symmetric]) (auto simp: bit_simps)
  have m: "(0x80000000 :: u32) = push_bit 31 1" "(0x7FFFFFFF :: u32) = mask 31" by (simp_all add: mask_eq_exp_minus_1)
  have "get_para_ip_version (set_para_ip_version p v) = v"
  proof (rule bit_word_eqI)
    fix n assume "n < LENGTH(32)"
    show "bit (get_para_ip_version (set_para_ip_version p v)) n = bit v n"
      using bv [of n] bp [of "31 + n"] unfolding get_para_ip_version_def set_para_ip_version_def m
      by (auto simp: bit_simps)
  qed
  moreover have "get_para_value (set_para_ip_version p v) = p"
  proof (rule bit_word_eqI)
    fix n assume "n < LENGTH(32)"
    show "bit (get_para_value (set_para_ip_version p v)) n = bit p n"
      using bp [of n] unfolding get_para_value_def set_para_ip_version_def m by (auto simp: bit_simps)
  qed
  ultimately show ?thesis ..
qed

text \<open>Setting version 4 on a parameter of version 6 leaves it at version 6.\<close>

lemma version_never_cleared: "set_para_ip_version p 0 = p"
  by (simp add: set_para_ip_version_def)

section \<open>Registers of the ports\<close>

text \<open>\<^verbatim>\<open>src/if_stat.h\<close>: the statistics registers of a one-gigabit port, then those of a ten-gigabit port, numbered in one
  enumeration.\<close>

datatype mac_reg =
  E_MPIPE_GBE_OCTETS_TX_LO | E_MPIPE_GBE_OCTETS_TX_HI | E_MPIPE_GBE_FRAMES_TX | E_MPIPE_GBE_BCST_FRAMES_TX |
  E_MPIPE_GBE_MCST_FRAMES_TX | E_MPIPE_GBE_PAUSE_FRAMES_TX | E_MPIPE_GBE_64_BYTE_FRAMES_TX |
  E_MPIPE_GBE_65_TO_127_BYTE_FRAMES_TX | E_MPIPE_GBE_128_TO_255_BYTE_FRAMES_TX |
  E_MPIPE_GBE_256_TO_511_BYTE_FRAMES_TX | E_MPIPE_GBE_512_TO_1023_BYTE_FRAMES_TX |
  E_MPIPE_GBE_1024_TO_1518_BYTE_FRAMES_TX | E_MPIPE_GBE_GREATER_THAN_1518_BYTE_FRAMES_TX |
  E_MPIPE_GBE_TX_UNDER_RUNS | E_MPIPE_GBE_SINGLE_COLLISION_FRAMES | E_MPIPE_GBE_MULTIPLE_COLLISION_FRAMES |
  E_MPIPE_GBE_EXCESSIVE_COLLISIONS | E_MPIPE_GBE_LATE_COLLISIONS | E_MPIPE_GBE_DEFERRED_TRANSMISSION_FRAMES |
  E_MPIPE_GBE_CARRIER_SENSE_ERRORS | E_MPIPE_GBE_OCTETS_RX_LO | E_MPIPE_GBE_OCTETS_RX_HI | E_MPIPE_GBE_FRAMES_RX
  | E_MPIPE_GBE_BCST_FRAMES_RX | E_MPIPE_GBE_MCST_FRAMES_RX | E_MPIPE_GBE_PAUSE_FRAMES_RX |
  E_MPIPE_GBE_64_BYTE_FRAMES_RX | E_MPIPE_GBE_65_TO_127_BYTE_FRAMES_RX | E_MPIPE_GBE_128_TO_255_BYTE_FRAMES_RX |
  E_MPIPE_GBE_256_TO_511_BYTE_FRAMES_RX | E_MPIPE_GBE_512_TO_1023_BYTE_FRAMES_RX |
  E_MPIPE_GBE_1024_TO_1518_BYTE_FRAMES_RX | E_MPIPE_GBE_GREATER_THAN_1518_BYTE_FRAMES_RX |
  E_MPIPE_GBE_UNDERSIZE_FRAMES_RX | E_MPIPE_GBE_OVERSIZE_FRAMES_RX | E_MPIPE_GBE_JABBERS_RX |
  E_MPIPE_GBE_FRAME_CHECK_SEQUENCE_ERRORS | E_MPIPE_GBE_LENGTH_FRAME_ERRORS | E_MPIPE_GBE_RECEIVE_SYMBOL_ERRORS
  | E_MPIPE_GBE_ALIGNMENT_ERRORS | E_MPIPE_GBE_RECEIVE_OVERRUNS | E_MPIPE_GBE_IP_HEADER_CHECKSUM_ERRORS |
  E_MPIPE_GBE_TCP_CHECKSUM_ERRORS | E_MPIPE_GBE_UDP_CHECKSUM_ERRORS |
  E_MPIPE_XAUI_OCTETS_TX_LO | E_MPIPE_XAUI_OCTETS_TX_HI | E_MPIPE_XAUI_FRAMES_TX_LO | E_MPIPE_XAUI_FRAMES_TX_HI
  | E_MPIPE_XAUI_BCST_FRAMES_TX | E_MPIPE_XAUI_MCST_FRAMES_TX | E_MPIPE_XAUI_PAUSE_FRAMES_TX |
  E_MPIPE_XAUI_64_BYTE_FRAMES_TX | E_MPIPE_XAUI_65_TO_127_BYTE_FRAMES_TX |
  E_MPIPE_XAUI_128_TO_255_BYTE_FRAMES_TX | E_MPIPE_XAUI_256_TO_511_BYTE_FRAMES_TX |
  E_MPIPE_XAUI_512_TO_1023_BYTE_FRAMES_TX | E_MPIPE_XAUI_1024_TO_1518_BYTE_FRAMES_TX |
  E_MPIPE_XAUI_GREATER_THAN_1518_BYTE_FRAMES_TX | E_MPIPE_XAUI_TRANSMITTED_ERROR_FRAMES |
  E_MPIPE_XAUI_OCTETS_RX_LO | E_MPIPE_XAUI_OCTETS_RX_HI | E_MPIPE_XAUI_FRAMES_RX_LO | E_MPIPE_XAUI_FRAMES_RX_HI
  | E_MPIPE_XAUI_BCST_FRAMES_RX | E_MPIPE_XAUI_MCST_FRAMES_RX | E_MPIPE_XAUI_PAUSE_FRAMES_RX |
  E_MPIPE_XAUI_64_BYTE_FRAMES_RX | E_MPIPE_XAUI_65_TO_127_BYTE_FRAMES_RX |
  E_MPIPE_XAUI_128_TO_255_BYTE_FRAMES_RX | E_MPIPE_XAUI_256_TO_511_BYTE_FRAMES_RX |
  E_MPIPE_XAUI_512_TO_1023_BYTE_FRAMES_RX | E_MPIPE_XAUI_1024_TO_1518_BYTE_FRAMES_RX |
  E_MPIPE_XAUI_GREATER_THAN_1518_BYTE_FRAMES_RX | E_MPIPE_XAUI_SHORT_FRAMES_RX | E_MPIPE_XAUI_OVERSIZE_FRAMES_RX
  | E_MPIPE_XAUI_JABBERS_RX | E_MPIPE_XAUI_FRAME_CRC_ERRORS_RX | E_MPIPE_XAUI_LENGTH_FIELD_ERRORS_RX |
  E_MPIPE_XAUI_RECEIVE_SYMBOL_ERRORS_RX

definition gbe_regs :: "mac_reg list" where
  "gbe_regs =
    [E_MPIPE_GBE_OCTETS_TX_LO, E_MPIPE_GBE_OCTETS_TX_HI, E_MPIPE_GBE_FRAMES_TX, E_MPIPE_GBE_BCST_FRAMES_TX,
     E_MPIPE_GBE_MCST_FRAMES_TX, E_MPIPE_GBE_PAUSE_FRAMES_TX, E_MPIPE_GBE_64_BYTE_FRAMES_TX,
     E_MPIPE_GBE_65_TO_127_BYTE_FRAMES_TX, E_MPIPE_GBE_128_TO_255_BYTE_FRAMES_TX,
     E_MPIPE_GBE_256_TO_511_BYTE_FRAMES_TX, E_MPIPE_GBE_512_TO_1023_BYTE_FRAMES_TX,
     E_MPIPE_GBE_1024_TO_1518_BYTE_FRAMES_TX, E_MPIPE_GBE_GREATER_THAN_1518_BYTE_FRAMES_TX,
     E_MPIPE_GBE_TX_UNDER_RUNS, E_MPIPE_GBE_SINGLE_COLLISION_FRAMES, E_MPIPE_GBE_MULTIPLE_COLLISION_FRAMES,
     E_MPIPE_GBE_EXCESSIVE_COLLISIONS, E_MPIPE_GBE_LATE_COLLISIONS, E_MPIPE_GBE_DEFERRED_TRANSMISSION_FRAMES,
     E_MPIPE_GBE_CARRIER_SENSE_ERRORS, E_MPIPE_GBE_OCTETS_RX_LO, E_MPIPE_GBE_OCTETS_RX_HI, E_MPIPE_GBE_FRAMES_RX,
     E_MPIPE_GBE_BCST_FRAMES_RX, E_MPIPE_GBE_MCST_FRAMES_RX, E_MPIPE_GBE_PAUSE_FRAMES_RX,
     E_MPIPE_GBE_64_BYTE_FRAMES_RX, E_MPIPE_GBE_65_TO_127_BYTE_FRAMES_RX, E_MPIPE_GBE_128_TO_255_BYTE_FRAMES_RX,
     E_MPIPE_GBE_256_TO_511_BYTE_FRAMES_RX, E_MPIPE_GBE_512_TO_1023_BYTE_FRAMES_RX,
     E_MPIPE_GBE_1024_TO_1518_BYTE_FRAMES_RX, E_MPIPE_GBE_GREATER_THAN_1518_BYTE_FRAMES_RX,
     E_MPIPE_GBE_UNDERSIZE_FRAMES_RX, E_MPIPE_GBE_OVERSIZE_FRAMES_RX, E_MPIPE_GBE_JABBERS_RX,
     E_MPIPE_GBE_FRAME_CHECK_SEQUENCE_ERRORS, E_MPIPE_GBE_LENGTH_FRAME_ERRORS, E_MPIPE_GBE_RECEIVE_SYMBOL_ERRORS,
     E_MPIPE_GBE_ALIGNMENT_ERRORS, E_MPIPE_GBE_RECEIVE_OVERRUNS, E_MPIPE_GBE_IP_HEADER_CHECKSUM_ERRORS,
     E_MPIPE_GBE_TCP_CHECKSUM_ERRORS, E_MPIPE_GBE_UDP_CHECKSUM_ERRORS]"

definition xaui_regs :: "mac_reg list" where
  "xaui_regs =
    [E_MPIPE_XAUI_OCTETS_TX_LO, E_MPIPE_XAUI_OCTETS_TX_HI, E_MPIPE_XAUI_FRAMES_TX_LO, E_MPIPE_XAUI_FRAMES_TX_HI,
     E_MPIPE_XAUI_BCST_FRAMES_TX, E_MPIPE_XAUI_MCST_FRAMES_TX, E_MPIPE_XAUI_PAUSE_FRAMES_TX,
     E_MPIPE_XAUI_64_BYTE_FRAMES_TX, E_MPIPE_XAUI_65_TO_127_BYTE_FRAMES_TX, E_MPIPE_XAUI_128_TO_255_BYTE_FRAMES_TX,
     E_MPIPE_XAUI_256_TO_511_BYTE_FRAMES_TX, E_MPIPE_XAUI_512_TO_1023_BYTE_FRAMES_TX,
     E_MPIPE_XAUI_1024_TO_1518_BYTE_FRAMES_TX, E_MPIPE_XAUI_GREATER_THAN_1518_BYTE_FRAMES_TX,
     E_MPIPE_XAUI_TRANSMITTED_ERROR_FRAMES, E_MPIPE_XAUI_OCTETS_RX_LO, E_MPIPE_XAUI_OCTETS_RX_HI,
     E_MPIPE_XAUI_FRAMES_RX_LO, E_MPIPE_XAUI_FRAMES_RX_HI, E_MPIPE_XAUI_BCST_FRAMES_RX,
     E_MPIPE_XAUI_MCST_FRAMES_RX, E_MPIPE_XAUI_PAUSE_FRAMES_RX, E_MPIPE_XAUI_64_BYTE_FRAMES_RX,
     E_MPIPE_XAUI_65_TO_127_BYTE_FRAMES_RX, E_MPIPE_XAUI_128_TO_255_BYTE_FRAMES_RX,
     E_MPIPE_XAUI_256_TO_511_BYTE_FRAMES_RX, E_MPIPE_XAUI_512_TO_1023_BYTE_FRAMES_RX,
     E_MPIPE_XAUI_1024_TO_1518_BYTE_FRAMES_RX, E_MPIPE_XAUI_GREATER_THAN_1518_BYTE_FRAMES_RX,
     E_MPIPE_XAUI_SHORT_FRAMES_RX, E_MPIPE_XAUI_OVERSIZE_FRAMES_RX, E_MPIPE_XAUI_JABBERS_RX,
     E_MPIPE_XAUI_FRAME_CRC_ERRORS_RX, E_MPIPE_XAUI_LENGTH_FIELD_ERRORS_RX, E_MPIPE_XAUI_RECEIVE_SYMBOL_ERRORS_RX]"

definition E_MPIPE_GBE_END :: int where "E_MPIPE_GBE_END = int (length gbe_regs)"

definition E_MPIPE_XAUI_END :: int where "E_MPIPE_XAUI_END = E_MPIPE_GBE_END + int (length xaui_regs)"

definition GBE_MAC :: "int \<Rightarrow> bool" where
  "GBE_MAC idx \<longleftrightarrow> idx \<ge> 0 \<and> idx < E_MPIPE_GBE_END"

definition XGBE_MAC :: "int \<Rightarrow> bool" where
  "XGBE_MAC idx \<longleftrightarrow> idx \<ge> E_MPIPE_GBE_END \<and> idx < E_MPIPE_XAUI_END"

text \<open>The number of a register.\<close>

definition reg_index :: "mac_reg \<Rightarrow> int" where
  "reg_index r = int (length (takeWhile (\<lambda>x. x \<noteq> r) (gbe_regs @ xaui_regs)))"

lemma reg_kinds:
  "GBE_MAC (reg_index r) \<longleftrightarrow> r \<in> set gbe_regs" "XGBE_MAC (reg_index r) \<longleftrightarrow> r \<in> set xaui_regs"
proof -
  have tw: "length (takeWhile (\<lambda>x. x \<noteq> r) (xs @ ys)) < length xs \<longleftrightarrow> r \<in> set xs" for xs ys :: "mac_reg list"
    by (induction xs) auto
  have all: "r \<in> set gbe_regs \<union> set xaui_regs" by (cases r) (simp_all add: gbe_regs_def xaui_regs_def)
  have dis: "set gbe_regs \<inter> set xaui_regs = {}" by (simp add: gbe_regs_def xaui_regs_def)
  show g: "GBE_MAC (reg_index r) \<longleftrightarrow> r \<in> set gbe_regs"
    using tw [of gbe_regs xaui_regs] by (simp add: GBE_MAC_def reg_index_def E_MPIPE_GBE_END_def)
  have "reg_index r < E_MPIPE_XAUI_END"
    using tw [of "gbe_regs @ xaui_regs" "[]"] all by (simp add: reg_index_def E_MPIPE_GBE_END_def E_MPIPE_XAUI_END_def)
  moreover have "0 \<le> reg_index r" by (simp add: reg_index_def)
  ultimately show "XGBE_MAC (reg_index r) \<longleftrightarrow> r \<in> set xaui_regs"
    using g all dis by (auto simp: XGBE_MAC_def GBE_MAC_def)
qed

section \<open>Properties\<close>

text \<open>Parameters survive the way to the card: with conversions of which the card's undo the host's, the
  blocking parameters, the logging parameters with their 64 servers, and the class parameters are
  the same on both sides.\<close>

theorem parameters_reach_card:
  assumes "\<forall>v. ntohs (be16 v) = v" "\<forall>v. ntohl (be32 v) = v" "length (server_ip l) = MAX_LOG_SERVER"
  shows "block_para_ntoh ntohl (block_para_hton be32 b) = b
    \<and> log_para_ntoh ntohs ntohl (log_para_hton be16 be32 l) = l
    \<and> rule_class_para_ntoh ntohs ntohl (rule_class_para_hton be16 be32 c) = c"
proof -
  have o: "byte_order be16 ntohs be32 ntohl" using assms(1,2) by (simp add: byte_order_def)
  show ?thesis
    using byte_order.block_back [OF o] byte_order.log_back [OF o assms(3)] byte_order.class_back [OF o] by simp
qed

definition demo_log :: log_para where
  "demo_log = \<lparr>l_dev_id = 1, l_port = 2, server_count = 1, server_ip = replicate 64 0x0A000001, udp_dport = 514, udp_sport = 514,
     l_src_ip = 0x0A000002, l_src_mac = replicate 8 0, l_dst_mac = replicate 8 0\<rparr>"

theorem parameters_reach_card_witness:
  "log_para_ntoh htons htonl (log_para_hton htons htonl demo_log) = demo_log"
  using parameters_reach_card [of htons htons htonl htonl demo_log] by (simp add: demo_log_def MAX_LOG_SERVER_def)

end
