(* ===== verification/Teardown.thy ===== *)
theory Teardown
  imports Fp_Prelude
begin

text \<open>
  The end of the generators in \<^verbatim>\<open>src/packet_generator.c\<close>: \<^verbatim>\<open>destroy_generator\<close> on the set of objects that are
  allocated. Reading or freeing an object that is not allocated faults.
\<close>

section \<open>Objects\<close>

text \<open>What \<^verbatim>\<open>init_generator_group\<close>, the configuration reader and, per generator, \<^verbatim>\<open>init_signle_generator\<close> allocate.\<close>

datatype obj = Group | Generators | Config | Text | Gen_Config nat | Gen_Pool nat | Gen_Buffer nat

definition group_objects :: "nat \<Rightarrow> bool \<Rightarrow> obj list" where
  "group_objects n text' = [Group, Generators, Config] @ (if text' then [Text] else [])
     @ concat (map (\<lambda>i. [Gen_Config i, Gen_Pool i, Gen_Buffer i]) [0..<n])"

definition use_obj :: "obj \<Rightarrow> obj list \<Rightarrow> obj list run" where
  "use_obj x heap = (if x \<in> set heap then Ret heap else Fault)"

definition free_obj :: "obj \<Rightarrow> obj list \<Rightarrow> obj list run" where
  "free_obj x heap = (if x \<in> set heap then Ret (filter (\<lambda>y. y \<noteq> x) heap) else Fault)"

text \<open>\<open>numbers\<close> is the number of generators, \<open>text'\<close> whether \<^verbatim>\<open>pkt_data\<close> is set (\<^verbatim>\<open>free(NULL)\<close> does nothing). The loop sets the
  pointers of the generators to NULL without freeing what they point to.\<close>

definition destroy_generator :: "nat \<Rightarrow> bool \<Rightarrow> obj list \<Rightarrow> obj list run" where
  "destroy_generator numbers text' heap =
     run_bind (use_obj Group heap) (\<lambda>h.
     run_bind (if numbers = 0 then Ret h else use_obj Generators h) (\<lambda>h.
     run_bind (free_obj Generators h) (\<lambda>h.
     run_bind (use_obj Config h) (\<lambda>h.
     run_bind (if text' then free_obj Text h else Ret h) (\<lambda>h.
     run_bind (free_obj Config h) (\<lambda>h.
     free_obj Group h))))))"

section \<open>What is left\<close>

lemma filter_gens:
  "\<forall>i. x \<noteq> Gen_Config i \<and> x \<noteq> Gen_Pool i \<and> x \<noteq> Gen_Buffer i \<Longrightarrow>
   filter (\<lambda>y. y \<noteq> x) (concat (map (\<lambda>i. [Gen_Config i, Gen_Pool i, Gen_Buffer i]) is))
     = concat (map (\<lambda>i. [Gen_Config i, Gen_Pool i, Gen_Buffer i]) is)"
  by (induction "is") auto

text \<open>The configuration, the pool and the packets of every generator stay allocated.\<close>

lemma destroy_leaks:
  "destroy_generator n text' (group_objects n text')
   = Ret (concat (map (\<lambda>i. [Gen_Config i, Gen_Pool i, Gen_Buffer i]) [0..<n]))"
  by (simp add: destroy_generator_def group_objects_def use_obj_def free_obj_def filter_gens)

text \<open>The global pointer is not reset (the function sets its own parameter to NULL): a second call faults.\<close>

lemma destroy_twice_faults:
  "run_bind (destroy_generator n text' (group_objects n text')) (destroy_generator n text') = Fault"
  unfolding destroy_leaks by (auto simp: destroy_generator_def use_obj_def)

section \<open>Cancelling the threads\<close>

text \<open>\<open>generator_ids\<close> are the threads in the array of the generators, \<open>pending\<close> those with a request to end;
  \<^verbatim>\<open>pthread_cancel\<close> adds its argument and does not wait.\<close>

fun finish_from :: "nat list \<Rightarrow> nat \<Rightarrow> nat \<Rightarrow> nat list \<Rightarrow> nat list run" where
  "finish_from generator_ids i 0 pending = Ret pending"
| "finish_from generator_ids i (Suc n) pending =
     (if length generator_ids \<le> i then Fault
      else finish_from generator_ids (Suc i) n (List.insert (generator_ids ! i) pending))"

definition finish_generator :: "nat \<Rightarrow> nat list \<Rightarrow> nat list \<Rightarrow> nat list run" where
  "finish_generator numbers generator_ids pending = finish_from generator_ids 0 numbers pending"

text \<open>\<^verbatim>\<open>finish_parser_group\<close> of \<^verbatim>\<open>src/packet_parser.c\<close> is the same loop over the parsers.\<close>

definition finish_parser_group :: "nat \<Rightarrow> nat list \<Rightarrow> nat list \<Rightarrow> nat list run" where
  "finish_parser_group numbers parser_ids pending = finish_from parser_ids 0 numbers pending"

text \<open>Exactly the threads of the group are asked to end.\<close>

lemma finish_from_ret:
  "i + n \<le> length ids \<Longrightarrow> \<exists>p. finish_from ids i n pending = Ret p \<and> set p = set pending \<union> set (take n (drop i ids))"
proof (induction n arbitrary: i pending)
  case (Suc n)
  then have "drop i ids = ids ! i # drop (Suc i) ids" by (simp add: Cons_nth_drop_Suc)
  with Suc.IH [of "Suc i" "List.insert (ids ! i) pending"] Suc.prems show ?case by auto
qed simp

lemma finish_both:
  assumes "m = length gs" "n = length ps"
  shows "\<exists>p. run_bind (finish_generator m gs []) (finish_parser_group n ps) = Ret p \<and> set p = set gs \<union> set ps"
proof -
  obtain p where "finish_from gs 0 m [] = Ret p" "set p = set gs"
    using finish_from_ret [of 0 m gs "[]"] assms(1) by auto
  with finish_from_ret [of 0 n ps p] assms(2) show ?thesis
    by (auto simp: finish_generator_def finish_parser_group_def)
qed

end
