(* ===== verification/Spec2Isabelle.thy ===== *)
theory Spec2Isabelle
  imports Ring_Concurrent Tile_Queue Bucket_Lock Thread_System Collector Config_Types Display Loss_Report Mpipe Rule_Defs Teardown
begin

text \<open>
  \<^bold>\<open>Verification of freepacket.\<close>

  The program generates or collects network packets and pushes them through a pipeline of threads:
  generators (or collectors) send packets to parsers, parsers decode them into flows and hand every
  flow to the manager that its hash selects, managers collect the payload of every session in a hash
  table, and a cleaner removes the sessions that have grown old. Packets, flows and sessions live in
  pools; pools and queues are bounded rings shared by two or more threads. A display thread shows how
  full they are, and a server reports losses over a socket. The development models the Intel build,
  and of the Tilera build the ring queue, the checksum, the collector and the set-up of the card.

  \<^bold>\<open>Outcomes.\<close> A C function that may wait or fail has a result in \<open>'a run\<close>: \<open>Ret\<close> a value, \<open>Spin\<close> when it waits
  for another thread in a state where only that thread can help (or for ever), \<open>Fault\<close> when it
  leaves a buffer or an array, follows a pointer that is not set, divides by zero or overflows a signed
  size, and \<open>Exits\<close> with a status when it ends the process. Objects are
  numbered; a pool holds numbers, and the records behind them are in a \<open>world\<close>. Integers keep their width
  (\<open>u8\<close>, \<open>u16\<close>, \<open>u32\<close>, \<open>u64\<close>) wherever they can wrap. The sizes of the allocations at the start are
  computed in \<^verbatim>\<open>int\<close> as in the code: \<open>hash_create\<close> cuts the bytes of its buckets to 32 bits and its loop faults
  beyond the array it got, \<open>init_signle_generator\<close> faults when the bytes of the packets overflow, and a
  negative size makes \<^verbatim>\<open>malloc\<close> fail. The bounds that exclude this, \<open>tables_fit\<close> and \<open>pool_fits\<close>, are
  hypotheses of the theorems on the start and on the running program, and \<open>oversized_start_fails\<close> shows
  that beyond them the start fails.

  \<^bold>\<open>Theories.\<close>

  \<^item> \<open>Fp_Prelude\<close>: integer types, outcomes, generic lemmas on words, lists and rings. \<open>Byte_Memory\<close>: loads and
    stores in a buffer of bytes on a little-endian host, \<^verbatim>\<open>htons\<close> and \<^verbatim>\<open>htonl\<close>.
  \<^item> \<open>Fifo_Interface\<close>: the locale \<open>bounded_fifo\<close>, the contract of every queue and pool. \<open>Ring_Queue\<close>
    (\<^verbatim>\<open>queue_intel.h\<close>) and \<open>Tile_Queue\<close> (\<^verbatim>\<open>queue_tilegx.h\<close>) interpret it for both capacities; single operations refine a list,
    batches keep the order, the two builds agree except on exactly full batches. \<open>Ring_Concurrent\<close>: one
    enqueuer and one dequeuer interleaved at the level of loads and stores, as a step relation; every
    reachable state delivers a prefix of what was sent.
  \<^item> \<open>List_Head\<close> (\<^verbatim>\<open>list.h\<close>): the circular doubly linked list on an explicit store, refined to lists.
    \<open>Checksum\<close> (\<^verbatim>\<open>checksum.c\<close>): the CRC routines and the IP checksum. \<open>Next_Prime\<close>: the table size of \<^verbatim>\<open>hash.c\<close>.
  \<^item> \<open>Flow_Key\<close> (\<^verbatim>\<open>includes.h\<close>): packets, flows, sessions, the session key and the hash. \<open>Sim_Config\<close> (\<^verbatim>\<open>config.h\<close>).
  \<^item> \<open>Session_Table\<close> (\<^verbatim>\<open>hash.c\<close>, and the bucket operations of \<^verbatim>\<open>packet_manager.c\<close>): invariant, and the table as a map from
    keys to collected bytes. \<open>Map_Machine\<close>: the locale of a machine that acts on such a map. \<open>Packet_Manager\<close>
    (\<^verbatim>\<open>packet_manager.c\<close>): the manager and cleaner threads; any interleaving of insertions and bucket visits refines the map.
    \<open>Bucket_Lock\<close>: the same two threads cut at the lock and unlock of a bucket, the lookup and the change, as a
    step relation (\<open>lock_runs\<close>). No two threads are inside a bucket, what a manager does after its lookup is what
    the whole of \<^verbatim>\<open>hash_add_item\<close> does, and a manager that waits for a free session with the lock in its hand
    keeps the cleaner from freeing one.
  \<^item> \<open>Packet_Parser\<close> (\<^verbatim>\<open>packet_parser.c\<close>): decoding and the parser thread. \<open>Packet_Build\<close> and \<open>Packet_Generator\<close>
    (\<^verbatim>\<open>packet_generator.c\<close>): building a packet, the sending and collecting threads; \<open>Collector\<close>: the collecting thread from its
    initialisation, over sequences of polls of the card with at most 1024 frames, none longer than \<^verbatim>\<open>pktlen\<close>
    (a longer one overruns its buffer, as \<open>Packet_Generator\<close> shows). The locale \<open>range_counter\<close> is
    interpreted for the four address and port counters. A generated packet decodes to what was put
    in; a generator serves its parsers in turn, and no two generators share one.
  \<^item> \<open>Pipeline\<close>: the composition. A parser's batch and the turns of the managers, in any interleaving, as an instance
    of \<open>map_machine\<close>: every packet is filed once, under its own key, and comes back to its pool.
  \<^item> \<open>Config_File\<close> (\<^verbatim>\<open>config.c\<close>): the two readers of the configuration file down to the characters, the conversions
    of Ethernet addresses and the defaults. \<open>Simulation\<close> (\<^verbatim>\<open>simulation.c\<close>): command line, the start of the groups,
    the invariant that the start establishes. \<open>Config_Types\<close>: every value that ends up in the configuration is
    one of its C type.
  \<^item> \<open>Thread_System\<close>: the running program, from the start in \<open>Simulation\<close> through any interleaving of the passes of all
    threads, as a step relation (\<open>runs\<close>) over a record of everything they share (\<open>system\<close>). An invariant in six parts, kept by
    every pass, gives that no thread faults or ends the process, that every packet and flow is in exactly one
    place, that every packet that waits at a parser, also one that has gone around, is what the parser's batch
    assumes, and that the pipeline cannot stop while no generator serves more than 16 parsers; with one
    generator and 17 parsers it can.
  \<^item> \<open>Display\<close> (\<^verbatim>\<open>display.c\<close>, and \<^verbatim>\<open>print_config_file\<close>): both views and the loop; the numbers shown are the sizes of the
    objects. \<open>Packet_Print\<close> (\<^verbatim>\<open>parse.c\<close>): the text of a decoded packet and the hexadecimal dump, which can be
    read back. \<open>Loss_Report\<close> (\<^verbatim>\<open>lossratio.c\<close>): both ends of the socket, with the results of the system
    calls as arguments.
  \<^item> \<open>Mpipe\<close> (\<^verbatim>\<open>mpipe.c\<close>): the set-up of the Tilera card over a record of the library's results (\<open>lib\<close>); outcomes are
    \<open>Up\<close>, \<open>Die\<close> for an exit of the process, and \<open>Crash\<close>, also for an overflow of \<^verbatim>\<open>int\<close>.
  \<^item> \<open>Rule_Defs\<close> (\<^verbatim>\<open>rule_defs.h\<close>, \<^verbatim>\<open>stream_stat.h\<close>, \<^verbatim>\<open>if_stat.h\<close>): the structures
    of the other card and their conversions, whose vendor functions \<^verbatim>\<open>custom_htonl\<close> and so on are arguments, one for
    every width they are used at; the locales \<open>byte_order\<close> and \<open>byte_swap\<close> are interpreted for both kinds
    of host. \<open>Teardown\<close>: the end of the groups.

  \<^bold>\<open>Loops and threads.\<close> Every loop of the code that ends is a total function: structural, or with a measure
  (the payload loop, the readers, the prime search). The endless loops of the threads are modelled one
  pass at a time (\<open>generator_pass\<close>, \<open>parser_pass\<close>, \<open>manager_pass\<close>, the cleaner's round), and \<open>generator_passes\<close>, the
  interleavings of \<open>Packet_Manager\<close> and \<open>Pipeline\<close>, and the runs of \<open>Thread_System\<close> iterate them. In \<open>Thread_System\<close> a pass is
  one step: a thread that would wait in the middle of its pass is stepped once it can complete it, the
  generators fill their pools one after the other before any of them sends, and
  a run has fewer than \<open>2 ^ 26\<close> parser passes, because a parser takes 64 objects per pass through a 32-bit
  counter. An insertion and a bucket visit are atomic outside \<open>Bucket_Lock\<close>, which justifies this by the locks,
  and a queue operation is atomic outside \<open>Ring_Concurrent\<close>, which justifies it for one thread at
  each end.

  \<^bold>\<open>Not modelled.\<close> Thread creation, the failure of an allocation whose size is not negative, the lock around the
  output; an overflow of the sum of two thread numbers in \<open>next_parser\<close>; the floating-point
  arithmetic of \<^verbatim>\<open>calc_period\<close>, whose result is a parameter of \<open>main_config\<close>, and the division in \<^verbatim>\<open>drop_ratio\<close>, of which the
  model gives dividend and divisor; the padding of the display's table. \<^verbatim>\<open>inac_impl.h\<close>, \<^verbatim>\<open>inac_opt.h\<close> and \<^verbatim>\<open>inac_err.h\<close>
  only declare a library that is not in the repository, and the remaining structures of \<^verbatim>\<open>rule_defs.h\<close>,
  \<^verbatim>\<open>rule_stat.h\<close> and \<^verbatim>\<open>if_stat.h\<close> are used by no code here. \<^verbatim>\<open>getopt_long\<close>, the cards' libraries, sockets, the file
  system and the cycle counter are arguments of the definitions that use them.
\<close>

end
